(* ===== verification/B2L_Prelude.thy ===== *)
theory B2L_Prelude
  imports Main "HOL-Library.Word"
begin

text \<open>
  Shared ground of the development: the result type of code that can stop the process (a failed
  \<open>assert\<close>, a null dereference, a use after free), its sequencing combinators, the C string
  helpers the passes call (\<open>strstr\<close>, \<open>StringRef::startswith\<close>), and the generic list lemmas the
  components share. \<open>res_simps\<close> collects the equations that run a result computation.
\<close>

named_theorems res_simps

type_synonym u64 = "64 word"
type_synonym u32 = "32 word"

section \<open>Results\<close>

text \<open>
  Every way the C++ process can stop inside the modelled code is a constructor: a failed
  \<open>assert\<close> (its condition as text), the dereference of a null pointer, a cast to the
  wrong class, the second \<open>eraseFromParent\<close> of one instruction, a loop that never ends, and an exception no one catches.
\<close>

datatype fault =
    AssertFailed string
  | NullDeref string
  | BadCast string
  | UseAfterFree nat
  | OutOfFuel
  | Thrown string

type_synonym 'a res = "fault + 'a"

definition rbind :: "'a res \<Rightarrow> ('a \<Rightarrow> 'b res) \<Rightarrow> 'b res" where
  "rbind m k = (case m of Inl e \<Rightarrow> Inl e | Inr x \<Rightarrow> k x)"

definition require :: "bool \<Rightarrow> fault \<Rightarrow> unit res" where
  "require b e = (if b then Inr () else Inl e)"

fun rmap :: "('a \<Rightarrow> 'b res) \<Rightarrow> 'a list \<Rightarrow> 'b list res" where
  "rmap g [] = Inr []"
| "rmap g (x # xs) = rbind (g x) (\<lambda>y. rbind (rmap g xs) (\<lambda>ys. Inr (y # ys)))"

fun rfold :: "('a \<Rightarrow> 's \<Rightarrow> 's res) \<Rightarrow> 'a list \<Rightarrow> 's \<Rightarrow> 's res" where
  "rfold g [] s = Inr s"
| "rfold g (x # xs) s = rbind (g x s) (rfold g xs)"

lemma rbind_simps [simp, res_simps]:
  "rbind (Inl e) k = Inl e"
  "rbind (Inr x) k = k x"
  by (simp_all add: rbind_def)

lemma rbind_eq_Inr: "rbind m k = Inr y \<longleftrightarrow> (\<exists>x. m = Inr x \<and> k x = Inr y)"
  by (cases m) simp_all

lemma rbind_eq_Inl: "rbind m k = Inl e \<longleftrightarrow> m = Inl e \<or> (\<exists>x. m = Inr x \<and> k x = Inl e)"
  by (cases m) simp_all

lemma rbind_assoc: "rbind (rbind m k) h = rbind m (\<lambda>x. rbind (k x) h)"
  by (cases m) simp_all

lemma rbind_return [simp, res_simps]: "rbind m Inr = m"
  by (cases m) simp_all

lemma rbind_cong_res: "(\<And>x. m = Inr x \<Longrightarrow> k x = h x) \<Longrightarrow> rbind m k = rbind m h"
  by (cases m) simp_all

lemma require_simps [simp, res_simps]:
  "require True e = Inr ()"
  "require False e = Inl e"
  by (simp_all add: require_def)

lemma require_eq_Inr [simp]: "require b e = Inr u \<longleftrightarrow> b"
  by (simp add: require_def)

lemma require_eq_Inl [simp]: "require b e = Inl e' \<longleftrightarrow> \<not> b \<and> e' = e"
  by (auto simp: require_def)

lemma rmap_append:
  "rmap g (xs @ ys) = rbind (rmap g xs) (\<lambda>a. rbind (rmap g ys) (\<lambda>b. Inr (a @ b)))"
  by (induction xs) (simp_all add: rbind_assoc)

lemma rmap_length: "rmap g xs = Inr ys \<Longrightarrow> length ys = length xs"
  by (induction xs arbitrary: ys) (auto simp: rbind_eq_Inr)

lemma rmap_nth: "rmap g xs = Inr ys \<Longrightarrow> n < length xs \<Longrightarrow> g (xs ! n) = Inr (ys ! n)"
  by (induction xs arbitrary: ys n) (auto simp: rbind_eq_Inr nth_Cons split: nat.splits)

lemma rmap_total: "(\<And>x. x \<in> set xs \<Longrightarrow> \<exists>y. g x = Inr y) \<Longrightarrow> \<exists>ys. rmap g xs = Inr ys"
proof (induction xs)
  case Nil
  then show ?case by simp
next
  case (Cons x xs)
  then obtain y ys where "g x = Inr y" "rmap g xs = Inr ys"
    by (metis list.set_intros)
  then show ?case by simp
qed

lemma rmap_total_iff: "(\<exists>ys. rmap g xs = Inr ys) \<longleftrightarrow> (\<forall>x \<in> set xs. \<exists>y. g x = Inr y)"
proof
  assume "\<exists>ys. rmap g xs = Inr ys"
  then show "\<forall>x \<in> set xs. \<exists>y. g x = Inr y"
    by (metis in_set_conv_nth rmap_nth)
qed (auto intro: rmap_total)

lemma rmap_Inr: "(\<And>x. x \<in> set xs \<Longrightarrow> g x = Inr (h x)) \<Longrightarrow> rmap g xs = Inr (map h xs)"
  by (induction xs) simp_all

lemma rmap_set: "rmap g xs = Inr ys \<Longrightarrow> y \<in> set ys \<Longrightarrow> \<exists>x \<in> set xs. g x = Inr y"
  by (induction xs arbitrary: ys) (auto simp: rbind_eq_Inr)

lemma rfold_append: "rfold g (xs @ ys) s = rbind (rfold g xs s) (rfold g ys)"
proof (induction xs arbitrary: s)
  case Nil
  show ?case by simp
next
  case (Cons x xs)
  show ?case by (cases "g x s") (simp_all add: Cons.IH)
qed

lemma rfold_invariant:
  assumes "rfold g xs s = Inr t" and "P s"
    and "\<And>x s t. x \<in> set xs \<Longrightarrow> P s \<Longrightarrow> g x s = Inr t \<Longrightarrow> P t"
  shows "P t"
  using assms
proof (induction xs arbitrary: s)
  case Nil
  then show ?case by simp
next
  case (Cons x xs)
  from Cons.prems(1) obtain u where u: "g x s = Inr u" "rfold g xs u = Inr t"
    by (auto simp: rbind_eq_Inr)
  then have "P u" using Cons.prems(2,3) by (meson list.set_intros(1))
  from Cons.IH [OF u(2) this] Cons.prems(3) show ?case
    by (meson list.set_intros(2))
qed

section \<open>C strings\<close>

definition startswith :: "string \<Rightarrow> string \<Rightarrow> bool" where
  "startswith s p \<longleftrightarrow> take (length p) s = p"

fun strstr :: "string \<Rightarrow> string \<Rightarrow> bool" where
  "strstr [] n = (n = [])"
| "strstr (c # cs) n = (startswith (c # cs) n \<or> strstr cs n)"

lemma startswith_append [simp]: "startswith (p @ s) p"
  by (simp add: startswith_def)

lemma strstr_iff: "strstr s n \<longleftrightarrow> (\<exists>a b. s = a @ n @ b)"
proof (induction s)
  case Nil
  then show ?case by auto
next
  case (Cons c cs)
  have st: "startswith (c # cs) n \<longleftrightarrow> (\<exists>b. c # cs = n @ b)"
    unfolding startswith_def by (metis append_eq_conv_conj append_take_drop_id)
  show ?case
  proof
    assume "strstr (c # cs) n"
    then consider "\<exists>b. c # cs = n @ b" | "\<exists>a b. cs = a @ n @ b"
      using st Cons.IH by auto
    then show "\<exists>a b. c # cs = a @ n @ b"
      by cases (metis append_Nil, metis append_Cons)
  next
    assume "\<exists>a b. c # cs = a @ n @ b"
    then obtain a b where ab: "c # cs = a @ n @ b" by blast
    show "strstr (c # cs) n"
    proof (cases a)
      case Nil
      with ab have "startswith (c # cs) n" by (simp add: st)
      then show ?thesis by simp
    next
      case (Cons d ds)
      with ab have "cs = ds @ n @ b" by simp
      with Cons.IH show ?thesis by auto
    qed
  qed
qed

section \<open>Lists\<close>

lemma concat_map_filter: "concat (map (filter P) xss) = filter P (concat xss)"
  by (induction xss) simp_all

lemma filter_id_conv_ball: "(\<And>x. x \<in> set xs \<Longrightarrow> P x) \<Longrightarrow> filter P xs = xs"
  by simp

lemma distinct_map_filter_key: "distinct (map g xs) \<Longrightarrow> distinct (map g (filter P xs))"
  by (simp add: distinct_map_filter)

lemma nth_concat_split:
  "n < length (xs @ ys) \<Longrightarrow> (xs @ ys) ! n = (if n < length xs then xs ! n else ys ! (n - length xs))"
  by (simp add: nth_append)

text \<open>
  A loop over a list that carries a state and produces one output per element: the shape of the
  instruction loops that remember what the block did so far.
\<close>

fun scan :: "('s \<Rightarrow> 'a \<Rightarrow> 'b \<times> 's) \<Rightarrow> 's \<Rightarrow> 'a list \<Rightarrow> 'b list \<times> 's" where
  "scan g s [] = ([], s)"
| "scan g s (x # xs) = (let (y, s') = g s x; (ys, t) = scan g s' xs in (y # ys, t))"

lemma scan_append:
  "scan g s (xs @ ys) =
     (fst (scan g s xs) @ fst (scan g (snd (scan g s xs)) ys), snd (scan g (snd (scan g s xs)) ys))"
  by (induction xs arbitrary: s) (simp_all add: split_beta Let_def)

lemma scan_length [simp]: "length (fst (scan g s xs)) = length xs"
  by (induction xs arbitrary: s) (simp_all add: split_beta Let_def)

lemma scan_nth:
  "n < length xs \<Longrightarrow> fst (scan g s xs) ! n = fst (g (snd (scan g s (take n xs))) (xs ! n))"
  by (induction xs arbitrary: s n) (simp_all add: split_beta Let_def nth_Cons split: nat.split)

lemma scan_rel:
  "(\<And>s x. R x (fst (g s x))) \<Longrightarrow> list_all2 R xs (fst (scan g s xs))"
  by (simp add: list_all2_conv_all_nth scan_nth)

lemma scan_Nil_snd [simp]: "snd (scan g s []) = s"
  by simp

lemma scan_snd_Cons: "snd (scan g s (x # xs)) = snd (scan g (snd (g s x)) xs)"
  by (simp add: split_beta Let_def)

lemma rev_induct_snoc [case_names Nil snoc]:
  "P [] \<Longrightarrow> (\<And>x xs. P xs \<Longrightarrow> P (xs @ [x])) \<Longrightarrow> P xs"
  by (rule rev_induct)

end
