(* ===== verification/LLVM_IR.thy ===== *)
theory LLVM_IR
  imports B2L_Prelude
begin

text \<open>
  The data the passes read and rewrite: LLVM 3.2 modules, functions, basic blocks, instructions
  and metadata, as values. A pointer of the C++ code (\<open>Instruction *\<close>, \<open>BasicBlock *\<close>,
  \<open>Function *\<close>) is the identity number its object carries (\<open>iid\<close>, \<open>bid\<close>, \<open>fid\<close>), so two
  pointers are equal exactly when the numbers are. Only the container operations the passes use
  appear here: metadata lookup and update, removal of an instruction from its block
  (\<open>eraseFromParent\<close>), replacement of all uses, the terminator of a block. LLVM algorithms the
  repository only calls (cloning, inlining, parsing bitcode) are parameters where they are used.
\<close>

section \<open>Values and types\<close>

datatype ty = IntTy nat | PtrTy ty | VoidTy | OtherTy string

text \<open>
  \<open>ConstInt w c\<close> is a \<open>ConstantInt\<close> of width \<open>w\<close> with zero-extended value \<open>c\<close>;
  \<open>ConstExpr b t\<close> is a \<open>ConstantExpr\<close> of type \<open>t\<close> for which \<open>isCast()\<close> is \<open>b\<close>; \<open>InsRef n\<close>
  is the result of the instruction with identity \<open>n\<close>.
\<close>

datatype val =
    ConstInt nat u64
  | ConstNull ty
  | ConstExpr bool ty
  | GlobalVar string
  | FuncRef string
  | ArgRef nat
  | InsRef nat
  | OtherVal string

datatype binop = AndOp | AddOp | ShlOp | OtherBin string

datatype ikind =
    Store val val
  | Load val
  | Call val "val list"
  | BinOp binop val val
  | IntToPtr val
  | CastI string val
  | Ret "val option"
  | Br nat
  | CondBr val nat nat
  | SwitchI val nat "(u64 \<times> nat) list"
  | Unreachable
  | OtherIns string "val list"

section \<open>Metadata\<close>

datatype mdop = MDStr string | MDInt u64 | MDFunc nat | MDBlock nat | MDNull

type_synonym mdnode = "mdop list"

section \<open>Instructions, blocks, functions, modules\<close>

record instr =
  iid :: nat
  ikind :: ikind
  imeta :: "string \<rightharpoonup> mdnode"

record bblock =
  bid :: nat
  bname :: string
  bins :: "instr list"

record func =
  fid :: nat
  fname :: string
  fblocks :: "bblock list"

record lmodule =
  mfuncs :: "func list"
  mglobals :: "string list"

definition mk_ins :: "nat \<Rightarrow> ikind \<Rightarrow> instr" where
  "mk_ins n k = \<lparr>iid = n, ikind = k, imeta = Map.empty\<rparr>"

definition get_md :: "instr \<Rightarrow> string \<Rightarrow> mdnode option" where
  "get_md i k = imeta i k"

definition has_md :: "instr \<Rightarrow> string \<Rightarrow> bool" where
  "has_md i k \<longleftrightarrow> imeta i k \<noteq> None"

definition set_md :: "instr \<Rightarrow> string \<Rightarrow> mdnode \<Rightarrow> instr" where
  "set_md i k n = i\<lparr>imeta := (imeta i)(k \<mapsto> n)\<rparr>"

lemma set_md_simps [simp]:
  "iid (set_md i k n) = iid i"
  "ikind (set_md i k n) = ikind i"
  "imeta (set_md i k n) = (imeta i)(k \<mapsto> n)"
  by (simp_all add: set_md_def)

lemma get_set_md [simp]: "get_md (set_md i k n) k' = (if k' = k then Some n else get_md i k')"
  by (simp add: get_md_def)

lemma has_set_md [simp]: "has_md (set_md i k n) k' \<longleftrightarrow> k' = k \<or> has_md i k'"
  by (simp add: has_md_def)

lemma mk_ins_simps [simp]:
  "iid (mk_ins n k) = n" "ikind (mk_ins n k) = k" "imeta (mk_ins n k) = Map.empty"
  by (simp_all add: mk_ins_def)

text \<open>The result of \<open>dyn_cast<ConstantInt>\<close> followed by \<open>getZExtValue\<close>.\<close>

fun const_int :: "val \<Rightarrow> u64 option" where
  "const_int (ConstInt w c) = Some c"
| "const_int _ = None"

text \<open>\<open>dyn_cast<StoreInst>\<close> and then \<open>dyn_cast<GlobalVariable>\<close> on the pointer operand.\<close>

fun global_store :: "ikind \<Rightarrow> (string \<times> val) option" where
  "global_store (Store v (GlobalVar g)) = Some (g, v)"
| "global_store _ = None"

definition store_to :: "string \<Rightarrow> instr \<Rightarrow> val option" where
  "store_to g i = (case global_store (ikind i) of None \<Rightarrow> None
                   | Some (n, v) \<Rightarrow> if n = g then Some v else None)"

definition is_store :: "instr \<Rightarrow> bool" where
  "is_store i = (case ikind i of Store _ _ \<Rightarrow> True | _ \<Rightarrow> False)"

fun is_term_kind :: "ikind \<Rightarrow> bool" where
  "is_term_kind (Ret _) = True"
| "is_term_kind (Br _) = True"
| "is_term_kind (CondBr _ _ _) = True"
| "is_term_kind (SwitchI _ _ _) = True"
| "is_term_kind Unreachable = True"
| "is_term_kind _ = False"

fun is_ret_kind :: "ikind \<Rightarrow> bool" where
  "is_ret_kind (Ret _) = True"
| "is_ret_kind _ = False"

text \<open>\<open>BasicBlock::getTerminator\<close>: the last instruction when it is a terminator, else null.\<close>

definition terminator :: "bblock \<Rightarrow> instr option" where
  "terminator b = (if bins b = [] then None
     else if is_term_kind (ikind (last (bins b))) then Some (last (bins b)) else None)"

text \<open>\<open>isa<ReturnInst>(bb->getTerminator())\<close>, which asserts on a null argument.\<close>

definition is_exit :: "bblock \<Rightarrow> bool res" where
  "is_exit b = (case terminator b of
      None \<Rightarrow> Inl (NullDeref ''getTerminator'')
    | Some t \<Rightarrow> Inr (is_ret_kind (ikind t)))"

fun succ_ids :: "ikind \<Rightarrow> nat list" where
  "succ_ids (Br t) = [t]"
| "succ_ids (CondBr _ t e) = [t, e]"
| "succ_ids (SwitchI _ d cs) = d # map snd cs"
| "succ_ids _ = []"

definition func_ins :: "func \<Rightarrow> instr list" where
  "func_ins f = concat (map bins (fblocks f))"

definition ins_ids :: "func \<Rightarrow> nat list" where
  "ins_ids f = map iid (func_ins f)"

text \<open>Distinct objects have distinct addresses.\<close>

definition wf_func :: "func \<Rightarrow> bool" where
  "wf_func f \<longleftrightarrow> distinct (ins_ids f) \<and> distinct (map bid (fblocks f))"

definition map_blocks :: "(bblock \<Rightarrow> bblock) \<Rightarrow> func \<Rightarrow> func" where
  "map_blocks g f = f\<lparr>fblocks := map g (fblocks f)\<rparr>"

definition map_ins :: "(instr \<Rightarrow> instr) \<Rightarrow> func \<Rightarrow> func" where
  "map_ins g f = map_blocks (\<lambda>b. b\<lparr>bins := map g (bins b)\<rparr>) f"

section \<open>Removal and replacement\<close>

text \<open>
  \<open>Instruction::eraseFromParent\<close> unlinks and frees one instruction; a second call on the same
  pointer is a use after free. \<open>erase_all\<close> is the clean-up loop that ends most passes.
\<close>

definition drop_ids :: "nat set \<Rightarrow> func \<Rightarrow> func" where
  "drop_ids X f = map_blocks (\<lambda>b. b\<lparr>bins := filter (\<lambda>i. iid i \<notin> X) (bins b)\<rparr>) f"

definition erase_from_parent :: "nat \<Rightarrow> func \<Rightarrow> func res" where
  "erase_from_parent n f =
     (if n \<in> set (ins_ids f) then Inr (drop_ids {n} f) else Inl (UseAfterFree n))"

definition erase_all :: "nat list \<Rightarrow> func \<Rightarrow> func res" where
  "erase_all ns f = rfold erase_from_parent ns f"

text \<open>\<open>Value::replaceAllUsesWith\<close> on the value of instruction \<open>n\<close>.\<close>

fun subst_val :: "val \<Rightarrow> val \<Rightarrow> val \<Rightarrow> val" where
  "subst_val a b v = (if v = a then b else v)"

fun subst_kind :: "val \<Rightarrow> val \<Rightarrow> ikind \<Rightarrow> ikind" where
  "subst_kind a b (Store v p) = Store (subst_val a b v) (subst_val a b p)"
| "subst_kind a b (Load p) = Load (subst_val a b p)"
| "subst_kind a b (Call c xs) = Call (subst_val a b c) (map (subst_val a b) xs)"
| "subst_kind a b (BinOp oper v w) = BinOp oper (subst_val a b v) (subst_val a b w)"
| "subst_kind a b (IntToPtr v) = IntToPtr (subst_val a b v)"
| "subst_kind a b (CastI s v) = CastI s (subst_val a b v)"
| "subst_kind a b (Ret v) = Ret (map_option (subst_val a b) v)"
| "subst_kind a b (Br t) = Br t"
| "subst_kind a b (CondBr v t e) = CondBr (subst_val a b v) t e"
| "subst_kind a b (SwitchI v d cs) = SwitchI (subst_val a b v) d cs"
| "subst_kind a b Unreachable = Unreachable"
| "subst_kind a b (OtherIns s vs) = OtherIns s (map (subst_val a b) vs)"

definition rauw :: "val \<Rightarrow> val \<Rightarrow> func \<Rightarrow> func" where
  "rauw a b f = map_ins (\<lambda>i. i\<lparr>ikind := subst_kind a b (ikind i)\<rparr>) f"

section \<open>Facts about the containers\<close>

lemma func_ins_map_ins [simp]: "func_ins (map_ins g f) = map g (func_ins f)"
  by (simp add: func_ins_def map_ins_def map_blocks_def map_concat comp_def)

lemma func_ins_drop_ids [simp]: "func_ins (drop_ids X f) = filter (\<lambda>i. iid i \<notin> X) (func_ins f)"
  by (simp add: func_ins_def drop_ids_def map_blocks_def comp_def filter_concat)

lemma ins_ids_drop_ids [simp]: "ins_ids (drop_ids X f) = filter (\<lambda>n. n \<notin> X) (ins_ids f)"
  by (simp add: ins_ids_def filter_map comp_def)

lemma drop_ids_empty [simp]: "drop_ids {} f = f"
  by (simp add: drop_ids_def map_blocks_def)

lemma drop_ids_drop_ids [simp]: "drop_ids X (drop_ids Y f) = drop_ids (Y \<union> X) f"
  by (simp add: drop_ids_def map_blocks_def comp_def)

lemma drop_ids_frame [simp]:
  "fid (drop_ids X f) = fid f" "fname (drop_ids X f) = fname f"
  "length (fblocks (drop_ids X f)) = length (fblocks f)"
  by (simp_all add: drop_ids_def map_blocks_def)

lemma map_ins_frame [simp]:
  "fid (map_ins g f) = fid f" "fname (map_ins g f) = fname f"
  by (simp_all add: map_ins_def map_blocks_def)

text \<open>
  The clean-up loop removes exactly the collected instructions when it was given each of them
  once, and is a use after free as soon as it was given one twice.
\<close>

lemma erase_all_ok:
  assumes "distinct ns" and "set ns \<subseteq> set (ins_ids f)"
  shows "erase_all ns f = Inr (drop_ids (set ns) f)"
  using assms
proof (induction ns arbitrary: f)
  case Nil
  then show ?case by (simp add: erase_all_def)
next
  case (Cons n ns)
  then have "erase_all ns (drop_ids {n} f) = Inr (drop_ids (set ns) (drop_ids {n} f))"
    by (intro Cons.IH) auto
  with Cons.prems show ?case
    by (simp add: erase_all_def erase_from_parent_def)
qed

lemma erase_all_dup:
  assumes "\<not> distinct ns"
  shows "\<exists>e. erase_all ns f = Inl e"
  using assms
proof (induction ns arbitrary: f)
  case Nil
  then show ?case by simp
next
  case (Cons n ns)
  have gone: "\<exists>e. erase_all ns f = Inl e" if "n \<in> set ns" "n \<notin> set (ins_ids f)" for ns f
    using that
  proof (induction ns arbitrary: f)
    case Nil
    then show ?case by simp
  next
    case (Cons m ms)
    then show ?case
      by (cases "m \<in> set (ins_ids f)")
         (auto simp: erase_all_def erase_from_parent_def)
  qed
  show ?case
  proof (cases "n \<in> set (ins_ids f)")
    case False
    then show ?thesis by (simp add: erase_all_def erase_from_parent_def)
  next
    case True
    then have "erase_all (n # ns) f = erase_all ns (drop_ids {n} f)"
      by (simp add: erase_all_def erase_from_parent_def)
    then show ?thesis
      using Cons.IH Cons.prems gone [of ns "drop_ids {n} f"] by (cases "n \<in> set ns") auto
  qed
qed

lemma erase_all_Inr:
  assumes "erase_all ns f = Inr f'"
  shows "f' = drop_ids (set ns) f \<and> distinct ns"
  using assms
proof (induction ns arbitrary: f)
  case Nil
  then show ?case by (simp add: erase_all_def)
next
  case (Cons n ns)
  from Cons.prems have d: "distinct (n # ns)"
    using erase_all_dup [of "n # ns" f] by auto
  from Cons.prems have "erase_all ns (drop_ids {n} f) = Inr f'"
    by (auto simp: erase_all_def erase_from_parent_def split: if_splits)
  then have "f' = drop_ids (set ns) (drop_ids {n} f)" by (rule Cons.IH [THEN conjunct1])
  with d show ?case by simp
qed

lemma store_to_iff: "store_to g i = Some v \<longleftrightarrow> ikind i = Store v (GlobalVar g)"
  unfolding store_to_def
  by (cases "ikind i" rule: global_store.cases) auto

lemma store_to_cong: "ikind i = ikind j \<Longrightarrow> store_to g i = store_to g j"
  by (simp add: store_to_def)

lemma store_to_set_md [simp]: "store_to g (set_md i k n) = store_to g i"
  by (rule store_to_cong) simp

text \<open>One address, one place.\<close>

lemma same_id_same_place:
  assumes "distinct (concat (map (\<lambda>b. map iid (bins b)) bs))"
    and "b \<in> set bs" "i \<in> set (bins b)" "c \<in> set bs" "j \<in> set (bins c)" "iid i = iid j"
  shows "b = c \<and> i = j"
  using assms
proof (induction bs)
  case Nil
  then show ?case by simp
next
  case (Cons d ds)
  have disj: "iid k \<noteq> iid l" if "k \<in> set (bins d)" "e \<in> set ds" "l \<in> set (bins e)" for k l e
    using Cons.prems(1) that by (auto simp: disjoint_iff)
  have inj: "k = l" if "k \<in> set (bins d)" "l \<in> set (bins d)" "iid k = iid l" for k l
    using Cons.prems(1) that by (auto simp: distinct_map inj_on_def)
  show ?case
    using Cons disj [of i c j] disj [of j b i] inj [of i j] by (auto simp: eq_commute)
qed

lemma wf_blocks_distinct: "wf_func F \<Longrightarrow> distinct (concat (map (\<lambda>b. map iid (bins b)) (fblocks F)))"
  by (simp add: wf_func_def ins_ids_def func_ins_def map_concat comp_def)

section \<open>Fresh addresses\<close>

text \<open>A new object has an address no live object has.\<close>

definition fresh_iid :: "func \<Rightarrow> nat" where
  "fresh_iid F = Suc (fold max (ins_ids F) 0)"

definition fresh_bid :: "func \<Rightarrow> nat" where
  "fresh_bid F = Suc (fold max (map bid (fblocks F)) 0)"

lemma le_fold_max: "x \<in> set xs \<Longrightarrow> x \<le> fold max xs (0::nat)"
  using Max_ge [of "insert 0 (set xs)" x] by (simp flip: Max.set_eq_fold)

lemma fresh_iid_new: "fresh_iid F \<notin> set (ins_ids F)"
  using le_fold_max [of _ "ins_ids F"] by (fastforce simp: fresh_iid_def)

end
