(* ===== verification/Hex_Codec.thy ===== *)
theory Hex_Codec
  imports LLVM_IR
begin

text \<open>
  Program counters travel between the passes as hexadecimal text in metadata and names.
  This theory models the printers (\<open>FixOverlappedBBs::hex\<close>, \<open>SaveTranslatedBBs::hex\<close>,
  \<open>toHexString\<close>, \<open>intToHex\<close>), the readers (\<open>getHexMetadataFromIns\<close> over \<open>strtoll\<close>,
  \<open>hexToInt\<close> over \<open>strtoul\<close>) and the readers of names (\<open>getBlockAddress\<close>). The locale
  \<open>pc_codec\<close> is the contract a printer and a reader share; it is interpreted on both pairs. The
  printer of the pipeline is inverted by its reader below \<open>2^63\<close> only, because \<open>strtoll\<close>
  saturates. Nothing calls \<open>intToHex\<close>: the block names of the repository are decimal, and
  \<open>Block_Names\<close> shows what \<open>getBlockAddress\<close> reads in them.
\<close>

section \<open>Printing\<close>

text \<open>The digits of \<open>%lx\<close> (and of a stream in \<open>std::hex\<close> mode).\<close>

definition hex_digit :: "nat \<Rightarrow> char" where
  "hex_digit n = ''0123456789abcdef'' ! n"

fun hex_digits :: "nat \<Rightarrow> string" where
  "hex_digits n = (if n < 16 then [hex_digit n] else hex_digits (n div 16) @ [hex_digit (n mod 16)])"

declare hex_digits.simps [simp del]

text \<open>A minimal field width of \<open>w\<close>, filled with zeros on the left.\<close>

definition zero_fill :: "nat \<Rightarrow> string \<Rightarrow> string" where
  "zero_fill w s = replicate (w - length s) CHR ''0'' @ s"

text \<open>\<open>sprintf(s, "0x%08lx", val)\<close>\<close>

definition hex :: "u64 \<Rightarrow> string" where
  "hex v = ''0x'' @ zero_fill 8 (hex_digits (unat v))"

definition save_hex :: "u64 \<Rightarrow> string" where
  "save_hex v = ''0x'' @ zero_fill 8 (hex_digits (unat v))"

text \<open>
  \<open>ss << "0x" << std::setw(8) << std::setfill('0') << std::hex << pc\<close>: the width applies to the
  next output only, which is \<open>pc\<close>.
\<close>

definition toHexString :: "u64 \<Rightarrow> string" where
  "toHexString pc = ''0x'' @ zero_fill 8 (hex_digits (unat pc))"

definition intToHex :: "u32 \<Rightarrow> string" where
  "intToHex num = hex_digits (unat num)"

section \<open>Reading\<close>

fun hex_value :: "char \<Rightarrow> nat option" where
  "hex_value c = (let n = of_char c :: nat in
     if 48 \<le> n \<and> n \<le> 57 then Some (n - 48)
     else if 97 \<le> n \<and> n \<le> 102 then Some (n - 87)
     else if 65 \<le> n \<and> n \<le> 70 then Some (n - 55)
     else None)"

declare hex_value.simps [simp del]

fun parse_hex :: "nat \<Rightarrow> string \<Rightarrow> nat" where
  "parse_hex acc [] = acc"
| "parse_hex acc (c # cs) = (case hex_value c of None \<Rightarrow> acc | Some d \<Rightarrow> parse_hex (16 * acc + d) cs)"

definition is_space :: "char \<Rightarrow> bool" where
  "is_space c \<longleftrightarrow> (let n = of_char c :: nat in n = 32 \<or> (9 \<le> n \<and> n \<le> 13))"

text \<open>
  The common front of \<open>strtol\<close>-like functions for base 16: leading white space, one sign, an
  optional \<open>0x\<close> that counts only when a digit follows it, then digits up to the first other
  character. The result is the sign and the magnitude, before any clamping.
\<close>

definition strip_0x :: "string \<Rightarrow> string" where
  "strip_0x s = (case s of c0 # x # d # r \<Rightarrow>
       if c0 = CHR ''0'' \<and> (x = CHR ''x'' \<or> x = CHR ''X'') \<and> hex_value d \<noteq> None then d # r else s
     | _ \<Rightarrow> s)"

definition strto_hex :: "string \<Rightarrow> bool \<times> nat" where
  "strto_hex s = (let t = dropWhile is_space s in
     case t of
       c # r \<Rightarrow> if c = CHR ''-'' then (True, parse_hex 0 (strip_0x r))
                else if c = CHR ''+'' then (False, parse_hex 0 (strip_0x r))
                else (False, parse_hex 0 (strip_0x t))
     | [] \<Rightarrow> (False, 0))"

text \<open>\<open>uint64_t pc = std::strtoll(s, NULL, 16)\<close>: clamped to the signed range, then converted.\<close>

definition strtoll16 :: "string \<Rightarrow> u64" where
  "strtoll16 s = (case strto_hex s of (neg, n) \<Rightarrow>
     if neg then (if n \<le> 2 ^ 63 then - of_nat n else - (2 ^ 63))
     else (if n < 2 ^ 63 then of_nat n else 2 ^ 63 - 1))"

text \<open>\<open>std::strtoul(s, NULL, 16)\<close>, and \<open>hexToInt\<close>, which converts it to \<open>uint32_t\<close>.\<close>

definition strtoul16 :: "string \<Rightarrow> u64" where
  "strtoul16 s = (case strto_hex s of (neg, n) \<Rightarrow>
     if n < 2 ^ 64 then (if neg then - of_nat n else of_nat n) else - 1)"

definition hexToInt :: "string \<Rightarrow> u32" where
  "hexToInt s = ucast (strtoul16 s)"

section \<open>Metadata and names\<close>

text \<open>\<open>getHexMetadataFromIns\<close>: three assertions, then \<open>strtoll\<close> on the string operand.\<close>

definition getHexMetadataFromIns :: "instr \<Rightarrow> string \<Rightarrow> u64 res" where
  "getHexMetadataFromIns ins k = (case get_md ins k of
       None \<Rightarrow> Inl (AssertFailed ''pcEndNode'')
     | Some node \<Rightarrow> (case node of
         [] \<Rightarrow> Inl (AssertFailed ''getOperand'')
       | v # _ \<Rightarrow> (case v of
           MDNull \<Rightarrow> Inl (AssertFailed ''v'')
         | MDStr s \<Rightarrow> Inr (strtoll16 s)
         | _ \<Rightarrow> Inl (AssertFailed ''s''))))"

text \<open>The node every annotating pass builds: \<open>MDNode::get(ctx, MDString::get(ctx, hex(v)))\<close>.\<close>

definition hex_node :: "u64 \<Rightarrow> mdnode" where
  "hex_node v = [MDStr (hex v)]"

definition true_node :: mdnode where
  "true_node = [MDStr ''true'']"

definition entry_block :: "func \<Rightarrow> bblock res" where
  "entry_block f = (case fblocks f of [] \<Rightarrow> Inl (AssertFailed ''func empty'') | b # _ \<Rightarrow> Inr b)"

definition front_ins :: "bblock \<Rightarrow> instr res" where
  "front_ins b = (case bins b of [] \<Rightarrow> Inl (AssertFailed ''bb empty'') | i # _ \<Rightarrow> Inr i)"

definition getHexMetadataFromFunc :: "func \<Rightarrow> string \<Rightarrow> u64 res" where
  "getHexMetadataFromFunc f k =
     rbind (entry_block f) (\<lambda>b. rbind (front_ins b) (\<lambda>i. getHexMetadataFromIns i k))"

definition getPCEndOfFunc :: "func \<Rightarrow> u64 res" where
  "getPCEndOfFunc f = getHexMetadataFromFunc f ''BB_pcEnd''"

definition getPCStartOfFunc :: "func \<Rightarrow> u64 res" where
  "getPCStartOfFunc f = getHexMetadataFromFunc f ''BB_pcStart''"

definition getCurrentPCOfIns :: "instr \<Rightarrow> u64 res" where
  "getCurrentPCOfIns i = getHexMetadataFromIns i ''INS_currPC''"

definition getBBStart :: "instr \<Rightarrow> u64 res" where
  "getBBStart i = getHexMetadataFromIns i ''BB_pcStart''"

text \<open>\<open>std::map visited\<close> keeps one entry per program counter; the result is its size.\<close>

definition getNumberOfASMInstructions :: "func \<Rightarrow> nat res" where
  "getNumberOfASMInstructions f =
     rbind (rmap getCurrentPCOfIns (filter (\<lambda>i. has_md i ''INS_currPC'') (func_ins f)))
       (\<lambda>pcs. Inr (card (set pcs)))"

text \<open>\<open>isRecoveredBlock\<close> and \<open>getBlockAddress\<close>, for functions and for basic blocks.\<close>

definition isRecoveredFunc :: "func \<Rightarrow> bool" where
  "isRecoveredFunc f \<longleftrightarrow> fname f \<noteq> [] \<and> startswith (fname f) ''Func_''"

definition isRecoveredBlock :: "bblock \<Rightarrow> bool" where
  "isRecoveredBlock b \<longleftrightarrow> bname b \<noteq> [] \<and> startswith (bname b) ''BB_''"

definition getFuncAddress :: "func \<Rightarrow> u32" where
  "getFuncAddress f = hexToInt (drop 5 (fname f))"

definition getBlockAddress :: "bblock \<Rightarrow> u32" where
  "getBlockAddress b = hexToInt (drop 3 (bname b))"

section \<open>The contract of a printer and a reader\<close>

locale pc_codec =
  fixes enc :: "'a::len word \<Rightarrow> string"
    and dec :: "string \<Rightarrow> 'b::len word"
    and conv :: "'a word \<Rightarrow> 'b word"
    and fits :: "'a word \<Rightarrow> bool"
  assumes dec_enc: "fits v \<Longrightarrow> dec (enc v) = conv v"
    and conv_inj: "fits v \<Longrightarrow> fits w \<Longrightarrow> conv v = conv w \<Longrightarrow> v = w"
begin

lemma enc_inj: "fits v \<Longrightarrow> fits w \<Longrightarrow> enc v = enc w \<Longrightarrow> v = w"
  by (metis conv_inj dec_enc)

lemma enc_inj_on: "inj_on enc {v. fits v}"
  by (rule inj_onI) (auto intro: enc_inj)

end

section \<open>The codec proofs\<close>

lemma hex_value_digit: "n < 16 \<Longrightarrow> hex_value (hex_digit n) = Some n"
proof -
  have "\<forall>n \<in> {..<16}. hex_value (hex_digit n) = Some n"
    by (simp add: lessThan_nat_numeral lessThan_Suc hex_value.simps hex_digit_def)
  then show "n < 16 \<Longrightarrow> hex_value (hex_digit n) = Some n" by simp
qed

lemma parse_hex_append:
  "(\<And>c. c \<in> set s \<Longrightarrow> hex_value c \<noteq> None) \<Longrightarrow>
   parse_hex acc (s @ t) = parse_hex (parse_hex acc s) t"
proof (induction s arbitrary: acc)
  case Nil
  show ?case by simp
next
  case (Cons c s)
  from Cons.prems [of c] obtain d where d: "hex_value c = Some d" by auto
  from Cons.prems have "\<And>c. c \<in> set s \<Longrightarrow> hex_value c \<noteq> None" by simp
  from Cons.IH [OF this] d show ?case by simp
qed

lemma hex_digits_valid: "c \<in> set (hex_digits n) \<Longrightarrow> hex_value c \<noteq> None"
proof (induction n rule: hex_digits.induct)
  case (1 n)
  then show ?case
    by (subst (asm) (2) hex_digits.simps) (auto simp: hex_value_digit split: if_splits)
qed

lemma parse_hex_digits: "parse_hex 0 (hex_digits n) = n"
proof (induction n rule: hex_digits.induct)
  case (1 n)
  show ?case
  proof (cases "n < 16")
    case True
    then show ?thesis by (subst hex_digits.simps) (simp add: hex_value_digit)
  next
    case False
    then have "parse_hex 0 (hex_digits n) =
        parse_hex (parse_hex 0 (hex_digits (n div 16))) [hex_digit (n mod 16)]"
      by (subst hex_digits.simps) (simp add: parse_hex_append hex_digits_valid)
    also have "\<dots> = 16 * (n div 16) + n mod 16"
      using False 1 by (simp add: hex_value_digit)
    finally show ?thesis by simp
  qed
qed

lemma hex_value_0 [simp]: "hex_value CHR ''0'' = Some 0"
  by (simp add: hex_value.simps)

lemma parse_hex_zeros: "parse_hex 0 (replicate k CHR ''0'' @ s) = parse_hex 0 s"
  by (induction k) simp_all

lemma hex_digits_nonempty [simp]: "hex_digits n \<noteq> []"
  by (subst hex_digits.simps) simp

lemma zero_fill_valid: "c \<in> set (zero_fill w (hex_digits n)) \<Longrightarrow> hex_value c \<noteq> None"
  unfolding zero_fill_def using hex_digits_valid by (auto simp del: not_None_eq)

lemma zero_fill_Cons: "\<exists>d r. zero_fill w (hex_digits n) = d # r \<and> hex_value d \<noteq> None"
proof (cases "zero_fill w (hex_digits n)")
  case Nil
  then show ?thesis by (simp add: zero_fill_def)
next
  case (Cons d r)
  have "hex_value d \<noteq> None" by (rule zero_fill_valid [of _ w n]) (simp add: Cons)
  with Cons show ?thesis by blast
qed

lemma hex_value_not_space:
  assumes "hex_value c \<noteq> None"
  shows "\<not> is_space c \<and> c \<noteq> CHR ''-'' \<and> c \<noteq> CHR ''+''"
proof -
  have v: "hex_value CHR ''-'' = None" "hex_value CHR ''+'' = None"
    by (simp_all add: hex_value.simps)
  define n where "n = (of_char c :: nat)"
  have "hex_value c = None" if "n < 48"
    using that unfolding hex_value.simps n_def [symmetric] Let_def by simp
  moreover have "is_space c \<Longrightarrow> n < 48"
    unfolding is_space_def n_def [symmetric] Let_def by auto
  ultimately show ?thesis using assms v by auto
qed

lemma strto_hex_0x:
  "strto_hex (''0x'' @ zero_fill w (hex_digits n)) = (False, n)"
proof -
  obtain d r where dr: "zero_fill w (hex_digits n) = d # r" "hex_value d \<noteq> None"
    using zero_fill_Cons by blast
  have "parse_hex 0 (zero_fill w (hex_digits n)) = n"
    by (simp add: zero_fill_def parse_hex_zeros parse_hex_digits)
  with dr show ?thesis
    by (simp add: strto_hex_def strip_0x_def is_space_def del: not_None_eq)
qed

lemma strip_0x_digits: "strip_0x (hex_digits n) = hex_digits n"
proof -
  have x: "hex_value CHR ''x'' = None" "hex_value CHR ''X'' = None"
    by (simp_all add: hex_value.simps)
  show ?thesis
    unfolding strip_0x_def using x hex_digits_valid [of _ n]
    by (auto split: list.splits simp del: not_None_eq)
qed

lemma strto_hex_digits: "strto_hex (hex_digits n) = (False, n)"
proof -
  obtain d r where dr: "hex_digits n = d # r"
    by (cases "hex_digits n") auto
  then have "hex_value d \<noteq> None" using hex_digits_valid [of d n] by simp
  then have "\<not> is_space d" "d \<noteq> CHR ''-''" "d \<noteq> CHR ''+''"
    using hex_value_not_space by auto
  with dr have "strto_hex (hex_digits n) = (False, parse_hex 0 (strip_0x (hex_digits n)))"
    by (simp add: strto_hex_def)
  then show ?thesis by (simp add: strip_0x_digits parse_hex_digits)
qed

lemma strto_hex_hex: "strto_hex (hex v) = (False, unat v)"
  unfolding hex_def by (rule strto_hex_0x)

lemma strtoll16_hex_gen:
  "strtoll16 (hex v) = (if unat v < 2 ^ 63 then v else 2 ^ 63 - 1)"
  by (simp add: strtoll16_def strto_hex_hex)

lemma hexToInt_intToHex_gen: "hexToInt (intToHex n) = n"
proof -
  have "unat n < 2 ^ LENGTH(32)" by (rule unsigned_less)
  then have "unat n < 2 ^ 64" by simp
  moreover have "ucast (ucast n :: u64) = n"
    by (rule bit_word_eqI) (simp add: bit_ucast_iff)
  ultimately show ?thesis
    by (simp add: hexToInt_def strtoul16_def intToHex_def strto_hex_digits)
qed

interpretation meta_codec: pc_codec hex strtoll16 "\<lambda>v. v" "\<lambda>v. unat v < 2 ^ 63"
  by unfold_locales (simp_all add: strtoll16_hex_gen)

interpretation name_codec: pc_codec intToHex hexToInt "\<lambda>v. v" "\<lambda>_. True"
  by unfold_locales (simp_all add: hexToInt_intToHex_gen)

lemma getHex_hex_node:
  "get_md i k = Some (hex_node v) \<Longrightarrow>
   getHexMetadataFromIns i k = Inr (if unat v < 2 ^ 63 then v else 2 ^ 63 - 1)"
  by (simp add: getHexMetadataFromIns_def hex_node_def strtoll16_hex_gen)

lemma getHex_set_md [simp]:
  "getHexMetadataFromIns (set_md i k (hex_node v)) k =
     Inr (if unat v < 2 ^ 63 then v else 2 ^ 63 - 1)"
  by (rule getHex_hex_node) simp

lemma getHex_set_md_other [simp]:
  "k' \<noteq> k \<Longrightarrow> getHexMetadataFromIns (set_md i k n) k' = getHexMetadataFromIns i k'"
  by (simp add: getHexMetadataFromIns_def)

lemma getHex_cong: "get_md i k = get_md j k \<Longrightarrow> getHexMetadataFromIns i k = getHexMetadataFromIns j k"
  by (simp add: getHexMetadataFromIns_def)

lemma getHex_Inr_has: "getHexMetadataFromIns i k = Inr v \<Longrightarrow> has_md i k"
  by (auto simp: getHexMetadataFromIns_def has_md_def get_md_def split: option.splits)

section \<open>Properties\<close>

text \<open>
  C6. The pipeline's program-counter text: a value printed by \<open>hex\<close> into metadata and read back
  by \<open>getHexMetadataFromIns\<close> is the same value below \<open>2^63\<close>, and is \<open>2^63 - 1\<close> for every value
  from \<open>2^63\<close> on, since \<open>strtoll\<close> saturates.
\<close>

theorem hex_metadata_roundtrip:
  "getHexMetadataFromIns (set_md i k (hex_node v)) k =
     Inr (if unat v < 2 ^ 63 then v else 0x7FFFFFFFFFFFFFFF)"
  by (simp add: getHex_hex_node)

end
