(* ===== verification/Pass_Kit.thy ===== *)
theory Pass_Kit
  imports Hex_Codec
begin

text \<open>
  What the passes have in common. A pass that only annotates keeps the skeleton of a function
  (blocks, instruction identities and kinds) and every piece of metadata but the marks of stores to \<open>PC\<close>; a
  pass that only erases keeps a subsequence. Both contracts are locales, interpreted by the theory
  of each pass. \<open>marks_agree\<close> compares the metadata of two instructions on a set of kinds.
\<close>

definition skeleton :: "func \<Rightarrow> (nat \<times> (nat \<times> ikind) list) list" where
  "skeleton f = map (\<lambda>b. (bid b, map (\<lambda>i. (iid i, ikind i)) (bins b))) (fblocks f)"

text \<open>
  The marks of the passes that classify stores to \<open>PC\<close>. All other metadata is kept by them: the bounds that
  \<open>SaveTranslatedBBs\<close> and \<open>RemoveExtraStoreToPC\<close> put on every instruction, and the jump tables of
  \<open>ReplaceConstantLoads\<close>.
\<close>

definition mark_kinds :: "string list" where
  "mark_kinds = [''INS_directCall'', ''INS_indirectCall'', ''INS_callReturn'', ''INS_return'',
     ''INS_directJump'', ''INS_indirectJump'']"

definition kept_kinds :: "string set" where
  "kept_kinds = - set mark_kinds"

lemma bound_kinds_kept [simp]:
  "''BB_pcStart'' \<in> kept_kinds" "''BB_pcEnd'' \<in> kept_kinds" "''INS_currPC'' \<in> kept_kinds"
  by (simp_all add: kept_kinds_def mark_kinds_def)

definition kept_view :: "func \<Rightarrow> (string \<Rightarrow> mdnode option) list" where
  "kept_view f = map (\<lambda>i k. if k \<in> kept_kinds then get_md i k else None) (func_ins f)"

lemma skeleton_func_ins:
  "skeleton f' = skeleton f \<Longrightarrow>
   map (\<lambda>i. (iid i, ikind i)) (func_ins f') = map (\<lambda>i. (iid i, ikind i)) (func_ins f)"
proof -
  have "map (\<lambda>i. (iid i, ikind i)) (func_ins g) = concat (map snd (skeleton g))" for g
    by (simp add: func_ins_def skeleton_def map_concat comp_def)
  then show "skeleton f' = skeleton f \<Longrightarrow> ?thesis" by simp
qed

lemma skeleton_wf: "skeleton f' = skeleton f \<Longrightarrow> wf_func f' \<longleftrightarrow> wf_func f"
proof -
  assume s: "skeleton f' = skeleton f"
  have "ins_ids f' = ins_ids f"
    using arg_cong [OF skeleton_func_ins [OF s], of "map fst"] by (simp add: ins_ids_def comp_def)
  moreover have "map bid (fblocks f') = map bid (fblocks f)"
    using arg_cong [OF s, of "map fst"] by (simp add: skeleton_def comp_def)
  ultimately show ?thesis by (simp add: wf_func_def)
qed

locale annotating_pass =
  fixes run :: "func \<Rightarrow> (func \<times> bool) res"
  assumes keeps_skeleton: "run f = Inr (f', ch) \<Longrightarrow> skeleton f' = skeleton f"
    and keeps_view: "run f = Inr (f', ch) \<Longrightarrow> kept_view f' = kept_view f"
    and unchanged: "run f = Inr (f', False) \<Longrightarrow> f' = f"
begin

lemma keeps_wf: "run f = Inr (f', ch) \<Longrightarrow> wf_func f' \<longleftrightarrow> wf_func f"
  by (rule skeleton_wf) (rule keeps_skeleton)

lemma keeps_length: "run f = Inr (f', ch) \<Longrightarrow> length (func_ins f') = length (func_ins f)"
  using skeleton_func_ins [OF keeps_skeleton] by (metis length_map)

lemma keeps_kind:
  assumes "run f = Inr (f', ch)" and "n < length (func_ins f)"
  shows "ikind (func_ins f' ! n) = ikind (func_ins f ! n)"
proof -
  have m: "map (\<lambda>i. (iid i, ikind i)) (func_ins f') = map (\<lambda>i. (iid i, ikind i)) (func_ins f)"
    by (rule skeleton_func_ins) (rule keeps_skeleton [OF assms(1)])
  have "n < length (func_ins f')" using keeps_length [OF assms(1)] assms(2) by simp
  with assms(2) show ?thesis using arg_cong [OF m, of "\<lambda>l. snd (l ! n)"] by simp
qed

lemma keeps_meta:
  assumes "run f = Inr (f', ch)" and "n < length (func_ins f)" and "k \<in> kept_kinds"
  shows "get_md (func_ins f' ! n) k = get_md (func_ins f ! n) k"
proof -
  have "n < length (func_ins f')" using keeps_length [OF assms(1)] assms(2) by simp
  with assms(2,3) show ?thesis
    using arg_cong [OF keeps_view [OF assms(1)], of "\<lambda>l. (l ! n) k"]
    by (simp add: kept_view_def)
qed

end

lemma kept_view_first:
  assumes "skeleton f' = skeleton f" and "kept_view f' = kept_view f" and "k \<in> kept_kinds"
  shows "getHexMetadataFromFunc f' k = getHexMetadataFromFunc f k"
proof (cases "fblocks f")
  case Nil
  then have "fblocks f' = []" using assms(1) by (simp add: skeleton_def)
  with Nil show ?thesis by (simp add: getHexMetadataFromFunc_def entry_block_def)
next
  case (Cons b bs)
  then obtain b' bs' where f': "fblocks f' = b' # bs'"
    using assms(1) by (cases "fblocks f'") (auto simp: skeleton_def)
  have len: "length (bins b') = length (bins b)"
    using assms(1) Cons f' by (auto simp: skeleton_def dest: arg_cong [where f = length])
  show ?thesis
  proof (cases "bins b")
    case Nil
    with len Cons f' show ?thesis
      by (simp add: getHexMetadataFromFunc_def entry_block_def front_ins_def)
  next
    case i: (Cons i "is")
    then obtain i' is' where i': "bins b' = i' # is'" using len by (cases "bins b'") auto
    have "get_md i' k = get_md i k"
      using arg_cong [OF assms(2), of "\<lambda>l. hd l k"] assms(3) Cons f' i i'
      by (simp add: kept_view_def func_ins_def)
    with Cons f' i i' show ?thesis
      by (simp add: getHexMetadataFromFunc_def entry_block_def front_ins_def
          getHexMetadataFromIns_def)
  qed
qed

text \<open>An erasing pass only removes instructions from blocks and never reports "no change" wrongly.\<close>

locale erasing_pass =
  fixes run :: "func \<Rightarrow> (func \<times> bool) res"
    and doomed :: "func \<Rightarrow> instr \<Rightarrow> bool"
  assumes survivors:
    "wf_func f \<Longrightarrow> run f = Inr (f', ch) \<Longrightarrow>
     skeleton f' = map (\<lambda>b. (bid b, map (\<lambda>i. (iid i, ikind i)) (filter (\<lambda>i. \<not> doomed f i) (bins b)))) (fblocks f)"
begin

lemma survivors_flat:
  assumes "wf_func f" and "run f = Inr (f', ch)"
  shows "map (\<lambda>i. (iid i, ikind i)) (func_ins f')
       = map (\<lambda>i. (iid i, ikind i)) (filter (\<lambda>i. \<not> doomed f i) (func_ins f))"
  using arg_cong [OF survivors [OF assms], of "\<lambda>l. concat (map snd l)"]
  by (simp add: skeleton_def func_ins_def map_concat comp_def filter_concat)

lemma survivor_ids:
  assumes "wf_func f" and "run f = Inr (f', ch)"
  shows "ins_ids f' = map iid (filter (\<lambda>i. \<not> doomed f i) (func_ins f))"
  using arg_cong [OF survivors_flat [OF assms], of "map fst"]
  by (simp add: ins_ids_def comp_def)

lemma block_count: "wf_func f \<Longrightarrow> run f = Inr (f', ch) \<Longrightarrow> length (fblocks f') = length (fblocks f)"
  using arg_cong [OF survivors, of f f' ch length] by (simp add: skeleton_def)

lemma keeps_wf:
  assumes "wf_func f" and "run f = Inr (f', ch)"
  shows "wf_func f'"
proof -
  have "map bid (fblocks f') = map bid (fblocks f)"
    using arg_cong [OF survivors [OF assms], of "map fst"] by (simp add: skeleton_def comp_def)
  with survivor_ids [OF assms] assms(1) show ?thesis by (simp add: wf_func_def ins_ids_def distinct_map_filter)
qed

end

section \<open>Operands and users\<close>

fun operands :: "ikind \<Rightarrow> val list" where
  "operands (Store v p) = [v, p]"
| "operands (Load p) = [p]"
| "operands (Call c xs) = xs @ [c]"
| "operands (BinOp oper v w) = [v, w]"
| "operands (IntToPtr v) = [v]"
| "operands (CastI s v) = [v]"
| "operands (Ret v) = (case v of None \<Rightarrow> [] | Some w \<Rightarrow> [w])"
| "operands (Br t) = []"
| "operands (CondBr v t e) = [v]"
| "operands (SwitchI v d cs) = [v]"
| "operands Unreachable = []"
| "operands (OtherIns s vs) = vs"

definition users :: "func \<Rightarrow> val \<Rightarrow> instr list" where
  "users f v = filter (\<lambda>i. v \<in> set (operands (ikind i))) (func_ins f)"

text \<open>\<open>dyn_cast<Instruction>\<close> on a value of the function: the instruction it is the result of.\<close>

definition find_ins :: "func \<Rightarrow> nat \<Rightarrow> instr option" where
  "find_ins f n = find (\<lambda>i. iid i = n) (func_ins f)"

definition def_of :: "func \<Rightarrow> val \<Rightarrow> ikind option" where
  "def_of f v = (case v of InsRef n \<Rightarrow> map_option ikind (find_ins f n) | _ \<Rightarrow> None)"

lemma find_ins_unique:
  assumes "wf_func F" and "i \<in> set (func_ins F)"
  shows "find_ins F (iid i) = Some i"
proof (cases "find_ins F (iid i)")
  case None
  then show ?thesis using assms(2) by (auto simp: find_ins_def find_None_iff)
next
  case (Some j)
  then have "j \<in> set (func_ins F)" "iid j = iid i" by (auto simp: find_ins_def find_Some_iff)
  moreover have "inj_on iid (set (func_ins F))" using assms(1) by (simp add: wf_func_def ins_ids_def distinct_map)
  ultimately have "j = i" using assms(2) by (auto dest: inj_onD)
  with Some show ?thesis by simp
qed

text \<open>A value without a use, and what \<open>replaceAllUsesWith\<close> does to operands.\<close>

definition unused :: "func \<Rightarrow> nat \<Rightarrow> bool" where
  "unused F n \<longleftrightarrow> (\<forall>i \<in> set (func_ins F). InsRef n \<notin> set (operands (ikind i)))"

lemma ins_ids_rauw [simp]: "ins_ids (rauw a b F) = ins_ids F"
  by (simp add: rauw_def ins_ids_def comp_def)

lemma operands_subst_kind: "operands (subst_kind a b k) = map (subst_val a b) (operands k)"
  by (cases k) (auto split: option.split)

lemma wf_rauw [simp]: "wf_func (rauw a b F) \<longleftrightarrow> wf_func F"
  by (simp add: wf_func_def) (simp add: rauw_def map_ins_def map_blocks_def comp_def)

lemma unused_rauw_same: "v \<noteq> InsRef n \<Longrightarrow> unused (rauw (InsRef n) v F) n"
  by (auto simp: unused_def rauw_def operands_subst_kind)

lemma unused_rauw_other: "unused F m \<Longrightarrow> v \<noteq> InsRef m \<Longrightarrow> unused (rauw a v F) m"
  by (auto simp: unused_def rauw_def operands_subst_kind)

lemma subst_kind_id: "a \<notin> set (operands k) \<Longrightarrow> subst_kind a b k = k"
  by (cases k) (auto intro!: map_idI simp: map_option_case split: option.splits)

lemma rauw_unused: "unused F n \<Longrightarrow> rauw (InsRef n) v F = F"
proof -
  assume u: "unused F n"
  have "map (\<lambda>i. i\<lparr>ikind := subst_kind (InsRef n) v (ikind i)\<rparr>) (bins b) = bins b" if "b \<in> set (fblocks F)" for b
    using u that by (intro map_idI) (auto simp: unused_def func_ins_def subst_kind_id)
  then have "map (\<lambda>b. b\<lparr>bins := map (\<lambda>i. i\<lparr>ikind := subst_kind (InsRef n) v (ikind i)\<rparr>) (bins b)\<rparr>) (fblocks F) = fblocks F"
    by (intro map_idI) simp
  then show ?thesis by (simp add: rauw_def map_ins_def map_blocks_def)
qed

text \<open>Definitions and users only read identities and kinds.\<close>

lemma kinds_rel:
  "skeleton f' = skeleton f \<Longrightarrow>
   list_all2 (\<lambda>i i'. iid i' = iid i \<and> ikind i' = ikind i) (func_ins f) (func_ins f')"
  using skeleton_func_ins [of f' f]
  by (auto simp: list_eq_iff_nth_eq list_all2_conv_all_nth)

lemma def_of_skeleton: "skeleton f' = skeleton f \<Longrightarrow> def_of f' v = def_of f v"
proof -
  assume "skeleton f' = skeleton f"
  then have "list_all2 (\<lambda>i i'. iid i' = iid i \<and> ikind i' = ikind i) (func_ins f) (func_ins f')"
    by (rule kinds_rel)
  then have "map_option ikind (find_ins f' n) = map_option ikind (find_ins f n)" for n
    unfolding find_ins_def by (induction rule: list_all2_induct) auto
  then show ?thesis by (simp add: def_of_def split: val.split)
qed

lemma users_skeleton:
  assumes "skeleton f' = skeleton f"
  shows "list_ex (\<lambda>u. P (ikind u)) (users f' v) = list_ex (\<lambda>u. P (ikind u)) (users f v)"
proof -
  have "list_all2 (\<lambda>i i'. iid i' = iid i \<and> ikind i' = ikind i) (func_ins f) (func_ins f')"
    by (rule kinds_rel [OF assms])
  then show ?thesis unfolding users_def by (induction rule: list_all2_induct) auto
qed

section \<open>Lifting a per-block step to a function\<close>

text \<open>
  The passes walk the blocks in order and report whether any of them changed. \<open>each_block\<close> runs
  a step that may fail on every block and collects the flags.
\<close>

definition each_block :: "(bblock \<Rightarrow> (bblock \<times> bool) res) \<Rightarrow> func \<Rightarrow> (func \<times> bool) res" where
  "each_block g f = rbind (rmap g (fblocks f)) (\<lambda>rs.
     Inr (f\<lparr>fblocks := map fst rs\<rparr>, list_ex snd rs))"

lemma each_block_Inr:
  assumes "each_block g f = Inr (f', ch)"
  obtains rs where "rmap g (fblocks f) = Inr rs" "fblocks f' = map fst rs" "ch = list_ex snd rs"
    "f' = f\<lparr>fblocks := map fst rs\<rparr>"
  using assms unfolding each_block_def rbind_eq_Inr by auto

lemma each_block_rel:
  assumes "each_block g f = Inr (f', ch)"
    and "\<And>b b' c. b \<in> set (fblocks f) \<Longrightarrow> g b = Inr (b', c) \<Longrightarrow> R b b'"
  shows "list_all2 R (fblocks f) (fblocks f')"
proof -
  obtain rs where rs: "rmap g (fblocks f) = Inr rs" "fblocks f' = map fst rs"
    using each_block_Inr [OF assms(1)] by metis
  show ?thesis
  proof (rule list_all2_all_nthI)
    show "length (fblocks f) = length (fblocks f')" using rmap_length [OF rs(1)] rs(2) by simp
  next
    fix n
    assume n: "n < length (fblocks f)"
    then have "g (fblocks f ! n) = Inr (rs ! n)" by (rule rmap_nth [OF rs(1)])
    then have "R (fblocks f ! n) (fst (rs ! n))"
      using assms(2) n by (metis nth_mem prod.collapse)
    then show "R (fblocks f ! n) (fblocks f' ! n)"
      using n rs(2) rmap_length [OF rs(1)] by simp
  qed
qed

lemma skeletonI:
  assumes "list_all2 (\<lambda>b b'. bid b' = bid b
      \<and> map (\<lambda>i. (iid i, ikind i)) (bins b') = map (\<lambda>i. (iid i, ikind i)) (bins b))
      (fblocks f) (fblocks f')"
  shows "skeleton f' = skeleton f"
  unfolding skeleton_def
  using assms by (auto simp: list_eq_iff_nth_eq list_all2_conv_all_nth)

lemma kept_viewI:
  assumes "list_all2 (\<lambda>b b'. list_all2 (\<lambda>i i'. \<forall>k \<in> kept_kinds. get_md i' k = get_md i k)
      (bins b) (bins b')) (fblocks f) (fblocks f')"
  shows "kept_view f' = kept_view f"
proof -
  have "list_all2 (\<lambda>i i'. \<forall>k \<in> kept_kinds. get_md i' k = get_md i k) (func_ins f) (func_ins f')"
    unfolding func_ins_def using assms
    by (induction rule: list_all2_induct) (auto intro: list_all2_appendI)
  then show ?thesis
    unfolding kept_view_def by (induction rule: list_all2_induct) (auto simp: fun_eq_iff)
qed

text \<open>A block step that only annotates, and the contract of a pass built from such steps.\<close>

definition annotates :: "(bblock \<Rightarrow> (bblock \<times> bool) res) \<Rightarrow> bool" where
  "annotates g \<longleftrightarrow> (\<forall>b b' m. g b = Inr (b', m) \<longrightarrow>
     bid b' = bid b \<and>
     list_all2 (\<lambda>i i'. iid i' = iid i \<and> ikind i' = ikind i \<and>
        (\<forall>k \<in> kept_kinds. get_md i' k = get_md i k)) (bins b) (bins b') \<and>
     (\<not> m \<longrightarrow> b' = b))"

lemma list_all2_map_eq: "list_all2 (\<lambda>x y. h y = h x) xs ys \<Longrightarrow> map h ys = map h xs"
  by (induction rule: list_all2_induct) simp_all

lemma annotatesD:
  assumes "annotates g" and "g b = Inr (b', m)"
  shows "bid b' = bid b"
    and "map (\<lambda>i. (iid i, ikind i)) (bins b') = map (\<lambda>i. (iid i, ikind i)) (bins b)"
    and "list_all2 (\<lambda>i i'. \<forall>k \<in> kept_kinds. get_md i' k = get_md i k) (bins b) (bins b')"
    and "\<not> m \<Longrightarrow> b' = b"
proof -
  from assms have l: "list_all2 (\<lambda>i i'. iid i' = iid i \<and> ikind i' = ikind i \<and>
        (\<forall>k \<in> kept_kinds. get_md i' k = get_md i k)) (bins b) (bins b')"
    and "bid b' = bid b" and "\<not> m \<longrightarrow> b' = b"
    unfolding annotates_def by auto
  then show "bid b' = bid b" and "\<not> m \<Longrightarrow> b' = b" by simp_all
  show "map (\<lambda>i. (iid i, ikind i)) (bins b') = map (\<lambda>i. (iid i, ikind i)) (bins b)"
    by (rule list_all2_map_eq) (use l in \<open>auto elim: list_all2_mono\<close>)
  show "list_all2 (\<lambda>i i'. \<forall>k \<in> kept_kinds. get_md i' k = get_md i k) (bins b) (bins b')"
    using l by (auto elim: list_all2_mono)
qed

lemma annotating_passI:
  assumes "\<And>f f' ch. run f = Inr (f', ch) \<Longrightarrow> \<exists>g. annotates g \<and> each_block g f = Inr (f', ch)"
  shows "annotating_pass run"
proof
  fix f f' ch
  assume r: "run f = Inr (f', ch)"
  then obtain g where g: "annotates g" "each_block g f = Inr (f', ch)" using assms by blast
  show "skeleton f' = skeleton f"
    by (rule skeletonI, rule each_block_rel [OF g(2)]) (auto dest: annotatesD [OF g(1)])
  show "kept_view f' = kept_view f"
    by (rule kept_viewI, rule each_block_rel [OF g(2)]) (rule annotatesD(3) [OF g(1)])
next
  fix f f'
  assume r: "run f = Inr (f', False)"
  then obtain g where g: "annotates g" "each_block g f = Inr (f', False)" using assms by blast
  obtain rs where rs: "rmap g (fblocks f) = Inr rs" "\<not> list_ex snd rs"
      "f' = f\<lparr>fblocks := map fst rs\<rparr>"
    using each_block_Inr [OF g(2)] by metis
  have "map fst rs = fblocks f"
  proof (rule nth_equalityI)
    show "length (map fst rs) = length (fblocks f)" using rmap_length [OF rs(1)] by simp
  next
    fix n assume n: "n < length (map fst rs)"
    then have "g (fblocks f ! n) = Inr (rs ! n)"
      using rmap_length [OF rs(1)] by (simp add: rmap_nth [OF rs(1)])
    moreover have "\<not> snd (rs ! n)" using rs(2) n by (auto simp: list_ex_iff)
    ultimately have "g (fblocks f ! n) = Inr (fst (rs ! n), False)"
      by (cases "rs ! n") simp
    then have "fst (rs ! n) = fblocks f ! n" by (rule annotatesD(4) [OF g(1)]) simp
    with n show "map fst rs ! n = fblocks f ! n" by simp
  qed
  with rs(3) show "f' = f" by simp
qed

section \<open>The bounds metadata of a block\<close>

text \<open>What \<open>SaveTranslatedBBs::annotateNewFunction\<close> puts on the instructions of a basic block.\<close>

definition block_md :: "u64 \<Rightarrow> u64 \<Rightarrow> string \<rightharpoonup> mdnode" where
  "block_md s e = [''BB_pcStart'' \<mapsto> hex_node s, ''BB_pcEnd'' \<mapsto> hex_node e]"

lemma block_md_bounds:
  assumes "fblocks F = b # bs" and "bins b = i # is" and "imeta i = block_md s e"
    and "unat s < 2 ^ 63" and "unat e < 2 ^ 63"
  shows "getPCStartOfFunc F = Inr s" and "getPCEndOfFunc F = Inr e"
  using assms getHex_hex_node [of i _ s] getHex_hex_node [of i _ e]
  by (simp_all add: getPCStartOfFunc_def getPCEndOfFunc_def getHexMetadataFromFunc_def
      entry_block_def front_ins_def get_md_def block_md_def)

end
