(* ===== verification/ARM_Mark.thy ===== *)
theory ARM_Mark
  imports Pass_Kit
begin

unbundle bit_operations_syntax

text \<open>
  The three passes that classify every store to the \<open>PC\<close> global on ARM, in pipeline order:
  \<open>ARMMarkCall\<close>, \<open>ARMMarkReturn\<close>, \<open>ARMMarkJumps\<close>. Each annotates store instructions with
  metadata. \<open>pc_class\<close> and \<open>classify\<close> are the abstract specification: one class per store,
  decided by the stored value and the last constant written to \<open>LR\<close> before it in its block. The
  main theorem says the three passes in sequence implement that specification.
\<close>

section \<open>ARMMarkCall\<close>

text \<open>
  The body of the inner loop over one block, with \<open>hasLRStore\<close> and \<open>lrVal\<close> as its state. A store to \<open>PC\<close>
  after a constant store to \<open>LR\<close> of the end of the block (or of the end plus the thumb bit) is a
  call: direct when the stored value is constant, indirect otherwise.
\<close>

definition mark_call_body :: "u64 \<Rightarrow> bool \<times> u64 \<Rightarrow> instr \<Rightarrow> (instr \<times> bool) \<times> (bool \<times> u64)" where
  "mark_call_body pcEnd st i = (case st of (hasLRStore, lrVal) \<Rightarrow>
    (case global_store (ikind i) of
       None \<Rightarrow> ((i, False), st)
     | Some (g, val) \<Rightarrow>
         if g = ''PC'' then
           if hasLRStore then
             if pcEnd = lrVal \<or> pcEnd = lrVal - 1 then
               (case const_int val of
                  Some c \<Rightarrow> ((set_md (set_md i ''INS_directCall'' (hex_node c))
                                ''INS_callReturn'' (hex_node (lrVal AND - 2)), True), st)
                | None \<Rightarrow> ((set_md (set_md i ''INS_indirectCall'' (hex_node 0xdeadbeef))
                                ''INS_callReturn'' (hex_node (lrVal AND - 2)), True), st))
             else ((i, False), st)
           else ((i, False), st)
         else if g = ''LR'' then
           (case const_int val of
              Some c \<Rightarrow> ((i, False), (True, c))
            | None \<Rightarrow> ((i, False), st))
         else ((i, False), st)))"

definition mark_call_block :: "u64 \<Rightarrow> bblock \<Rightarrow> bblock \<times> bool" where
  "mark_call_block pcEnd b =
     (let rs = fst (scan (mark_call_body pcEnd) (False, 0) (bins b)) in
      (b\<lparr>bins := map fst rs\<rparr>, list_ex snd rs))"

definition arm_mark_call :: "func \<Rightarrow> (func \<times> bool) res" where
  "arm_mark_call F =
     rbind (getPCStartOfFunc F) (\<lambda>pcStart.
     rbind (getPCEndOfFunc F) (\<lambda>pcEnd.
       each_block (\<lambda>b. Inr (mark_call_block pcEnd b)) F))"

section \<open>ARMMarkReturn\<close>

text \<open>
  \<open>usesLR\<close>: the stored value is \<open>LR & cst\<close>, or an \<open>and\<close> of a call result that is also stored to
  \<open>LR\<close> (the \<open>pop {lr}; bx lr\<close> case). The second case is tried only when the first does not have
  the shape of a load and a constant.
\<close>

definition stores_LR :: "ikind \<Rightarrow> bool" where
  "stores_LR k = (case k of Store v p \<Rightarrow> p = GlobalVar ''LR'' | _ \<Rightarrow> False)"

definition usesLR :: "func \<Rightarrow> val \<Rightarrow> bool" where
  "usesLR F val = (case def_of F val of
      Some (BinOp oper v0 v1) \<Rightarrow>
        if oper = AndOp then
          (case (def_of F v0, const_int v1) of
             (Some (Load p), Some cst) \<Rightarrow> p = GlobalVar ''LR''
           | (Some (Call c xs), _) \<Rightarrow>
               list_ex (\<lambda>u. stores_LR (ikind u)) (users F v0)
           | _ \<Rightarrow> False)
        else False
    | _ \<Rightarrow> False)"

definition mark_return_ins :: "func \<Rightarrow> instr \<Rightarrow> (instr \<times> bool) res" where
  "mark_return_ins F i = (case store_to ''PC'' i of
      None \<Rightarrow> Inr (i, False)
    | Some val \<Rightarrow>
        if const_int val = None \<and> usesLR F val then
          rbind (require (\<not> has_md i ''INS_directCall'') (AssertFailed ''!INS_directCall'')) (\<lambda>_.
          rbind (require (\<not> has_md i ''INS_indirectCall'') (AssertFailed ''!INS_indirectCall'')) (\<lambda>_.
            Inr (set_md i ''INS_return'' true_node, True)))
        else Inr (i, False))"

text \<open>Each marked store prepends \<open>func_return_bb_\<close> to the name of its block.\<close>

definition mark_return_block :: "func \<Rightarrow> bblock \<Rightarrow> (bblock \<times> bool) res" where
  "mark_return_block F b = rbind (rmap (mark_return_ins F) (bins b)) (\<lambda>rs.
     let k = length (filter snd rs) in
     Inr (b\<lparr>bins := map fst rs,
            bname := concat (replicate k ''func_return_bb_'') @ bname b\<rparr>, 0 < k))"

definition arm_mark_return :: "func \<Rightarrow> (func \<times> bool) res" where
  "arm_mark_return F =
     rbind (getPCStartOfFunc F) (\<lambda>pcStart.
     rbind (getPCEndOfFunc F) (\<lambda>pcEnd.
       each_block (mark_return_block F) F))"

section \<open>ARMMarkJumps\<close>

definition mark_jump_ins :: "instr \<Rightarrow> instr \<times> bool" where
  "mark_jump_ins i = (case store_to ''PC'' i of
      None \<Rightarrow> (i, False)
    | Some val \<Rightarrow>
        if has_md i ''INS_directCall'' \<or> has_md i ''INS_indirectCall'' \<or> has_md i ''INS_return''
        then (i, False)
        else (case const_int val of
            Some c \<Rightarrow> (set_md i ''INS_directJump'' (hex_node c), True)
          | None \<Rightarrow> (set_md i ''INS_indirectJump'' (hex_node 0xdeadbeef), True)))"

definition mark_jump_block :: "bblock \<Rightarrow> bblock \<times> bool" where
  "mark_jump_block b = (let rs = map mark_jump_ins (bins b) in
     (b\<lparr>bins := map fst rs\<rparr>, list_ex snd rs))"

definition arm_mark_jumps :: "func \<Rightarrow> (func \<times> bool) res" where
  "arm_mark_jumps F = each_block (\<lambda>b. Inr (mark_jump_block b)) F"

section \<open>The abstract specification\<close>

datatype pc_class =
    DirectCall u64 u64
  | IndirectCall u64
  | FuncReturn
  | DirectJump u64
  | IndirectJump

text \<open>\<open>lr\<close> is the last constant stored to \<open>LR\<close> earlier in the block, if any.\<close>

definition is_call_lr :: "u64 \<Rightarrow> u64 option \<Rightarrow> bool" where
  "is_call_lr pcEnd lr = (case lr of None \<Rightarrow> False | Some l \<Rightarrow> l = pcEnd \<or> l = pcEnd + 1)"

definition classify :: "u64 \<Rightarrow> func \<Rightarrow> u64 option \<Rightarrow> val \<Rightarrow> pc_class" where
  "classify pcEnd F lr v =
     (if is_call_lr pcEnd lr then
        (case const_int v of Some c \<Rightarrow> DirectCall c (the lr AND - 2) | None \<Rightarrow> IndirectCall (the lr AND - 2))
      else (case const_int v of
          Some c \<Rightarrow> DirectJump c
        | None \<Rightarrow> if usesLR F v then FuncReturn else IndirectJump))"

fun last_lr :: "u64 option \<Rightarrow> instr list \<Rightarrow> u64 option" where
  "last_lr lr [] = lr"
| "last_lr lr (i # is) = (case store_to ''LR'' i of
      None \<Rightarrow> last_lr lr is
    | Some v \<Rightarrow> (case const_int v of None \<Rightarrow> last_lr lr is | Some c \<Rightarrow> last_lr (Some c) is))"

text \<open>The metadata that represents a class.\<close>

fun class_meta :: "pc_class \<Rightarrow> string \<rightharpoonup> mdnode" where
  "class_meta (DirectCall t r) = [''INS_directCall'' \<mapsto> hex_node t, ''INS_callReturn'' \<mapsto> hex_node r]"
| "class_meta (IndirectCall r) =
     [''INS_indirectCall'' \<mapsto> hex_node 0xdeadbeef, ''INS_callReturn'' \<mapsto> hex_node r]"
| "class_meta FuncReturn = [''INS_return'' \<mapsto> true_node]"
| "class_meta (DirectJump t) = [''INS_directJump'' \<mapsto> hex_node t]"
| "class_meta IndirectJump = [''INS_indirectJump'' \<mapsto> hex_node 0xdeadbeef]"

definition marked_as :: "pc_class option \<Rightarrow> instr \<Rightarrow> bool" where
  "marked_as c i \<longleftrightarrow> (\<forall>k \<in> set mark_kinds.
     get_md i k = (case c of None \<Rightarrow> None | Some cl \<Rightarrow> class_meta cl k))"

abbreviation unmarked :: "instr \<Rightarrow> bool" where
  "unmarked \<equiv> marked_as None"

text \<open>The class of the \<open>n\<close>-th instruction of a block, when it stores to \<open>PC\<close>.\<close>

definition block_class :: "u64 \<Rightarrow> func \<Rightarrow> instr list \<Rightarrow> nat \<Rightarrow> pc_class option" where
  "block_class pcEnd F is n =
     map_option (classify pcEnd F (last_lr None (take n is))) (store_to ''PC'' (is ! n))"

text \<open>The part of the pipeline between \<open>-replaceconstantloads\<close> and \<open>-markfuncentry\<close>.\<close>

definition arm_mark_all :: "func \<Rightarrow> func res" where
  "arm_mark_all F =
     rbind (arm_mark_call F) (\<lambda>(F1, _).
     rbind (arm_mark_return F1) (\<lambda>(F2, _).
     rbind (arm_mark_jumps F2) (\<lambda>(F3, _). Inr F3)))"

section \<open>The passes annotate only\<close>

lemmas mark_kind_simps = marked_as_def mark_kinds_def get_md_def has_md_def

lemma mark_call_body_frame:
  fixes st :: "bool \<times> u64" and e :: u64 and i :: instr
  defines "r \<equiv> mark_call_body e st i"
  shows "iid (fst (fst r)) = iid i" and "ikind (fst (fst r)) = ikind i"
    and "\<not> snd (fst r) \<Longrightarrow> fst (fst r) = i"
    and "k \<noteq> ''INS_directCall'' \<Longrightarrow> k \<noteq> ''INS_indirectCall'' \<Longrightarrow> k \<noteq> ''INS_callReturn''
       \<Longrightarrow> get_md (fst (fst r)) k = get_md i k"
  unfolding r_def mark_call_body_def
  by (auto split: option.splits prod.splits if_splits)

lemma mark_call_block_frame:
  "bid (fst (mark_call_block e b)) = bid b"
  "bname (fst (mark_call_block e b)) = bname b"
  "\<not> snd (mark_call_block e b) \<Longrightarrow> fst (mark_call_block e b) = b"
proof -
  let ?rs = "fst (scan (mark_call_body e) (False, 0) (bins b))"
  show "bid (fst (mark_call_block e b)) = bid b" "bname (fst (mark_call_block e b)) = bname b"
    by (simp_all add: mark_call_block_def Let_def)
  assume "\<not> snd (mark_call_block e b)"
  then have "\<not> snd (?rs ! n)" if "n < length (bins b)" for n
    using that by (auto simp: mark_call_block_def Let_def list_ex_iff)
  then have "map fst ?rs = bins b"
    by (intro nth_equalityI) (auto simp: scan_nth mark_call_body_frame(3))
  then show "fst (mark_call_block e b) = b"
    by (simp add: mark_call_block_def Let_def)
qed

lemma mark_return_ins_frame:
  assumes "mark_return_ins F i = Inr (i', m)"
  shows "iid i' = iid i" "ikind i' = ikind i" "\<not> m \<Longrightarrow> i' = i"
    "k \<noteq> ''INS_return'' \<Longrightarrow> get_md i' k = get_md i k"
  using assms unfolding mark_return_ins_def
  by (auto simp: rbind_eq_Inr split: option.splits if_splits)

lemma mark_jump_ins_frame:
  "iid (fst (mark_jump_ins i)) = iid i" "ikind (fst (mark_jump_ins i)) = ikind i"
  "\<not> snd (mark_jump_ins i) \<Longrightarrow> fst (mark_jump_ins i) = i"
  "k \<noteq> ''INS_directJump'' \<Longrightarrow> k \<noteq> ''INS_indirectJump''
     \<Longrightarrow> get_md (fst (mark_jump_ins i)) k = get_md i k"
  unfolding mark_jump_ins_def by (auto split: option.splits if_splits)

lemma annotates_call: "annotates (\<lambda>b. Inr (mark_call_block e b))"
proof -
  have "list_all2 (\<lambda>i r. iid (fst r) = iid i \<and> ikind (fst r) = ikind i \<and>
      (\<forall>k \<in> kept_kinds. get_md (fst r) k = get_md i k))
      (bins b) (fst (scan (mark_call_body e) (False, 0) (bins b)))" for b :: bblock
    by (rule scan_rel) (auto simp: mark_call_body_frame kept_kinds_def mark_kinds_def)
  then show ?thesis
    unfolding annotates_def mark_call_block_def Let_def
    using mark_call_block_frame(3) by (auto simp: list_all2_map2 mark_call_block_def Let_def)
qed

lemma annotates_return: "annotates (mark_return_block F)"
proof -
  have step: "list_all2 (\<lambda>i r. iid (fst r) = iid i \<and> ikind (fst r) = ikind i \<and>
      (\<not> snd r \<longrightarrow> fst r = i) \<and> (\<forall>k \<in> kept_kinds. get_md (fst r) k = get_md i k)) is rs"
    if "rmap (mark_return_ins F) is = Inr rs" for "is" rs
  proof (rule list_all2_all_nthI)
    show "length is = length rs" using rmap_length [OF that] by simp
  next
    fix n assume "n < length is"
    with that have "mark_return_ins F (is ! n) = Inr (fst (rs ! n), snd (rs ! n))"
      by (simp add: rmap_nth)
    from mark_return_ins_frame [OF this]
    show "iid (fst (rs ! n)) = iid (is ! n) \<and> ikind (fst (rs ! n)) = ikind (is ! n) \<and>
      (\<not> snd (rs ! n) \<longrightarrow> fst (rs ! n) = is ! n) \<and>
      (\<forall>k \<in> kept_kinds. get_md (fst (rs ! n)) k = get_md (is ! n) k)"
      by (auto simp: kept_kinds_def mark_kinds_def)
  qed
  show ?thesis
    unfolding annotates_def
  proof (intro allI impI)
    fix b b' m
    assume "mark_return_block F b = Inr (b', m)"
    then obtain rs where rs: "rmap (mark_return_ins F) (bins b) = Inr rs"
      and b': "b' = b\<lparr>bins := map fst rs, bname :=
          concat (replicate (length (filter snd rs)) ''func_return_bb_'') @ bname b\<rparr>"
      and m: "m = (0 < length (filter snd rs))"
      by (auto simp: mark_return_block_def rbind_eq_Inr Let_def)
    have "map fst rs = bins b" if "filter snd rs = []"
    proof (rule nth_equalityI)
      show "length (map fst rs) = length (bins b)" using rmap_length [OF rs] by simp
    next
      fix n assume n: "n < length (map fst rs)"
      then have "\<not> snd (rs ! n)" using that by (auto simp: filter_empty_conv)
      with n show "map fst rs ! n = bins b ! n"
        using step [OF rs] by (simp add: list_all2_conv_all_nth)
    qed
    moreover have "list_all2 (\<lambda>i r. iid (fst r) = iid i \<and> ikind (fst r) = ikind i \<and>
        (\<forall>k \<in> kept_kinds. get_md (fst r) k = get_md i k)) (bins b) rs"
      by (rule list_all2_mono [OF step [OF rs]]) auto
    ultimately show "bid b' = bid b \<and>
       list_all2 (\<lambda>i i'. iid i' = iid i \<and> ikind i' = ikind i \<and>
          (\<forall>k \<in> kept_kinds. get_md i' k = get_md i k)) (bins b) (bins b') \<and> (\<not> m \<longrightarrow> b' = b)"
      using b' m by (auto simp: list_all2_map2)
  qed
qed

lemma annotates_jumps: "annotates (\<lambda>b. Inr (mark_jump_block b))"
proof -
  have same: "map fst (map mark_jump_ins is) = is" if "\<not> list_ex snd (map mark_jump_ins is)" for "is"
    using that by (induction "is") (auto simp: mark_jump_ins_frame(3))
  show ?thesis
    unfolding annotates_def mark_jump_block_def Let_def
    using same by (auto simp: list_all2_conv_all_nth mark_jump_ins_frame kept_kinds_def mark_kinds_def)
qed

interpretation mark_call: annotating_pass arm_mark_call
  by (rule annotating_passI) (auto simp: arm_mark_call_def rbind_eq_Inr intro: annotates_call)

interpretation mark_return: annotating_pass arm_mark_return
  by (rule annotating_passI) (auto simp: arm_mark_return_def rbind_eq_Inr intro: annotates_return)

interpretation mark_jumps: annotating_pass arm_mark_jumps
  by (rule annotating_passI) (auto simp: arm_mark_jumps_def intro: annotates_jumps)

section \<open>The three steps, one instruction at a time\<close>

definition lr_state :: "u64 option \<Rightarrow> bool \<times> u64" where
  "lr_state lr = (case lr of None \<Rightarrow> (False, 0) | Some l \<Rightarrow> (True, l))"

definition class_after_call :: "u64 \<Rightarrow> func \<Rightarrow> u64 option \<Rightarrow> instr \<Rightarrow> pc_class option" where
  "class_after_call e F lr i = (case store_to ''PC'' i of None \<Rightarrow> None
     | Some v \<Rightarrow> if is_call_lr e lr then Some (classify e F lr v) else None)"

definition class_after_return :: "u64 \<Rightarrow> func \<Rightarrow> u64 option \<Rightarrow> instr \<Rightarrow> pc_class option" where
  "class_after_return e F lr i = (case store_to ''PC'' i of None \<Rightarrow> None
     | Some v \<Rightarrow> if is_call_lr e lr \<or> (const_int v = None \<and> usesLR F v)
               then Some (classify e F lr v) else None)"

lemma global_store_cases:
  "(case global_store k of None \<Rightarrow> a | Some (g, v) \<Rightarrow> h g v) =
   (case k of Store v (GlobalVar g) \<Rightarrow> h g v | _ \<Rightarrow> a)"
  by (cases k rule: global_store.cases) simp_all

lemma call_pred_eq: "(e :: u64) = l - 1 \<longleftrightarrow> l = e + 1"
  by (metis add_diff_cancel_right' diff_add_cancel)

lemma mark_call_state:
  "snd (scan (mark_call_body e) (lr_state lr) is) = lr_state (last_lr lr is)"
proof (induction "is" arbitrary: lr)
  case Nil
  show ?case by simp
next
  case (Cons i "is")
  have "snd (mark_call_body e (lr_state lr) i) = lr_state (last_lr lr [i])"
    unfolding mark_call_body_def lr_state_def store_to_def last_lr.simps
    by (auto split: option.splits)
  then show ?case
    using Cons.IH by (auto simp: scan_snd_Cons simp del: scan.simps split: option.splits)
qed

lemma call_step:
  assumes "unmarked i"
  shows "marked_as (class_after_call e F lr i) (fst (fst (mark_call_body e (lr_state lr) i)))"
proof (cases "store_to ''PC'' i")
  case None
  then have "fst (fst (mark_call_body e (lr_state lr) i)) = i"
    unfolding mark_call_body_def lr_state_def store_to_def by (auto split: option.splits)
  with assms None show ?thesis by (simp add: class_after_call_def)
next
  case (Some v)
  then have k: "global_store (ikind i) = Some (''PC'', v)" by (simp add: store_to_iff)
  show ?thesis
  proof (cases lr)
    case None
    with k Some assms show ?thesis
      by (simp add: mark_call_body_def lr_state_def class_after_call_def is_call_lr_def)
  next
    case lr: (Some l)
    have "(e = l \<or> e = l - 1) \<longleftrightarrow> is_call_lr e lr"
      by (auto simp: is_call_lr_def lr call_pred_eq)
    with k Some assms lr show ?thesis
      by (cases "const_int v")
         (auto simp: mark_call_body_def lr_state_def class_after_call_def classify_def
           mark_kind_simps)
  qed
qed

lemma return_step:
  assumes "marked_as (class_after_call e F lr i) i" and "mark_return_ins F i = Inr (i', m)"
  shows "marked_as (class_after_return e F lr i) i'"
  using assms unfolding mark_return_ins_def class_after_call_def class_after_return_def
  by (auto simp: rbind_eq_Inr classify_def mark_kind_simps split: option.splits if_splits)

lemma jump_step:
  assumes "marked_as (class_after_return e F lr i) i"
  shows "marked_as (map_option (classify e F lr) (store_to ''PC'' i)) (fst (mark_jump_ins i))"
  using assms unfolding mark_jump_ins_def class_after_return_def
  by (auto simp: classify_def mark_kind_simps split: option.splits if_splits)

lemma usesLR_skeleton: "skeleton F' = skeleton F \<Longrightarrow> usesLR F' v = usesLR F v"
  unfolding usesLR_def
  by (simp only: def_of_skeleton [of F' F] users_skeleton [of F' F stores_LR])

lemma mark_return_ins_skeleton:
  "skeleton F' = skeleton F \<Longrightarrow> mark_return_ins F' i = mark_return_ins F i"
  by (simp only: mark_return_ins_def usesLR_skeleton [of F' F])

section \<open>The three passes on one block\<close>

definition call_ins :: "u64 \<Rightarrow> instr list \<Rightarrow> instr list" where
  "call_ins e is = map fst (fst (scan (mark_call_body e) (False, 0) is))"

lemma call_ins_nth:
  "n < length is \<Longrightarrow>
   call_ins e is ! n = fst (fst (mark_call_body e (lr_state (last_lr None (take n is))) (is ! n)))"
  using mark_call_state [of e None "take n is"]
  by (simp add: call_ins_def scan_nth lr_state_def)

lemma call_ins_length [simp]: "length (call_ins e is) = length is"
  by (simp add: call_ins_def)

lemma bins_mark_call_block: "bins (fst (mark_call_block e b)) = call_ins e (bins b)"
  by (simp add: mark_call_block_def call_ins_def Let_def)

lemma mark_return_block_bins:
  "mark_return_block F b = Inr (b', m) \<Longrightarrow>
   length (bins b') = length (bins b) \<and>
   (\<forall>n < length (bins b). \<exists>m. mark_return_ins F (bins b ! n) = Inr (bins b' ! n, m))"
proof -
  assume "mark_return_block F b = Inr (b', m)"
  then obtain rs where rs: "rmap (mark_return_ins F) (bins b) = Inr rs" "bins b' = map fst rs"
    by (auto simp: mark_return_block_def rbind_eq_Inr Let_def)
  then show ?thesis
    using rmap_length [OF rs(1)] rmap_nth [OF rs(1)] by (simp add: prod_eq_iff)
qed

lemma bins_mark_jump_block: "bins (fst (mark_jump_block b)) = map (fst \<circ> mark_jump_ins) (bins b)"
  by (simp add: mark_jump_block_def Let_def)

lemma each_block_nth:
  "each_block g F = Inr (F', ch) \<Longrightarrow> n < length (fblocks F) \<Longrightarrow>
   length (fblocks F') = length (fblocks F) \<and> (\<exists>m. g (fblocks F ! n) = Inr (fblocks F' ! n, m))"
  by (erule each_block_Inr) (metis length_map nth_map prod.collapse rmap_length rmap_nth)

lemma class_after_return_cong:
  "ikind i = ikind j \<Longrightarrow> class_after_return e F lr i = class_after_return e F lr j"
  by (simp add: class_after_return_def store_to_cong [of i j])

lemma class_after_call_cong:
  "ikind i = ikind j \<Longrightarrow> class_after_call e F lr i = class_after_call e F lr j"
  by (simp add: class_after_call_def store_to_cong [of i j])

lemma mark_steps_one:
  assumes "unmarked i" and "lr = last_lr None (take n is)" and "n < length is" and "i = is ! n"
    and "mark_return_ins F (call_ins e is ! n) = Inr (i2, m)"
  shows "marked_as (block_class e F is n) (fst (mark_jump_ins i2))"
proof -
  let ?i1 = "call_ins e is ! n"
  have k1: "ikind ?i1 = ikind i"
    using assms(3,4) by (simp add: call_ins_nth mark_call_body_frame)
  have k2: "ikind i2 = ikind i" using mark_return_ins_frame(2) [OF assms(5)] k1 by simp
  have "marked_as (class_after_call e F lr ?i1) ?i1"
    using call_step [OF assms(1), of e F lr] assms(2-4) class_after_call_cong [OF k1]
    by (simp add: call_ins_nth)
  then have "marked_as (class_after_return e F lr ?i1) i2"
    by (rule return_step) (rule assms(5))
  then have "marked_as (class_after_return e F lr i2) i2"
    using class_after_return_cong [of ?i1 i2] k1 k2 by simp
  from jump_step [OF this] show ?thesis
    using k2 assms(2,4) by (simp add: block_class_def store_to_cong [of i2 i])
qed

lemma arm_mark_all_Inr:
  assumes "arm_mark_all F = Inr F'"
  obtains e F1 F2 c1 c2 c3 where
    "getPCEndOfFunc F = Inr e"
    "each_block (\<lambda>b. Inr (mark_call_block e b)) F = Inr (F1, c1)"
    "each_block (mark_return_block F1) F1 = Inr (F2, c2)"
    "each_block (\<lambda>b. Inr (mark_jump_block b)) F2 = Inr (F', c3)"
    "skeleton F1 = skeleton F"
  using assms mark_call.keeps_skeleton [of F]
  unfolding arm_mark_all_def arm_mark_jumps_def
  by (auto simp: rbind_eq_Inr arm_mark_call_def arm_mark_return_def split: prod.splits)

lemma mem_func_ins: "b < length (fblocks F) \<Longrightarrow> n < length (bins (fblocks F ! b)) \<Longrightarrow>
    bins (fblocks F ! b) ! n \<in> set (func_ins F)"
  unfolding func_ins_def by (metis UN_I nth_map nth_mem set_concat length_map list.set_map)

lemma return_total_step:
  assumes "marked_as (class_after_call e F lr i) i"
  shows "(\<exists>r. mark_return_ins F i = Inr r) \<longleftrightarrow>
    \<not> (\<exists>v. store_to ''PC'' i = Some v \<and> is_call_lr e lr \<and> const_int v = None \<and> usesLR F v)"
  using assms unfolding mark_return_ins_def class_after_call_def
  by (auto simp: rbind_eq_Inr classify_def mark_kind_simps split: option.splits if_splits)

lemma return_total:
  assumes "n < length is" and "unmarked (is ! n)"
  shows "(\<exists>r. mark_return_ins F (call_ins e is ! n) = Inr r) \<longleftrightarrow>
    \<not> (\<exists>v. store_to ''PC'' (is ! n) = Some v \<and> is_call_lr e (last_lr None (take n is))
        \<and> const_int v = None \<and> usesLR F v)"
proof -
  let ?lr = "last_lr None (take n is)" and ?i1 = "call_ins e is ! n"
  have k: "ikind ?i1 = ikind (is ! n)"
    using assms(1) by (simp add: call_ins_nth mark_call_body_frame)
  have "marked_as (class_after_call e F ?lr ?i1) ?i1"
    using call_step [OF assms(2), of e F ?lr] class_after_call_cong [OF k] assms(1)
    by (simp add: call_ins_nth)
  from return_total_step [OF this] show ?thesis by (simp add: store_to_cong [OF k])
qed

lemma arm_mark_classified:
  assumes "arm_mark_all F = Inr F'" and "getPCEndOfFunc F = Inr pcEnd"
    and "\<forall>i \<in> set (func_ins F). unmarked i"
    and "b < length (fblocks F)" and "n < length (bins (fblocks F ! b))"
  shows "marked_as (block_class pcEnd F (bins (fblocks F ! b)) n) (bins (fblocks F' ! b) ! n)"
proof -
  obtain F1 F2 c1 c2 c3 where
    c: "each_block (\<lambda>b. Inr (mark_call_block pcEnd b)) F = Inr (F1, c1)" and
    r: "each_block (mark_return_block F1) F1 = Inr (F2, c2)" and
    j: "each_block (\<lambda>b. Inr (mark_jump_block b)) F2 = Inr (F', c3)" and
    sk: "skeleton F1 = skeleton F"
    using arm_mark_all_Inr [OF assms(1)] assms(2) by (metis sum.inject(2))
  let ?B = "fblocks F ! b" and ?B1 = "fblocks F1 ! b" and ?B2 = "fblocks F2 ! b"
  have b1: "length (fblocks F1) = length (fblocks F)" "bins ?B1 = call_ins pcEnd (bins ?B)"
    using each_block_nth [OF c assms(4)] bins_mark_call_block [of pcEnd ?B] by auto
  obtain m where m: "mark_return_block F1 ?B1 = Inr (?B2, m)" "length (fblocks F2) = length (fblocks F)"
    using each_block_nth [OF r, of b] b1 assms(4) by auto
  obtain m' where m': "mark_return_ins F1 (bins ?B1 ! n) = Inr (bins ?B2 ! n, m')"
    using mark_return_block_bins [OF m(1)] b1 assms(5) by auto
  have len2: "length (bins ?B2) = length (bins ?B)"
    using mark_return_block_bins [OF m(1)] b1 by simp
  have "bins (fblocks F' ! b) = map (fst \<circ> mark_jump_ins) (bins ?B2)"
    using each_block_nth [OF j, of b] m(2) assms(4) bins_mark_jump_block [of ?B2] by auto
  moreover have "marked_as (block_class pcEnd F (bins ?B) n) (fst (mark_jump_ins (bins ?B2 ! n)))"
    using assms(3) m' b1 mem_func_ins [OF assms(4,5)]
    by (intro mark_steps_one [OF _ refl assms(5) refl]) (auto simp: mark_return_ins_skeleton [OF sk])
  ultimately show ?thesis using assms(5) len2 by simp
qed

lemma arm_mark_total:
  assumes "getPCStartOfFunc F = Inr pcStart" and "getPCEndOfFunc F = Inr pcEnd"
    and "\<forall>i \<in> set (func_ins F). unmarked i"
  shows "(\<exists>F'. arm_mark_all F = Inr F') \<longleftrightarrow>
    \<not> (\<exists>B \<in> set (fblocks F). \<exists>n < length (bins B). \<exists>v.
        store_to ''PC'' (bins B ! n) = Some v \<and> is_call_lr pcEnd (last_lr None (take n (bins B)))
        \<and> const_int v = None \<and> usesLR F v)"
proof -
  obtain F1 c1 where c: "each_block (\<lambda>b. Inr (mark_call_block pcEnd b)) F = Inr (F1, c1)"
    by (simp add: each_block_def rmap_Inr [where h = "mark_call_block pcEnd"])
  then have c': "arm_mark_call F = Inr (F1, c1)" by (simp add: arm_mark_call_def assms)
  have sk: "skeleton F1 = skeleton F" by (rule mark_call.keeps_skeleton [OF c'])
  have bl: "fblocks F1 = map (\<lambda>b. fst (mark_call_block pcEnd b)) (fblocks F)"
    using c by (auto elim!: each_block_Inr simp: rmap_Inr [where h = "mark_call_block pcEnd"])
  have bounds: "getPCStartOfFunc F1 = Inr pcStart" "getPCEndOfFunc F1 = Inr pcEnd"
    using kept_view_first [OF sk mark_call.keeps_view [OF c']] assms(1,2)
      by (simp_all add: getPCStartOfFunc_def getPCEndOfFunc_def kept_kinds_def mark_kinds_def)
  have "(\<exists>F'. arm_mark_all F = Inr F') \<longleftrightarrow>
      (\<forall>b \<in> set (fblocks F1). \<exists>r. mark_return_block F1 b = Inr r)"
    unfolding rmap_total_iff [symmetric]
    by (auto simp: arm_mark_all_def c' arm_mark_return_def arm_mark_jumps_def each_block_def bounds
        rbind_eq_Inr rmap_Inr [where h = mark_jump_block])
  also have "\<dots> \<longleftrightarrow> (\<forall>B \<in> set (fblocks F). \<forall>n < length (bins B).
      \<exists>r. mark_return_ins F (call_ins pcEnd (bins B) ! n) = Inr r)"
    by (simp add: bl mark_return_block_def Let_def rbind_eq_Inr bins_mark_call_block
        rmap_total_iff all_set_conv_all_nth mark_return_ins_skeleton [OF sk] flip: ex_simps)
  also have "\<dots> \<longleftrightarrow> (\<forall>B \<in> set (fblocks F). \<forall>n < length (bins B).
      \<not> (\<exists>v. store_to ''PC'' (bins B ! n) = Some v \<and> is_call_lr pcEnd (last_lr None (take n (bins B)))
        \<and> const_int v = None \<and> usesLR F v))"
  proof -
    have "(\<exists>r. mark_return_ins F (call_ins pcEnd (bins B) ! n) = Inr r) \<longleftrightarrow>
      \<not> (\<exists>v. store_to ''PC'' (bins B ! n) = Some v \<and> is_call_lr pcEnd (last_lr None (take n (bins B)))
        \<and> const_int v = None \<and> usesLR F v)" if "B \<in> set (fblocks F)" "n < length (bins B)" for B n
      using that assms(3) by (intro return_total) (auto simp: func_ins_def)
    then show ?thesis by meson
  qed
  finally show ?thesis by blast
qed

section \<open>Properties\<close>

text \<open>
  C3. The three ARM marking passes in pipeline order implement the abstract classification: when
  they run through on a function without earlier marks, the mark metadata of every instruction is
  exactly that of its class (none for an instruction that does not store to \<open>PC\<close>), the class
  being decided by the stored value, the last constant stored to \<open>LR\<close> before it in the block, and
  the end of the basic block.
\<close>

theorem arm_mark_refines_classify:
  assumes "arm_mark_all F = Inr F'" and "getPCEndOfFunc F = Inr pcEnd"
    and "\<forall>i \<in> set (func_ins F). unmarked i"
    and "b < length (fblocks F)" and "n < length (bins (fblocks F ! b))"
  shows "marked_as (block_class pcEnd F (bins (fblocks F ! b)) n) (bins (fblocks F' ! b) ! n)"
  using assms by (rule arm_mark_classified)

text \<open>A function with a direct call that returns to the end of its block.\<close>

definition sample_call_func :: func where
  "sample_call_func = \<lparr>fid = 1, fname = ''void-tcg-llvm-tb-0'', fblocks =
     [\<lparr>bid = 1, bname = ''entry'', bins =
        [\<lparr>iid = 1, ikind = Store (ConstInt 32 9) (GlobalVar ''LR''), imeta = block_md 0 8\<rparr>,
         \<lparr>iid = 2, ikind = Store (ConstInt 32 256) (GlobalVar ''PC''), imeta = block_md 0 8\<rparr>,
         \<lparr>iid = 3, ikind = Ret None, imeta = block_md 0 8\<rparr>]\<rparr>]\<rparr>"

lemmas sample_defs = sample_call_func_def block_md_def

lemma sample_bounds:
  "getPCStartOfFunc sample_call_func = Inr 0" "getPCEndOfFunc sample_call_func = Inr 8"
  using block_md_bounds [of sample_call_func _ "[]" _ _ 0 8]
  by (simp_all add: sample_call_func_def)

lemma sample_unmarked: "\<forall>i \<in> set (func_ins sample_call_func). unmarked i"
  by (simp add: func_ins_def sample_defs mark_kind_simps)

text \<open>
  C5. The only way the marking passes stop is the assertion of \<open>ARMMarkReturn\<close> that a return is
  not already a call: they run through exactly when no indirect call of a block stores a value that
  \<open>usesLR\<close> recognises.
\<close>

theorem arm_mark_total_iff:
  assumes "getPCStartOfFunc F = Inr pcStart" and "getPCEndOfFunc F = Inr pcEnd"
    and "\<forall>i \<in> set (func_ins F). unmarked i"
  shows "(\<exists>F'. arm_mark_all F = Inr F') \<longleftrightarrow>
    \<not> (\<exists>B \<in> set (fblocks F). \<exists>n < length (bins B). \<exists>v.
        store_to ''PC'' (bins B ! n) = Some v \<and> is_call_lr pcEnd (last_lr None (take n (bins B)))
        \<and> const_int v = None \<and> usesLR F v)"
  using assms by (rule arm_mark_total)

text \<open>The sample runs through, and its store to \<open>PC\<close> is the direct call to 256 that returns to 8.\<close>

theorem arm_mark_total_iff_witness:
  "\<exists>F'. arm_mark_all sample_call_func = Inr F'"
  using arm_mark_total_iff [OF sample_bounds sample_unmarked]
  by (auto simp: sample_defs store_to_def less_Suc_eq numeral_eq_Suc)

lemma sample_runs: "\<exists>F'. arm_mark_all sample_call_func = Inr F'"
  using arm_mark_total [OF sample_bounds sample_unmarked]
  by (auto simp: sample_defs store_to_def less_Suc_eq numeral_eq_Suc)

theorem arm_mark_refines_classify_witness:
  "\<exists>F'. arm_mark_all sample_call_func = Inr F' \<and>
     marked_as (Some (DirectCall 256 8)) (bins (fblocks F' ! 0) ! 1)"
proof -
  obtain F' where F': "arm_mark_all sample_call_func = Inr F'" using sample_runs by blast
  have "block_class 8 sample_call_func (bins (fblocks sample_call_func ! 0)) 1
      = Some (DirectCall 256 8)"
    by (simp add: block_class_def sample_defs store_to_def is_call_lr_def classify_def)
  then show ?thesis
    using arm_mark_refines_classify [OF F' sample_bounds(2) sample_unmarked, of 0 1] F'
    by (auto simp: sample_defs)
qed

end
