(* ===== verification/Store_Passes.thy ===== *)
theory Store_Passes
  imports Pass_Kit
begin

text \<open>
  The passes that remove instructions: \<open>RemoveExtraStoreToPC\<close>, which also tags every instruction
  with the program counter it belongs to, \<open>S2EDeleteInstructionCountPass\<close> and \<open>RemoveBranchTrace\<close>.
  \<open>RemoveExtraStoreToPC\<close> is shown equal to a reference that tags by position and keeps, per exit
  block, the last store; the other two are interpretations of \<open>erasing_pass\<close>.
\<close>

section \<open>RemoveExtraStoreToPC\<close>

text \<open>
  First loop over a block. The state is the current \<open>pcMeta\<close>, \<open>countStoresToPC\<close> and
  \<open>lastStoreToPC\<close>; \<open>pcMeta\<close> outlives the block.
\<close>

definition rm_tag_body :: "mdnode \<times> nat \<times> nat option \<Rightarrow> instr \<Rightarrow> instr \<times> (mdnode \<times> nat \<times> nat option)" where
  "rm_tag_body st i = (case st of (pcMeta, countStoresToPC, lastStoreToPC) \<Rightarrow>
     let i' = set_md i ''INS_currPC'' pcMeta in
     (case store_to ''PC'' i of
        None \<Rightarrow> (i', st)
      | Some v \<Rightarrow> (i', (case const_int v of Some c \<Rightarrow> hex_node c | None \<Rightarrow> pcMeta,
                    Suc countStoresToPC, Some (iid i)))))"

text \<open>Second loop: what one instruction adds to \<open>eraseIns\<close>, with the range assertion.\<close>

definition rm_collect_ins :: "u64 \<Rightarrow> u64 \<Rightarrow> bool \<Rightarrow> nat option \<Rightarrow> instr \<Rightarrow> nat list res" where
  "rm_collect_ins pcStart pcEnd isExitBB lastStoreToPC i = (case store_to ''PC'' i of
      None \<Rightarrow> Inr []
    | Some v \<Rightarrow> (case const_int v of
        None \<Rightarrow> Inr []
      | Some pcValue \<Rightarrow>
          if lastStoreToPC \<noteq> Some (iid i) \<or> \<not> isExitBB then
            rbind (require (pcStart \<le> pcValue \<and> pcValue \<le> pcEnd) (AssertFailed ''pcValue in BB''))
              (\<lambda>_. Inr [iid i])
          else Inr []))"

definition rm_block :: "u64 \<Rightarrow> u64 \<Rightarrow> mdnode \<Rightarrow> bblock \<Rightarrow> (bblock \<times> nat list \<times> mdnode) res" where
  "rm_block pcStart pcEnd pcMeta b = rbind (is_exit b) (\<lambda>isExitBB.
     case scan rm_tag_body (pcMeta, 0, None) (bins b) of
       (is', (pcMeta', countStoresToPC, lastStoreToPC)) \<Rightarrow>
         if countStoresToPC = 0 then Inr (b\<lparr>bins := is'\<rparr>, [], pcMeta')
         else rbind (rmap (rm_collect_ins pcStart pcEnd isExitBB lastStoreToPC) is') (\<lambda>ess.
           Inr (b\<lparr>bins := is'\<rparr>, concat ess, pcMeta')))"

fun rm_blocks :: "u64 \<Rightarrow> u64 \<Rightarrow> mdnode \<Rightarrow> bblock list \<Rightarrow> (bblock list \<times> nat list) res" where
  "rm_blocks pcStart pcEnd pcMeta [] = Inr ([], [])"
| "rm_blocks pcStart pcEnd pcMeta (b # bs) =
     rbind (rm_block pcStart pcEnd pcMeta b) (\<lambda>(b', es, pcMeta').
     rbind (rm_blocks pcStart pcEnd pcMeta' bs) (\<lambda>(bs', es'). Inr (b' # bs', es @ es')))"

definition remove_extra_store_to_pc :: "func \<Rightarrow> (func \<times> bool) res" where
  "remove_extra_store_to_pc F =
     rbind (getPCStartOfFunc F) (\<lambda>pcStart.
     rbind (getPCEndOfFunc F) (\<lambda>pcEnd.
     rbind (rm_blocks pcStart pcEnd (hex_node pcStart) (fblocks F)) (\<lambda>(bs, eraseIns).
     rbind (erase_all eraseIns (F\<lparr>fblocks := bs\<rparr>)) (\<lambda>F'.
       Inr (F', eraseIns \<noteq> [])))))"

section \<open>The reference\<close>

text \<open>The program counter after an instruction, and after a list of them.\<close>

definition pc_step :: "u64 \<Rightarrow> instr \<Rightarrow> u64" where
  "pc_step pc i = (case store_to ''PC'' i of None \<Rightarrow> pc
     | Some v \<Rightarrow> (case const_int v of None \<Rightarrow> pc | Some c \<Rightarrow> c))"

definition pc_track :: "u64 \<Rightarrow> instr list \<Rightarrow> u64" where
  "pc_track = foldl pc_step"

definition tag_at :: "u64 \<Rightarrow> instr list \<Rightarrow> nat \<Rightarrow> instr" where
  "tag_at pc is n = set_md (is ! n) ''INS_currPC'' (hex_node (pc_track pc (take n is)))"

definition last_pc_store :: "instr list \<Rightarrow> nat option" where
  "last_pc_store is = (let js = filter (\<lambda>i. store_to ''PC'' i \<noteq> None) is in
      if js = [] then None else Some (iid (last js)))"

definition block_is_exit :: "bblock \<Rightarrow> bool" where
  "block_is_exit b \<longleftrightarrow> is_exit b = Inr True"

definition const_pc_store :: "instr \<Rightarrow> bool" where
  "const_pc_store i \<longleftrightarrow> (case store_to ''PC'' i of None \<Rightarrow> False | Some v \<Rightarrow> const_int v \<noteq> None)"

definition rm_drops :: "bblock \<Rightarrow> instr \<Rightarrow> bool" where
  "rm_drops b i \<longleftrightarrow> const_pc_store i \<and> (last_pc_store (bins b) \<noteq> Some (iid i) \<or> \<not> block_is_exit b)"

fun rm_reference :: "u64 \<Rightarrow> bblock list \<Rightarrow> bblock list" where
  "rm_reference pc [] = []"
| "rm_reference pc (b # bs) =
     b\<lparr>bins := filter (\<lambda>i. \<not> rm_drops b i) (map (tag_at pc (bins b)) [0..<length (bins b)])\<rparr>
     # rm_reference (pc_track pc (bins b)) bs"

section \<open>Correctness of RemoveExtraStoreToPC\<close>

lemma pc_track_simps [simp]:
  "pc_track pc [] = pc" "pc_track pc (i # is) = pc_track (pc_step pc i) is"
  "pc_track pc (is @ js) = pc_track (pc_track pc is) js"
  by (simp_all add: pc_track_def)

lemma last_pc_store_snoc:
  "last_pc_store (is @ [i]) = (if store_to ''PC'' i = None then last_pc_store is else Some (iid i))"
  by (simp add: last_pc_store_def Let_def)

lemma last_pc_store_Nil [simp]: "last_pc_store [] = None"
  by (simp add: last_pc_store_def)

lemma rm_tag_state:
  "snd (scan rm_tag_body (hex_node pc, 0, None) is) =
     (hex_node (pc_track pc is), length (filter (\<lambda>i. store_to ''PC'' i \<noteq> None) is), last_pc_store is)"
proof (induction "is" rule: rev_induct)
  case Nil
  show ?case by simp
next
  case (snoc i "is")
  then show ?case
    by (cases "store_to ''PC'' i"; cases "const_int (the (store_to ''PC'' i))")
       (simp_all add: scan_append rm_tag_body_def pc_step_def Let_def last_pc_store_snoc split_beta)
qed

lemma rm_tag_ins:
  "fst (scan rm_tag_body (hex_node pc, 0, None) is) = map (tag_at pc is) [0..<length is]"
  by (rule nth_equalityI)
     (auto simp: scan_nth rm_tag_state rm_tag_body_def tag_at_def Let_def split: option.splits)

lemma tag_at_simps [simp]:
  "iid (tag_at pc is n) = iid (is ! n)" "ikind (tag_at pc is n) = ikind (is ! n)"
  by (simp_all add: tag_at_def)

lemma rm_collect_eq:
  "rm_collect_ins s e x l i = Inr es \<Longrightarrow>
   es = (if const_pc_store i \<and> (l \<noteq> Some (iid i) \<or> \<not> x) then [iid i] else [])"
  by (auto simp: rm_collect_ins_def const_pc_store_def rbind_eq_Inr split: option.splits if_splits)

lemma rm_drops_cong: "ikind i = ikind j \<Longrightarrow> iid i = iid j \<Longrightarrow> rm_drops b i = rm_drops b j"
  by (simp add: rm_drops_def const_pc_store_def store_to_cong [of i j])

lemma no_pc_store_no_drop:
  "filter (\<lambda>i. store_to ''PC'' i \<noteq> None) (bins b) = [] \<Longrightarrow> i \<in> set (bins b) \<Longrightarrow> \<not> rm_drops b i"
  by (auto simp: rm_drops_def const_pc_store_def filter_empty_conv split: option.splits)

lemma concat_singletons:
  "rmap g xs = Inr ess \<Longrightarrow> (\<And>x es. x \<in> set xs \<Longrightarrow> g x = Inr es \<Longrightarrow> es = (if P x then [h x] else []))
   \<Longrightarrow> concat ess = map h (filter P xs)"
proof (induction xs arbitrary: ess)
  case Nil
  then show ?case by simp
next
  case (Cons x xs)
  then obtain e es where "g x = Inr e" "rmap g xs = Inr es" "ess = e # es"
    by (auto simp: rbind_eq_Inr)
  moreover have "e = (if P x then [h x] else [])"
    by (rule Cons.prems(2)) (simp_all add: \<open>g x = Inr e\<close>)
  moreover have "concat es = map h (filter P xs)"
    by (rule Cons.IH [OF \<open>rmap g xs = Inr es\<close>]) (simp add: Cons.prems(2))
  ultimately show ?case by simp
qed

lemma rm_block_Inr:
  assumes "rm_block s e (hex_node pc) b = Inr (b', es, m)"
  shows "b' = b\<lparr>bins := map (tag_at pc (bins b)) [0..<length (bins b)]\<rparr>"
    and "m = hex_node (pc_track pc (bins b))"
    and "es = map iid (filter (rm_drops b) (bins b))"
proof -
  let ?tags = "map (tag_at pc (bins b)) [0..<length (bins b)]"
  let ?n = "length (filter (\<lambda>i. store_to ''PC'' i \<noteq> None) (bins b))"
  obtain x where x: "is_exit b = Inr x"
    using assms by (auto simp: rm_block_def rbind_eq_Inr)
  have sc: "scan rm_tag_body (hex_node pc, 0, None) (bins b)
      = (?tags, (hex_node (pc_track pc (bins b)), ?n, last_pc_store (bins b)))"
    by (rule prod_eqI) (simp_all only: rm_tag_ins rm_tag_state fst_conv snd_conv)
  show "b' = b\<lparr>bins := ?tags\<rparr>" "m = hex_node (pc_track pc (bins b))"
    using assms x by (auto simp: rm_block_def sc rbind_eq_Inr split: if_splits)
  show "es = map iid (filter (rm_drops b) (bins b))"
  proof (cases "?n = 0")
    case True
    then have "es = []" using assms x by (auto simp: rm_block_def sc)
    moreover have "filter (rm_drops b) (bins b) = []"
      using True no_pc_store_no_drop [of b] by (auto simp: filter_empty_conv)
    ultimately show ?thesis by simp
  next
    case False
    then obtain ess where ess: "rmap (rm_collect_ins s e x (last_pc_store (bins b))) ?tags = Inr ess"
      and es: "es = concat ess"
      using assms x by (auto simp: rm_block_def sc rbind_eq_Inr)
    have "x = block_is_exit b" using x by (simp add: block_is_exit_def)
    then have "es = map iid (filter (rm_drops b) ?tags)"
      unfolding es by (intro concat_singletons [OF ess]) (auto simp: rm_drops_def dest: rm_collect_eq)
    also have "filter (rm_drops b) ?tags = map (tag_at pc (bins b)) (filter (\<lambda>n. rm_drops b (bins b ! n)) [0..<length (bins b)])"
      by (simp add: filter_map comp_def rm_drops_cong [of "tag_at pc (bins b) _" "bins b ! _"])
    also have "map iid \<dots> = map iid (filter (rm_drops b) (map ((!) (bins b)) [0..<length (bins b)]))"
      by (simp add: filter_map comp_def)
    finally show ?thesis by (simp add: map_nth)
  qed
qed

fun rm_tagged :: "u64 \<Rightarrow> bblock list \<Rightarrow> bblock list" where
  "rm_tagged pc [] = []"
| "rm_tagged pc (b # bs) =
     b\<lparr>bins := map (tag_at pc (bins b)) [0..<length (bins b)]\<rparr> # rm_tagged (pc_track pc (bins b)) bs"

definition rm_doomed :: "bblock list \<Rightarrow> nat list" where
  "rm_doomed bs = concat (map (\<lambda>b. map iid (filter (rm_drops b) (bins b))) bs)"

lemma rm_blocks_Inr:
  "rm_blocks s e (hex_node pc) bs = Inr (bs', es) \<Longrightarrow> bs' = rm_tagged pc bs \<and> es = rm_doomed bs"
proof (induction bs arbitrary: pc bs' es)
  case Nil
  then show ?case by (simp add: rm_doomed_def)
next
  case (Cons b bs)
  then obtain b' e1 m bs1 e2 where
    b: "rm_block s e (hex_node pc) b = Inr (b', e1, m)" and
    bs: "rm_blocks s e m bs = Inr (bs1, e2)" and eq: "bs' = b' # bs1" "es = e1 @ e2"
    by (auto simp: rbind_eq_Inr)
  note rm_block_Inr [OF b]
  with bs Cons.IH [of "pc_track pc (bins b)" bs1 e2] eq show ?case by (simp add: rm_doomed_def)
qed

lemma mem_rm_doomed:
  assumes "distinct (concat (map (\<lambda>b. map iid (bins b)) bs))" and "b \<in> set bs" "i \<in> set (bins b)"
  shows "iid i \<in> set (rm_doomed bs) \<longleftrightarrow> rm_drops b i"
proof
  assume "iid i \<in> set (rm_doomed bs)"
  then obtain c j where "c \<in> set bs" "j \<in> set (bins c)" "rm_drops c j" "iid i = iid j"
    by (auto simp: rm_doomed_def)
  then show "rm_drops b i" using same_id_same_place [OF assms(1-3)] by metis
next
  assume "rm_drops b i"
  then show "iid i \<in> set (rm_doomed bs)" using assms(2,3) by (auto simp: rm_doomed_def)
qed

lemma rm_tagged_filter:
  assumes "\<And>b i. b \<in> set bs \<Longrightarrow> i \<in> set (bins b) \<Longrightarrow> iid i \<in> X \<longleftrightarrow> rm_drops b i"
  shows "map (\<lambda>b. b\<lparr>bins := filter (\<lambda>i. iid i \<notin> X) (bins b)\<rparr>) (rm_tagged pc bs) = rm_reference pc bs"
  using assms
proof (induction bs arbitrary: pc)
  case Nil
  then show ?case by simp
next
  case (Cons b bs)
  have "rm_drops b (tag_at pc (bins b) n) \<longleftrightarrow> iid (bins b ! n) \<in> X" if "n < length (bins b)" for n
    using Cons.prems [of b "bins b ! n"] that rm_drops_cong [of "tag_at pc (bins b) n" "bins b ! n"]
    by simp
  then have "filter (\<lambda>i. iid i \<notin> X) (map (tag_at pc (bins b)) [0..<length (bins b)])
      = filter (\<lambda>i. \<not> rm_drops b i) (map (tag_at pc (bins b)) [0..<length (bins b)])"
    by (intro filter_cong refl) auto
  with Cons show ?case by simp
qed

section \<open>Passes that collect and then erase\<close>

text \<open>
  The shape the other erasing passes share: walk the instructions, decide for each whether it goes
  on the erase list (the decision may fail), then run the clean-up loop.
\<close>

definition collect_erase :: "(instr \<Rightarrow> bool res) \<Rightarrow> func \<Rightarrow> (func \<times> nat list) res" where
  "collect_erase p F = rbind (rmap p (func_ins F)) (\<lambda>ds.
     let eraseList = map (iid \<circ> fst) (filter snd (zip (func_ins F) ds)) in
     rbind (erase_all eraseList F) (\<lambda>F'. Inr (F', eraseList)))"

lemma collect_erase_Inr:
  assumes "wf_func F" and "collect_erase p F = Inr (F', es)"
  shows "es = map iid (filter (\<lambda>i. p i = Inr True) (func_ins F))"
    and "F' = map_blocks (\<lambda>b. b\<lparr>bins := filter (\<lambda>i. p i \<noteq> Inr True) (bins b)\<rparr>) F"
proof -
  obtain ds where ds: "rmap p (func_ins F) = Inr ds"
    and er: "erase_all es F = Inr F'"
    and es: "es = map (iid \<circ> fst) (filter snd (zip (func_ins F) ds))"
    using assms(2) by (auto simp: collect_erase_def rbind_eq_Inr Let_def)
  have "map fst (filter snd (zip xs ds)) = filter (\<lambda>i. p i = Inr True) xs"
    if "rmap p xs = Inr ds" for xs ds
    using that by (induction xs arbitrary: ds) (auto simp: rbind_eq_Inr)
  from arg_cong [OF this [OF ds], of "map iid"]
  show e: "es = map iid (filter (\<lambda>i. p i = Inr True) (func_ins F))" by (simp add: es comp_def)
  have inj: "i = j" if "i \<in> set (func_ins F)" "j \<in> set (func_ins F)" "iid i = iid j" for i j
    using assms(1) that by (auto simp: wf_func_def ins_ids_def distinct_map inj_on_def)
  have "F' = drop_ids (set es) F" using erase_all_Inr [OF er] by simp
  also have "\<dots> = map_blocks (\<lambda>b. b\<lparr>bins := filter (\<lambda>i. p i \<noteq> Inr True) (bins b)\<rparr>) F"
    unfolding drop_ids_def map_blocks_def
  proof (rule arg_cong [of _ _ "\<lambda>x. F\<lparr>fblocks := x\<rparr>"], rule map_cong [OF refl])
    fix b assume b: "b \<in> set (fblocks F)"
    have "iid i \<notin> set es \<longleftrightarrow> p i \<noteq> Inr True" if "i \<in> set (bins b)" for i
      using inj b that by (auto simp: e func_ins_def)
    then show "b\<lparr>bins := filter (\<lambda>i. iid i \<notin> set es) (bins b)\<rparr>
        = b\<lparr>bins := filter (\<lambda>i. p i \<noteq> Inr True) (bins b)\<rparr>"
      by (simp cong: filter_cong)
  qed
  finally show "F' = map_blocks (\<lambda>b. b\<lparr>bins := filter (\<lambda>i. p i \<noteq> Inr True) (bins b)\<rparr>) F" .
qed

lemma collect_erase_ok:
  assumes "wf_func F" and "\<And>i. i \<in> set (func_ins F) \<Longrightarrow> \<exists>d. p i = Inr d"
  shows "\<exists>r. collect_erase p F = Inr r"
proof -
  obtain ds where ds: "rmap p (func_ins F) = Inr ds" using rmap_total assms(2) by metis
  let ?es = "map (iid \<circ> fst) (filter snd (zip (func_ins F) ds))"
  have "map fst (filter snd (zip xs ds)) = filter (\<lambda>i. p i = Inr True) xs"
    if "rmap p xs = Inr ds" for xs ds
    using that by (induction xs arbitrary: ds) (auto simp: rbind_eq_Inr)
  from arg_cong [OF this [OF ds], of "map iid"]
  have "?es = map iid (filter (\<lambda>i. p i = Inr True) (func_ins F))" by (simp add: comp_def)
  moreover have "distinct (map iid (func_ins F))"
    using assms(1) by (simp add: wf_func_def ins_ids_def)
  ultimately have "erase_all ?es F = Inr (drop_ids (set ?es) F)"
    by (intro erase_all_ok) (auto simp: ins_ids_def distinct_map_filter)
  with ds show ?thesis by (simp add: collect_erase_def Let_def)
qed

section \<open>S2EDeleteInstructionCountPass\<close>

text \<open>
  \<open>getCalledFunction\<close> is null for a call through a pointer, and its name is read without a test.
\<close>

definition delete_count_ins :: "instr \<Rightarrow> bool res" where
  "delete_count_ins i = (case ikind i of
      Store v (GlobalVar g) \<Rightarrow>
        Inr (g = ''s2e_icount'' \<or> g = ''s2e_current_tb'' \<or> g = ''s2e_icount_before_tb'')
    | Call (FuncRef n) xs \<Rightarrow> Inr (n = ''helper_s2e_tcg_execution_handler'')
    | Call _ xs \<Rightarrow> Inl (NullDeref ''getCalledFunction'')
    | _ \<Rightarrow> Inr False)"

definition s2e_delete_instruction_count :: "func \<Rightarrow> (func \<times> bool) res" where
  "s2e_delete_instruction_count f =
     rbind (collect_erase delete_count_ins f) (\<lambda>(f', es). Inr (f', True))"

section \<open>RemoveBranchTrace\<close>

text \<open>Stores of the constant 0 or 1 through a constant cast to \<open>i8*\<close>.\<close>

definition branch_trace_ins :: "instr \<Rightarrow> bool res" where
  "branch_trace_ins i = (case ikind i of
      Store (ConstInt w c) (ConstExpr isCast t) \<Rightarrow>
        Inr ((c = 0 \<or> c = 1) \<and> isCast \<and> t = PtrTy (IntTy 8))
    | _ \<Rightarrow> Inr False)"

definition remove_branch_trace :: "func \<Rightarrow> (func \<times> bool) res" where
  "remove_branch_trace F =
     rbind (collect_erase branch_trace_ins F) (\<lambda>(F', es). Inr (F', es \<noteq> []))"

section \<open>All three are erasing passes\<close>

lemma collect_erasing_pass:
  assumes "\<And>f f' ch. run f = Inr (f', ch) \<Longrightarrow> \<exists>es. collect_erase p f = Inr (f', es)"
  shows "erasing_pass run (\<lambda>f i. p i = Inr True)"
proof
  fix f f' ch
  assume "wf_func f" "run f = Inr (f', ch)"
  then obtain es where "collect_erase p f = Inr (f', es)" using assms by blast
  from collect_erase_Inr(2) [OF \<open>wf_func f\<close> this]
  show "skeleton f' = map (\<lambda>b. (bid b, map (\<lambda>i. (iid i, ikind i)) (filter (\<lambda>i. p i \<noteq> Inr True) (bins b)))) (fblocks f)"
    by (simp add: skeleton_def map_blocks_def comp_def)
qed

interpretation delete_count: erasing_pass s2e_delete_instruction_count
    "\<lambda>f i. delete_count_ins i = Inr True"
  by (rule collect_erasing_pass) (auto simp: s2e_delete_instruction_count_def rbind_eq_Inr)

interpretation branch_trace: erasing_pass remove_branch_trace "\<lambda>f i. branch_trace_ins i = Inr True"
  by (rule collect_erasing_pass) (auto simp: remove_branch_trace_def rbind_eq_Inr)

definition rm_doomed_ins :: "func \<Rightarrow> instr \<Rightarrow> bool" where
  "rm_doomed_ins F i \<longleftrightarrow> (\<exists>b \<in> set (fblocks F). i \<in> set (bins b) \<and> rm_drops b i)"

lemma rm_reference_view:
  "map (\<lambda>b. (bid b, map (\<lambda>i. (iid i, ikind i)) (bins b))) (rm_reference pc bs)
   = map (\<lambda>b. (bid b, map (\<lambda>i. (iid i, ikind i)) (filter (\<lambda>i. \<not> rm_drops b i) (bins b)))) bs"
proof (induction bs arbitrary: pc)
  case Nil
  show ?case by simp
next
  case (Cons b bs)
  have "map (\<lambda>i. (iid i, ikind i)) (filter (\<lambda>i. \<not> rm_drops b i) (map (tag_at pc (bins b)) [0..<length (bins b)]))
      = map (\<lambda>i. (iid i, ikind i)) (filter (\<lambda>i. \<not> rm_drops b i) (map ((!) (bins b)) [0..<length (bins b)]))"
    by (simp add: filter_map comp_def rm_drops_cong [of "tag_at pc (bins b) _" "bins b ! _"])
  with Cons show ?case by (simp add: map_nth)
qed

lemma remove_extra_reference:
  assumes "wf_func F" and "getPCStartOfFunc F = Inr pcStart"
    and "remove_extra_store_to_pc F = Inr (F', changed)"
  shows "F' = F\<lparr>fblocks := rm_reference pcStart (fblocks F)\<rparr>
    \<and> (changed \<longleftrightarrow> (\<exists>b \<in> set (fblocks F). \<exists>i \<in> set (bins b). rm_drops b i))"
proof -
  obtain pcEnd bs es where
    bs: "rm_blocks pcStart pcEnd (hex_node pcStart) (fblocks F) = Inr (bs, es)" and
    er: "erase_all es (F\<lparr>fblocks := bs\<rparr>) = Inr F'" and ch: "changed = (es \<noteq> [])"
    using assms(2,3) by (auto simp: remove_extra_store_to_pc_def rbind_eq_Inr)
  from rm_blocks_Inr [OF bs]
  have eq: "bs = rm_tagged pcStart (fblocks F)" "es = rm_doomed (fblocks F)" by auto
  have "F' = drop_ids (set es) (F\<lparr>fblocks := bs\<rparr>)" using erase_all_Inr [OF er] by simp
  also have "\<dots> = F\<lparr>fblocks := rm_reference pcStart (fblocks F)\<rparr>"
    unfolding drop_ids_def map_blocks_def eq
    using rm_tagged_filter [of "fblocks F" "set (rm_doomed (fblocks F))" pcStart]
      mem_rm_doomed [OF wf_blocks_distinct [OF assms(1)]] by simp
  finally show ?thesis using ch eq(2) by (auto simp: rm_doomed_def filter_empty_conv)
qed

interpretation remove_extra: erasing_pass remove_extra_store_to_pc rm_doomed_ins
proof
  fix f f' ch
  assume wf: "wf_func f" and r: "remove_extra_store_to_pc f = Inr (f', ch)"
  then obtain pc where "getPCStartOfFunc f = Inr pc"
    by (auto simp: remove_extra_store_to_pc_def rbind_eq_Inr)
  from remove_extra_reference [OF wf this r]
  have "fblocks f' = rm_reference pc (fblocks f)" by simp
  moreover have "rm_doomed_ins f i \<longleftrightarrow> rm_drops b i" if "b \<in> set (fblocks f)" "i \<in> set (bins b)" for b i
    using that same_id_same_place [OF wf_blocks_distinct [OF wf] that]
    unfolding rm_doomed_ins_def by metis
  ultimately show "skeleton f' =
      map (\<lambda>b. (bid b, map (\<lambda>i. (iid i, ikind i)) (filter (\<lambda>i. \<not> rm_doomed_ins f i) (bins b)))) (fblocks f)"
    by (simp add: skeleton_def rm_reference_view cong: map_cong filter_cong)
qed

section \<open>Properties\<close>

text \<open>
  C4. \<open>RemoveExtraStoreToPC\<close> equals its reference: on a well-formed function, when no assertion
  stops it, every surviving instruction carries in \<open>INS_currPC\<close> the last constant stored to \<open>PC\<close>
  before it in layout order (the start of the basic block if there is none), and exactly the
  constant stores to \<open>PC\<close> are gone that are not the last store to \<open>PC\<close> of a returning block.
\<close>

theorem remove_extra_store_to_pc_reference:
  assumes "wf_func F" and "getPCStartOfFunc F = Inr pcStart"
    and "remove_extra_store_to_pc F = Inr (F', changed)"
  shows "F' = F\<lparr>fblocks := rm_reference pcStart (fblocks F)\<rparr>
    \<and> (changed \<longleftrightarrow> (\<exists>b \<in> set (fblocks F). \<exists>i \<in> set (bins b). rm_drops b i))"
  using assms by (rule remove_extra_reference)

text \<open>A returning block whose first store to \<open>PC\<close> only advances it, and whose second is the jump.\<close>

definition sample_store_func :: func where
  "sample_store_func = \<lparr>fid = 1, fname = ''void-tcg-llvm-tb-0'',
     fblocks = [\<lparr>bid = 1, bname = ''entry'', bins =
        [\<lparr>iid = 1, ikind = Store (ConstInt 32 4) (GlobalVar ''PC''), imeta = block_md 0 8\<rparr>,
         \<lparr>iid = 2, ikind = Store (ConstInt 32 256) (GlobalVar ''PC''), imeta = block_md 0 8\<rparr>,
         \<lparr>iid = 3, ikind = Ret None, imeta = block_md 0 8\<rparr>]\<rparr>]\<rparr>"

lemma sample_store_bounds:
  "getPCStartOfFunc sample_store_func = Inr 0" "getPCEndOfFunc sample_store_func = Inr 8"
  using block_md_bounds [of sample_store_func _ "[]" _ _ 0 8]
  by (simp_all add: sample_store_func_def)

lemma sample_store_wf: "wf_func sample_store_func"
  by (simp add: wf_func_def ins_ids_def func_ins_def sample_store_func_def)

lemma sample_store_runs: "\<exists>F' ch. remove_extra_store_to_pc sample_store_func = Inr (F', ch)"
  by (simp add: remove_extra_store_to_pc_def sample_store_bounds)
     (simp add: sample_store_func_def rm_block_def is_exit_def terminator_def rm_tag_body_def
      store_to_def rm_collect_ins_def erase_all_def erase_from_parent_def ins_ids_def func_ins_def,
      blast)

theorem remove_extra_store_to_pc_reference_witness:
  "\<exists>F'. remove_extra_store_to_pc sample_store_func = Inr (F', True) \<and>
     map iid (func_ins F') = [2, 3] \<and>
     map (\<lambda>i. get_md i ''INS_currPC'') (func_ins F') = [Some (hex_node 4), Some (hex_node 256)]"
proof -
  obtain F' ch where r: "remove_extra_store_to_pc sample_store_func = Inr (F', ch)"
    using sample_store_runs by blast
  note t = remove_extra_store_to_pc_reference [OF sample_store_wf sample_store_bounds(1) r]
  have d: "rm_drops (fblocks sample_store_func ! 0) (bins (fblocks sample_store_func ! 0) ! 0)"
    by (simp add: rm_drops_def const_pc_store_def last_pc_store_def store_to_def
        sample_store_func_def Let_def)
  have ref: "rm_reference 0 (fblocks sample_store_func) = fblocks F'" using t by simp
  have "func_ins F' = [tag_at 0 (bins (fblocks sample_store_func ! 0)) 1,
      tag_at 0 (bins (fblocks sample_store_func ! 0)) 2]"
    unfolding func_ins_def ref [symmetric]
    by (simp add: sample_store_func_def Let_def rm_drops_def const_pc_store_def last_pc_store_def
        store_to_def tag_at_def block_is_exit_def is_exit_def terminator_def upt_rec)
  moreover have "ch" using t d by (auto simp: sample_store_func_def Let_def)
  ultimately show ?thesis
    using r by (simp add: tag_at_def sample_store_func_def Let_def pc_step_def store_to_def)
qed

end
