(* ===== verification/Switch_Meta.thy ===== *)
theory Switch_Meta
  imports Pass_Kit
begin

text \<open>
  A solved jump table travels from \<open>ReplaceConstantLoads\<close> to \<open>BuildFunctions\<close> as metadata on the
  store to \<open>PC\<close>: \<open>INS_switch_cnt\<close>, \<open>INS_switch_default\<close>, \<open>INS_switch_idx_start\<close> and one
  \<open>INS_switch_case<i>\<close> per entry. This theory holds the decimal printer of the case names, the
  writer loop and the reader loop over the cases, and the lemma that the reader gets back what the
  writer stored.
\<close>

text \<open>\<open>%d\<close> on a non-negative \<open>int\<close>.\<close>

definition dec_digit :: "nat \<Rightarrow> char" where
  "dec_digit n = ''0123456789'' ! n"

fun dec_digits :: "nat \<Rightarrow> string" where
  "dec_digits n = (if n < 10 then [dec_digit n] else dec_digits (n div 10) @ [dec_digit (n mod 10)])"

declare dec_digits.simps [simp del]

text \<open>\<open>snprintf(buf, sizeof buf, "INS_switch_case%d", i)\<close>\<close>

definition case_name :: "nat \<Rightarrow> string" where
  "case_name i = ''INS_switch_case'' @ dec_digits i"

text \<open>
  The loop of \<open>exploreBB\<close> and of \<open>fixupIndirectJumps\<close> that reads the entries: each must be present.
\<close>

definition read_cases :: "instr \<Rightarrow> nat \<Rightarrow> u64 list res" where
  "read_cases i cnt = rmap (\<lambda>k.
     rbind (require (has_md i (case_name k)) (AssertFailed ''INS_switch_case'')) (\<lambda>_.
       getHexMetadataFromIns i (case_name k))) [0..<cnt]"

text \<open>The loop of \<open>ReplaceConstantLoads::runOnFunction\<close> that writes them.\<close>

definition write_cases :: "u64 list \<Rightarrow> instr \<Rightarrow> instr" where
  "write_cases pcs i =
     fold (\<lambda>(k, pc) i. set_md i (case_name k) (hex_node pc)) (zip [0..<length pcs] pcs) i"

section \<open>Case names are distinct\<close>

lemma dec_digits_nonempty [simp]: "dec_digits n \<noteq> []" "[] \<noteq> dec_digits n"
  by (subst dec_digits.simps, simp)+

lemma dec_digit_inj: "m < 10 \<Longrightarrow> n < 10 \<Longrightarrow> dec_digit m = dec_digit n \<Longrightarrow> m = n"
proof -
  have "\<forall>m \<in> {..<10}. \<forall>n \<in> {..<10}. dec_digit m = dec_digit n \<longrightarrow> m = n"
    by (simp add: lessThan_nat_numeral lessThan_Suc dec_digit_def)
  then show "m < 10 \<Longrightarrow> n < 10 \<Longrightarrow> dec_digit m = dec_digit n \<Longrightarrow> m = n" by simp
qed

lemma dec_digits_inj: "dec_digits m = dec_digits n \<Longrightarrow> m = n"
proof (induction m arbitrary: n rule: dec_digits.induct)
  case (1 m)
  have m: "dec_digits m = (if m < 10 then [dec_digit m] else dec_digits (m div 10) @ [dec_digit (m mod 10)])"
    and n: "dec_digits n = (if n < 10 then [dec_digit n] else dec_digits (n div 10) @ [dec_digit (n mod 10)])"
    by (subst dec_digits.simps, rule refl)+
  have "last (dec_digits m) = dec_digit (m mod 10)" "last (dec_digits n) = dec_digit (n mod 10)"
    by (simp_all add: m n)
  then have lo: "m mod 10 = n mod 10" using 1(2) by (auto intro: dec_digit_inj)
  show ?case
  proof (cases "m < 10")
    case True
    then have "n < 10" using 1(2) by (auto simp: m n split: if_splits)
    with lo True show ?thesis by simp
  next
    case False
    then have "\<not> n < 10" using 1(2) by (auto simp: m n split: if_splits)
    then have "dec_digits (m div 10) = dec_digits (n div 10)" using 1(2) False by (simp add: m n)
    with False have "m div 10 = n div 10" by (rule 1(1))
    with lo show ?thesis by (metis mult_div_mod_eq)
  qed
qed

lemma case_name_inj [simp]: "case_name m = case_name n \<longleftrightarrow> m = n"
  by (auto simp: case_name_def dest: dec_digits_inj)

lemma take_case_name: "take 15 (case_name k) = ''INS_switch_case''"
  by (simp add: case_name_def)

lemma case_name_other [simp]:
  "take 15 s \<noteq> ''INS_switch_case'' \<Longrightarrow> s \<noteq> case_name k"
  using take_case_name [of k] by auto

section \<open>What was written is read back\<close>

lemma write_cases_frame [simp]:
  "iid (write_cases pcs i) = iid i" "ikind (write_cases pcs i) = ikind i"
proof -
  have "iid (fold (\<lambda>(k, pc) i. set_md i (case_name k) (hex_node pc)) ps i) = iid i \<and>
        ikind (fold (\<lambda>(k, pc) i. set_md i (case_name k) (hex_node pc)) ps i) = ikind i" for ps
    by (induction ps arbitrary: i) (auto simp: split_beta)
  then show "iid (write_cases pcs i) = iid i" "ikind (write_cases pcs i) = ikind i"
    by (simp_all add: write_cases_def)
qed

lemma fold_set_md_other:
  "(\<And>p. p \<in> set ps \<Longrightarrow> case_name (fst p) \<noteq> s) \<Longrightarrow>
   get_md (fold (\<lambda>(k, pc) i. set_md i (case_name k) (hex_node pc)) ps i) s = get_md i s"
  by (induction ps arbitrary: i) (force simp: split_beta)+

lemma write_cases_other:
  "take 15 s \<noteq> ''INS_switch_case'' \<Longrightarrow> get_md (write_cases pcs i) s = get_md i s"
  unfolding write_cases_def by (rule fold_set_md_other) (metis case_name_other)

lemma fold_set_md_nth:
  assumes "distinct (map fst ps)" and "(k, pc) \<in> set ps"
  shows "get_md (fold (\<lambda>(k, pc) i. set_md i (case_name k) (hex_node pc)) ps i) (case_name k)
    = Some (hex_node pc)"
  using assms
proof (induction ps arbitrary: i)
  case Nil
  then show ?case by simp
next
  case (Cons p ps)
  show ?case
  proof (cases "p = (k, pc)")
    case True
    then have "\<And>q. q \<in> set ps \<Longrightarrow> case_name (fst q) \<noteq> case_name k"
      using Cons.prems(1) by force
    from fold_set_md_other [OF this] True show ?thesis by simp
  next
    case False
    with Cons show ?thesis by (simp add: split_beta)
  qed
qed

lemma write_cases_nth:
  assumes "k < length pcs"
  shows "get_md (write_cases pcs i) (case_name k) = Some (hex_node (pcs ! k))"
proof -
  have "(k, pcs ! k) \<in> set (zip [0..<length pcs] pcs)"
    using assms by (force simp: set_zip)
  then show ?thesis unfolding write_cases_def by (intro fold_set_md_nth) simp_all
qed

lemma read_write_cases:
  assumes "\<And>pc. pc \<in> set pcs \<Longrightarrow> unat pc < 2 ^ 63"
  shows "read_cases (write_cases pcs i) (length pcs) = Inr pcs"
proof -
  have "read_cases (write_cases pcs i) (length pcs) = Inr (map ((!) pcs) [0..<length pcs])"
    unfolding read_cases_def
  proof (rule rmap_Inr)
    fix k assume "k \<in> set [0..<length pcs]"
    then have k: "k < length pcs" by simp
    then have "unat (pcs ! k) < 2 ^ 63" by (intro assms nth_mem)
    then have "getHexMetadataFromIns (write_cases pcs i) (case_name k) = Inr (pcs ! k)"
      using getHex_hex_node [OF write_cases_nth [OF k]] by simp
    then show "rbind (require (has_md (write_cases pcs i) (case_name k)) (AssertFailed ''INS_switch_case''))
        (\<lambda>_. getHexMetadataFromIns (write_cases pcs i) (case_name k)) = Inr (pcs ! k)"
      by (simp add: getHex_Inr_has)
  qed
  then show ?thesis by (simp add: map_nth)
qed

lemma read_cases_cong:
  "(\<And>k. k < cnt \<Longrightarrow> get_md i (case_name k) = get_md j (case_name k)) \<Longrightarrow>
   read_cases i cnt = read_cases j cnt"
  unfolding read_cases_def
proof (induction cnt)
  case 0
  show ?case by simp
next
  case (Suc n)
  have "get_md i (case_name n) = get_md j (case_name n)" by (rule Suc.prems) simp
  then have "has_md i (case_name n) = has_md j (case_name n)"
    "getHexMetadataFromIns i (case_name n) = getHexMetadataFromIns j (case_name n)"
    by (simp_all add: has_md_def get_md_def getHexMetadataFromIns_def)
  with Suc show ?case by (simp add: rmap_append)
qed

end
