(* ===== verification/Schedule.thy ===== *)
theory Schedule
  imports B2L_Prelude
begin

text \<open>
  The contract shared by the two explorations of the repository, \<open>BuildFunctions::exploreBB\<close> over
  basic blocks and \<open>RecursiveDescentDisassembler::explorePCLater\<close> over program counters: an
  operation that schedules an item unless it was scheduled before. The locale \<open>schedule_once\<close> has
  the operation, the pending items, the keys seen so far and the order of scheduling as its
  interface; its lemmas say what any sequence of such operations does.
\<close>

locale schedule_once =
  fixes key :: "'a \<Rightarrow> 'k"
    and sched :: "'a \<Rightarrow> 's \<Rightarrow> 's"
    and pending :: "'s \<Rightarrow> 'a list"
    and seen :: "'s \<Rightarrow> 'k set"
  assumes sched_seen: "key x \<in> seen s \<Longrightarrow> sched x s = s"
    and seen_sched: "seen (sched x s) = insert (key x) (seen s)"
    and pending_sched: "key x \<notin> seen s \<Longrightarrow>
       pending (sched x s) = pending s @ [x] \<or> pending (sched x s) = x # pending s"
begin

definition sched_all :: "'a list \<Rightarrow> 's \<Rightarrow> 's" where
  "sched_all xs s = fold sched xs s"

lemma sched_all_simps [simp]:
  "sched_all [] s = s" "sched_all (x # xs) s = sched_all xs (sched x s)"
  by (simp_all add: sched_all_def)

lemma seen_sched_all: "seen (sched_all xs s) = seen s \<union> key ` set xs"
  by (induction xs arbitrary: s) (auto simp: seen_sched)

lemma pending_mono: "set (pending s) \<subseteq> set (pending (sched x s))"
  using sched_seen [of x s] pending_sched [of x s] by (cases "key x \<in> seen s") auto

text \<open>A pending item is scheduled: the invariant every user of the contract keeps.\<close>

definition sound :: "'s \<Rightarrow> bool" where
  "sound s \<longleftrightarrow> distinct (map key (pending s)) \<and> key ` set (pending s) \<subseteq> seen s"

lemma sound_sched: "sound s \<Longrightarrow> sound (sched x s)"
proof (cases "key x \<in> seen s")
  case True
  then show "sound s \<Longrightarrow> ?thesis" by (simp add: sched_seen)
next
  case False
  assume s: "sound s"
  then have n: "key x \<notin> key ` set (pending s)" using False by (auto simp: sound_def)
  from pending_sched [OF False] s n show ?thesis
    by (elim disjE) (simp_all add: sound_def seen_sched subset_insertI2)
qed

lemma sound_sched_all: "sound s \<Longrightarrow> sound (sched_all xs s)"
  by (induction xs arbitrary: s) (simp_all add: sound_sched)

lemma pending_sched_all:
  "set (pending (sched_all xs s)) \<subseteq> set (pending s) \<union> set xs"
proof (induction xs arbitrary: s)
  case Nil
  show ?case by simp
next
  case (Cons x xs)
  have "set (pending (sched x s)) \<subseteq> insert x (set (pending s))"
    using sched_seen [of x s] pending_sched [of x s] by (cases "key x \<in> seen s") auto
  with Cons.IH [of "sched x s"] show ?case by auto
qed

text \<open>A new item of the list is pending afterwards.\<close>

lemma sched_all_pending_new:
  assumes "k \<in> key ` set xs" and "k \<notin> seen s"
  shows "k \<in> key ` set (pending (sched_all xs s))"
  using assms
proof (induction xs arbitrary: s)
  case Nil
  then show ?case by simp
next
  case (Cons x xs)
  have mono: "set (pending t) \<subseteq> set (pending (sched_all ys t))" for ys t
    by (induction ys arbitrary: t) (simp, simp, blast intro: pending_mono [THEN subsetD])
  show ?case
  proof (cases "k = key x")
    case True
    with Cons.prems have "x \<in> set (pending (sched x s))" using pending_sched [of x s] by auto
    with mono [of "sched x s" xs] True show ?thesis by auto
  next
    case False
    with Cons.prems have "k \<in> key ` set xs" "k \<notin> seen (sched x s)" by (auto simp: seen_sched)
    from Cons.IH [OF this] show ?thesis by simp
  qed
qed

text \<open>
  The potential of a bounded set of keys: what is not seen yet, plus what is pending. Scheduling
  keys of the bound never raises it, so taking one pending item off lowers it.
\<close>

definition potential :: "'k set \<Rightarrow> 's \<Rightarrow> nat" where
  "potential B s = card (B - seen s) + length (pending s)"

lemma potential_sched:
  assumes "finite B" and "key x \<in> B"
  shows "potential B (sched x s) \<le> potential B s"
proof (cases "key x \<in> seen s")
  case True
  then show ?thesis by (simp add: sched_seen)
next
  case False
  have "B - seen (sched x s) = B - seen s - {key x}" by (auto simp: seen_sched)
  moreover have "key x \<in> B - seen s" using assms(2) False by simp
  ultimately have "Suc (card (B - seen (sched x s))) = card (B - seen s)"
    using assms(1) card_Suc_Diff1 [of "B - seen s" "key x"] by simp
  moreover have "length (pending (sched x s)) = Suc (length (pending s))"
    using pending_sched [OF False] by auto
  ultimately show ?thesis by (simp add: potential_def)
qed

lemma potential_sched_all:
  assumes "finite B" and "key ` set xs \<subseteq> B"
  shows "potential B (sched_all xs s) \<le> potential B s"
  using assms(2)
proof (induction xs arbitrary: s)
  case Nil
  show ?case by simp
next
  case (Cons x xs)
  then have "potential B (sched_all xs (sched x s)) \<le> potential B (sched x s)" by simp
  also have "\<dots> \<le> potential B s" using Cons.prems by (intro potential_sched [OF assms(1)]) simp
  finally show ?case by simp
qed

end

end
