(* ===== verification/Explore_BBs.thy ===== *)
theory Explore_BBs
  imports Switch_Meta Schedule
begin

text \<open>
  \<open>BuildFunctions::exploreBB\<close>: which translated basic blocks (each its own LLVM function at this
  stage) belong to the function that starts at a given one. The abstract specification is
  reachability along the edges the store-to-\<open>PC\<close> metadata describes; the worklist is shown to
  compute it, to terminate on every input, and to stop with a fault exactly when a reachable block
  holds a store to \<open>PC\<close> without a proper mark.
\<close>

section \<open>The worklist\<close>

text \<open>
  \<open>allBBs\<close> is a \<open>std::map\<close>, finite by construction: an association list whose first entry for a
  key is the current one, so that \<open>allBBs[pcStart] = funci\<close> is a cons.
\<close>

type_synonym bbtable = "(u64 \<times> func) list"

record explore_state =
  es_todo :: "func list"
  es_funcs :: "func list"
  es_explored :: "nat set"

text \<open>
  The program counters one store to \<open>PC\<close> adds to \<open>nextPCList\<close> (empty when \<open>isNextPCValid\<close> stays
  false), and whether it sets \<open>hasIndirectJump\<close>. A mark earlier in the chain hides the later ones.
\<close>

definition next_pcs :: "instr \<Rightarrow> (u64 list \<times> bool) res" where
  "next_pcs i =
     (if has_md i ''INS_directCall'' \<or> has_md i ''INS_indirectCall'' then
        rbind (require (has_md i ''INS_callReturn'') (AssertFailed ''INS_callReturn'')) (\<lambda>_.
        rbind (getHexMetadataFromIns i ''INS_callReturn'') (\<lambda>nextPC. Inr ([nextPC], False)))
      else if has_md i ''INS_directJump'' then
        rbind (getHexMetadataFromIns i ''INS_directJump'') (\<lambda>nextPC. Inr ([nextPC], False))
      else if has_md i ''INS_indirectJump'' then
        if has_md i ''INS_switch_cnt'' then
          rbind (getHexMetadataFromIns i ''INS_switch_cnt'') (\<lambda>cnt_entries.
          rbind (read_cases i (unat cnt_entries)) (\<lambda>targets.
          rbind (getHexMetadataFromIns i ''INS_switch_default'') (\<lambda>default_pc.
            Inr (targets @ [default_pc], True))))
        else Inr ([], True)
      else rbind (require (has_md i ''INS_return'') (AssertFailed ''INS_return'')) (\<lambda>_.
        Inr ([], False)))"

text \<open>A basic block is put on both lists the first time one of its addresses comes up.\<close>

definition push_bb :: "func \<Rightarrow> explore_state \<Rightarrow> explore_state" where
  "push_bb nextBB s =
     (if fid nextBB \<in> es_explored s then s
      else s\<lparr>es_todo := es_todo s @ [nextBB], es_funcs := es_funcs s @ [nextBB],
             es_explored := insert (fid nextBB) (es_explored s)\<rparr>)"

definition visit_pc :: "bbtable \<Rightarrow> u64 \<Rightarrow> explore_state \<Rightarrow> explore_state" where
  "visit_pc allBBs nextPC s =
     (case map_of allBBs nextPC of None \<Rightarrow> s | Some nextBB \<Rightarrow> push_bb nextBB s)"

definition explore_ins :: "bbtable \<Rightarrow> instr \<Rightarrow> bool \<times> explore_state \<Rightarrow> (bool \<times> explore_state) res" where
  "explore_ins allBBs i st = (case st of (hasIndirectJump, s) \<Rightarrow>
     (case store_to ''PC'' i of
        None \<Rightarrow> Inr st
      | Some v \<Rightarrow> rbind (next_pcs i) (\<lambda>(nextPCList, indirect).
          Inr (hasIndirectJump \<or> indirect, fold (visit_pc allBBs) nextPCList s))))"

definition explore_func :: "bbtable \<Rightarrow> func \<Rightarrow> bool \<times> explore_state \<Rightarrow> (bool \<times> explore_state) res" where
  "explore_func allBBs f st = rfold (explore_ins allBBs) (func_ins f) st"

section \<open>Scheduling happens once\<close>

interpretation bb_once: schedule_once fid push_bb es_todo es_explored
  by unfold_locales (auto simp: push_bb_def)

lemma visit_pcs_sched:
  "fold (visit_pc t) pcs s = bb_once.sched_all (List.map_filter (map_of t) pcs) s"
  by (induction pcs arbitrary: s) (simp_all add: visit_pc_def split: option.split)

definition table_ids :: "bbtable \<Rightarrow> nat set" where
  "table_ids t = fid ` snd ` set t"

lemma finite_table_ids [simp]: "finite (table_ids t)"
  by (simp add: table_ids_def)

lemma map_filter_table: "f \<in> set (List.map_filter (map_of t) pcs) \<Longrightarrow> f \<in> snd ` set t"
  by (force simp: map_filter_def dest: map_of_SomeD)

text \<open>
  \<open>func_succs\<close> lists, in order, the blocks the stores of a block lead to, when every store is
  marked; \<open>explore_func\<close> schedules exactly these.
\<close>

definition store_succs :: "bbtable \<Rightarrow> instr \<Rightarrow> func list" where
  "store_succs t i = (case store_to ''PC'' i of None \<Rightarrow> []
     | Some v \<Rightarrow> (case next_pcs i of Inl e \<Rightarrow> [] | Inr (pcs, _) \<Rightarrow> List.map_filter (map_of t) pcs))"

definition func_succs :: "bbtable \<Rightarrow> func \<Rightarrow> func list" where
  "func_succs t f = concat (map (store_succs t) (func_ins f))"

definition store_marked :: "instr \<Rightarrow> bool" where
  "store_marked i \<longleftrightarrow> store_to ''PC'' i = None \<or> (case next_pcs i of Inl e \<Rightarrow> False | Inr r \<Rightarrow> True)"

definition ins_indirect :: "instr \<Rightarrow> bool" where
  "ins_indirect i \<longleftrightarrow> store_to ''PC'' i \<noteq> None \<and> (case next_pcs i of Inl e \<Rightarrow> False | Inr r \<Rightarrow> snd r)"

lemma sched_all_append: "bb_once.sched_all (xs @ ys) s = bb_once.sched_all ys (bb_once.sched_all xs s)"
  by (simp add: bb_once.sched_all_def)

lemma explore_ins_eq:
  "explore_ins t i (ind, s) =
     (if store_marked i then Inr (ind \<or> ins_indirect i, bb_once.sched_all (store_succs t i) s)
      else (case next_pcs i of Inl e \<Rightarrow> Inl e | Inr r \<Rightarrow> Inr (ind, s)))"
  by (auto simp: explore_ins_def store_marked_def ins_indirect_def store_succs_def visit_pcs_sched
      split: option.splits sum.splits)

lemma explore_ins_bad: "\<not> store_marked i \<Longrightarrow> \<exists>e. explore_ins t i st = Inl e"
  by (cases st) (auto simp: explore_ins_def store_marked_def split: option.splits sum.splits)

lemma explore_inss_eq:
  "\<forall>i \<in> set is. store_marked i \<Longrightarrow> rfold (explore_ins t) is (ind, s) =
     Inr (ind \<or> (\<exists>i \<in> set is. ins_indirect i), bb_once.sched_all (concat (map (store_succs t) is)) s)"
  by (induction "is" arbitrary: ind s) (simp_all add: explore_ins_eq sched_all_append)

lemma explore_inss_bad:
  "\<not> (\<forall>i \<in> set is. store_marked i) \<Longrightarrow> \<exists>e. rfold (explore_ins t) is st = Inl e"
proof (induction "is" arbitrary: st)
  case Nil
  then show ?case by simp
next
  case (Cons i "is")
  show ?case
  proof (cases "store_marked i")
    case True
    with Cons show ?thesis by (cases st) (simp add: explore_ins_eq)
  next
    case False
    from explore_ins_bad [OF this, of t st] show ?thesis by auto
  qed
qed

definition func_marked :: "func \<Rightarrow> bool" where
  "func_marked f \<longleftrightarrow> (\<forall>i \<in> set (func_ins f). store_marked i)"

definition func_indirect :: "func \<Rightarrow> bool" where
  "func_indirect f \<longleftrightarrow> (\<exists>i \<in> set (func_ins f). ins_indirect i)"

lemma explore_func_bad: "\<not> func_marked f \<Longrightarrow> \<exists>e. explore_func t f st = Inl e"
  unfolding explore_func_def func_marked_def by (rule explore_inss_bad)

lemma explore_func_eq:
  "func_marked f \<Longrightarrow> explore_func t f (ind, s) =
     Inr (ind \<or> func_indirect f, bb_once.sched_all (func_succs t f) s)"
  by (simp add: explore_func_def explore_inss_eq func_marked_def func_indirect_def func_succs_def)

lemma func_succs_table: "g \<in> set (func_succs t f) \<Longrightarrow> g \<in> snd ` set t"
  by (auto simp: func_succs_def store_succs_def split: option.splits sum.splits
      dest: map_filter_table)

lemma explore_func_InrD:
  assumes "explore_func t f (ind, s) = Inr (ind', s')"
  shows "func_marked f" and "s' = bb_once.sched_all (func_succs t f) s"
    and "ind' = (ind \<or> func_indirect f)"
proof -
  show m: "func_marked f" using assms explore_func_bad [of f t "(ind, s)"] by auto
  show "s' = bb_once.sched_all (func_succs t f) s" "ind' = (ind \<or> func_indirect f)"
    using assms by (simp_all add: explore_func_eq [OF m])
qed

section \<open>The loop\<close>

function explore_loop :: "bbtable \<Rightarrow> bool \<times> explore_state \<Rightarrow> (bool \<times> explore_state) res" where
  "explore_loop allBBs (hasIndirectJump, s) =
     (case es_todo s of
        [] \<Rightarrow> Inr (hasIndirectJump, s)
      | f # fs \<Rightarrow> (case explore_func allBBs f (hasIndirectJump, s\<lparr>es_todo := fs\<rparr>) of
            Inl e \<Rightarrow> Inl e
          | Inr st \<Rightarrow> explore_loop allBBs st))"
  by pat_completeness auto

text \<open>
  Every round takes one block off the list, and puts on it only blocks that were not explored:
  the number of unexplored table entries plus the length of the list goes down.
\<close>

termination explore_loop
proof (relation "measure (\<lambda>(t, st). bb_once.potential (table_ids t) (snd st))")
  fix t :: bbtable and ind :: bool and s :: explore_state and f fs st
  assume todo: "es_todo s = f # fs" and run: "explore_func t f (ind, s\<lparr>es_todo := fs\<rparr>) = Inr st"
  obtain ind' s' where st: "st = (ind', s')" by (cases st)
  have s': "s' = bb_once.sched_all (func_succs t f) (s\<lparr>es_todo := fs\<rparr>)"
    using explore_func_InrD(2) run st by blast
  have "fid ` set (func_succs t f) \<subseteq> table_ids t"
    using func_succs_table by (force simp: table_ids_def)
  then have "bb_once.potential (table_ids t) s'
      \<le> bb_once.potential (table_ids t) (s\<lparr>es_todo := fs\<rparr>)"
    unfolding s' by (rule bb_once.potential_sched_all [OF finite_table_ids])
  also have "\<dots> < bb_once.potential (table_ids t) s"
    by (simp add: bb_once.potential_def todo)
  finally show "((t, st), (t, ind, s)) \<in> measure (\<lambda>(t, st). bb_once.potential (table_ids t) (snd st))"
    by (simp add: st)
qed simp

declare explore_loop.simps [simp del]

definition explore_init :: "func \<Rightarrow> explore_state" where
  "explore_init startBB = \<lparr>es_todo = [startBB], es_funcs = [startBB], es_explored = {fid startBB}\<rparr>"

text \<open>The result: the basic blocks of the function and \<open>hasIndirectJump\<close>.\<close>

definition exploreBB :: "bbtable \<Rightarrow> func \<Rightarrow> (func list \<times> bool) res" where
  "exploreBB allBBs startBB =
     rbind (explore_loop allBBs (False, explore_init startBB)) (\<lambda>(hasIndirectJump, s).
       Inr (es_funcs s, hasIndirectJump))"

section \<open>Reachability\<close>

definition bb_edge :: "bbtable \<Rightarrow> func \<Rightarrow> func \<Rightarrow> bool" where
  "bb_edge t f g \<longleftrightarrow> g \<in> set (func_succs t f)"

definition bb_reach :: "bbtable \<Rightarrow> func \<Rightarrow> func \<Rightarrow> bool" where
  "bb_reach t = (bb_edge t)\<^sup>*\<^sup>*"

text \<open>One identity names one function: the pointers of the table and the start are coherent.\<close>

definition coherent :: "bbtable \<Rightarrow> func \<Rightarrow> bool" where
  "coherent t f \<longleftrightarrow> inj_on fid (insert f (snd ` set t))"

text \<open>
  The loop invariant. The blocks off the list are marked and closed: their successors are
  explored; everything explored is reachable.
\<close>

definition expanded :: "explore_state \<Rightarrow> func set" where
  "expanded s = {f \<in> set (es_funcs s). fid f \<notin> fid ` set (es_todo s)}"

definition explore_inv :: "bbtable \<Rightarrow> func \<Rightarrow> bool \<times> explore_state \<Rightarrow> bool" where
  "explore_inv t f0 st \<longleftrightarrow> (case st of (ind, s) \<Rightarrow>
     bb_once.sound s \<and> set (es_todo s) \<subseteq> set (es_funcs s)
   \<and> es_explored s = fid ` set (es_funcs s) \<and> distinct (map fid (es_funcs s))
   \<and> (\<exists>fs. es_funcs s = f0 # fs \<and> set fs \<subseteq> snd ` set t)
   \<and> (\<forall>f \<in> set (es_funcs s). bb_reach t f0 f)
   \<and> (\<forall>f \<in> expanded s. func_marked f \<and> set (func_succs t f) \<subseteq> set (es_funcs s))
   \<and> (ind \<longleftrightarrow> (\<exists>f \<in> expanded s. func_indirect f)))"

section \<open>The loop invariant holds\<close>

lemma sched_all_new:
  obtains ys where
    "es_funcs (bb_once.sched_all xs s) = es_funcs s @ ys"
    "es_todo (bb_once.sched_all xs s) = es_todo s @ ys"
    "es_explored (bb_once.sched_all xs s) = es_explored s \<union> fid ` set ys"
    "set ys \<subseteq> set xs" "distinct (map fid ys)" "fid ` set ys \<inter> es_explored s = {}"
proof -
  have "\<exists>ys. es_funcs (bb_once.sched_all xs s) = es_funcs s @ ys
      \<and> es_todo (bb_once.sched_all xs s) = es_todo s @ ys
      \<and> es_explored (bb_once.sched_all xs s) = es_explored s \<union> fid ` set ys
      \<and> set ys \<subseteq> set xs \<and> distinct (map fid ys) \<and> fid ` set ys \<inter> es_explored s = {}"
  proof (induction xs arbitrary: s)
    case Nil
    show ?case by (rule exI [of _ "[]"]) simp
  next
    case (Cons x xs)
    show ?case
    proof (cases "fid x \<in> es_explored s")
      case True
      then have "push_bb x s = s" by (simp add: push_bb_def)
      with Cons.IH [of s] show ?thesis by auto
    next
      case False
      from Cons.IH [of "push_bb x s"] obtain ys where
        "es_funcs (bb_once.sched_all xs (push_bb x s)) = es_funcs (push_bb x s) @ ys"
        "es_todo (bb_once.sched_all xs (push_bb x s)) = es_todo (push_bb x s) @ ys"
        "es_explored (bb_once.sched_all xs (push_bb x s)) = es_explored (push_bb x s) \<union> fid ` set ys"
        "set ys \<subseteq> set xs" "distinct (map fid ys)" "fid ` set ys \<inter> es_explored (push_bb x s) = {}"
        by blast
      moreover from False have "es_funcs (push_bb x s) = es_funcs s @ [x]"
        "es_todo (push_bb x s) = es_todo s @ [x]"
        "es_explored (push_bb x s) = insert (fid x) (es_explored s)"
        by (simp_all add: push_bb_def)
      ultimately show ?thesis using False by (intro exI [of _ "x # ys"]) auto
    qed
  qed
  then show ?thesis using that by blast
qed

lemma explore_inv_init: "explore_inv t f (False, explore_init f)"
  by (simp add: explore_inv_def explore_init_def bb_once.sound_def expanded_def bb_reach_def)

lemma explore_inv_step:
  assumes inv: "explore_inv t f0 (ind, s)" and co: "coherent t f0" and todo: "es_todo s = f # fs"
    and run: "explore_func t f (ind, s\<lparr>es_todo := fs\<rparr>) = Inr (ind', s')"
  shows "explore_inv t f0 (ind', s')"
proof -
  note [simp] = todo
  from explore_func_InrD [OF run] have m: "func_marked f"
    and s': "s' = bb_once.sched_all (func_succs t f) (s\<lparr>es_todo := fs\<rparr>)"
    and ind': "ind' = (ind \<or> func_indirect f)" by simp_all
  obtain ys where ys: "es_funcs s' = es_funcs s @ ys" "es_todo s' = fs @ ys"
    "es_explored s' = es_explored s \<union> fid ` set ys" "set ys \<subseteq> set (func_succs t f)"
    "distinct (map fid ys)" "fid ` set ys \<inter> es_explored s = {}"
    unfolding s' by (rule sched_all_new [of "func_succs t f" "s\<lparr>es_todo := fs\<rparr>"]) simp
  from inv have i: "bb_once.sound s" "set (es_todo s) \<subseteq> set (es_funcs s)"
    "es_explored s = fid ` set (es_funcs s)" "distinct (map fid (es_funcs s))"
    "\<forall>f \<in> set (es_funcs s). bb_reach t f0 f"
    "\<forall>f \<in> expanded s. func_marked f \<and> set (func_succs t f) \<subseteq> set (es_funcs s)"
    "ind \<longleftrightarrow> (\<exists>f \<in> expanded s. func_indirect f)"
    by (auto simp: explore_inv_def)
  obtain gs where gs: "es_funcs s = f0 # gs" "set gs \<subseteq> snd ` set t"
    using inv by (auto simp: explore_inv_def)
  have f: "f \<in> set (es_funcs s)" "fid f \<notin> fid ` set fs"
    using i(1,2) by (auto simp: bb_once.sound_def)
  have inj: "g = h" if "g \<in> set (es_funcs s)" "h \<in> set (es_funcs s)" "fid g = fid h" for g h
    using i(4) that by (auto simp: distinct_map inj_on_def)
  have ex: "expanded s' = insert f (expanded s)"
  proof (rule set_eqI)
    fix g
    have "g \<in> expanded s' \<longleftrightarrow> g \<in> set (es_funcs s) \<and> fid g \<notin> fid ` set fs"
      using i(3) ys(6) by (auto simp: expanded_def ys(1,2))
    moreover have "g \<in> expanded s \<longleftrightarrow> g \<in> set (es_funcs s) \<and> fid g \<noteq> fid f \<and> fid g \<notin> fid ` set fs"
      by (simp add: expanded_def)
    ultimately show "g \<in> expanded s' \<longleftrightarrow> g \<in> insert f (expanded s)"
      using f inj [of g f] by (metis insert_iff)
  qed
  have all: "set (es_funcs s') \<subseteq> insert f0 (snd ` set t)"
    using gs ys(1,4) func_succs_table [of _ t f] by auto
  have closed: "set (func_succs t f) \<subseteq> set (es_funcs s')"
  proof
    fix g assume g: "g \<in> set (func_succs t f)"
    then have "fid g \<in> es_explored s'"
      unfolding s' by (simp add: bb_once.seen_sched_all)
    then obtain h where h: "h \<in> set (es_funcs s')" "fid g = fid h"
      using i(3) ys(1,3) by auto
    have "g = h"
      using co h all func_succs_table [OF g] by (auto simp: coherent_def inj_on_def)
    with h show "g \<in> set (es_funcs s')" by simp
  qed
  have "bb_once.sound (s\<lparr>es_todo := fs\<rparr>)"
    using i(1) by (simp add: bb_once.sound_def)
  then have "bb_once.sound s'" unfolding s' by (rule bb_once.sound_sched_all)
  moreover have "bb_reach t f0 g" if "g \<in> set (es_funcs s')" for g
  proof (cases "g \<in> set ys")
    case True
    then have "bb_edge t f g" using ys(4) by (auto simp: bb_edge_def)
    with f(1) i(5) show ?thesis unfolding bb_reach_def by (meson rtranclp.rtrancl_into_rtrancl)
  next
    case False
    with that i(5) show ?thesis by (simp add: ys(1))
  qed
  moreover have "distinct (map fid (es_funcs s'))"
    using i(3,4) ys(1,5,6) by auto
  moreover have "func_marked g \<and> set (func_succs t g) \<subseteq> set (es_funcs s')" if "g \<in> expanded s'" for g
    using that i(6) m closed ys(1) by (auto simp: ex)
  moreover have "\<exists>gs. es_funcs s' = f0 # gs \<and> set gs \<subseteq> snd ` set t"
    using gs ys(1,4) func_succs_table [of _ t f] by auto
  moreover have "set (es_todo s') \<subseteq> set (es_funcs s')" "es_explored s' = fid ` set (es_funcs s')"
    using i(2,3) ys by auto
  moreover have "ind' \<longleftrightarrow> (\<exists>f \<in> expanded s'. func_indirect f)"
    using i(7) by (auto simp: ind' ex)
  ultimately show ?thesis unfolding explore_inv_def by simp
qed

lemma explore_loop_inv:
  assumes "explore_loop t st = Inr st'" and "explore_inv t f0 st" and "coherent t f0"
  shows "explore_inv t f0 st' \<and> es_todo (snd st') = []"
  using assms
proof (induction t st rule: explore_loop.induct)
  case (1 t ind s)
  show ?case
  proof (cases "es_todo s")
    case Nil
    with 1(2,3) show ?thesis by (auto simp: explore_loop.simps)
  next
    case (Cons f fs)
    with 1(2) obtain st1 where run: "explore_func t f (ind, s\<lparr>es_todo := fs\<rparr>) = Inr st1"
      and rest: "explore_loop t st1 = Inr st'"
      by (auto simp: explore_loop.simps split: sum.splits)
    have "explore_inv t f0 st1"
      using explore_inv_step [OF 1(3,4) Cons] run by (cases st1) simp
    with 1(1) [OF Cons run rest] 1(4) show ?thesis by blast
  qed
qed

text \<open>A fault of the loop comes from a block that is reachable and not properly marked.\<close>

lemma explore_loop_fault:
  assumes "explore_loop t st = Inl e" and "explore_inv t f0 st" and "coherent t f0"
  shows "\<exists>f. bb_reach t f0 f \<and> \<not> func_marked f"
  using assms
proof (induction t st rule: explore_loop.induct)
  case (1 t ind s)
  show ?case
  proof (cases "es_todo s")
    case Nil
    with 1(2) show ?thesis by (simp add: explore_loop.simps)
  next
    case (Cons f fs)
    show ?thesis
    proof (cases "explore_func t f (ind, s\<lparr>es_todo := fs\<rparr>)")
      case (Inl e')
      then have "\<not> func_marked f" using explore_func_eq by fastforce
      moreover have "bb_reach t f0 f" using 1(3) Cons by (auto simp: explore_inv_def)
      ultimately show ?thesis by blast
    next
      case run: (Inr st1)
      then have "explore_loop t st1 = Inl e" using 1(2) Cons by (simp add: explore_loop.simps)
      moreover have "explore_inv t f0 st1"
        using explore_inv_step [OF 1(3,4) Cons] run by (cases st1) simp
      ultimately show ?thesis using 1(1) [OF Cons run] 1(4) by blast
    qed
  qed
qed

lemma explore_spec:
  assumes "exploreBB t f0 = Inr (fs, ind)" and "coherent t f0"
  shows "set fs = {g. bb_reach t f0 g}" and "distinct (map fid fs)"
    and "\<exists>gs. fs = f0 # gs" and "ind \<longleftrightarrow> (\<exists>g \<in> set fs. func_indirect g)"
    and "\<forall>g \<in> set fs. func_marked g"
proof -
  obtain s where run: "explore_loop t (False, explore_init f0) = Inr (ind, s)" and fs: "fs = es_funcs s"
    using assms(1) by (auto simp: exploreBB_def rbind_eq_Inr)
  from explore_loop_inv [OF run explore_inv_init assms(2)]
  have inv: "explore_inv t f0 (ind, s)" and todo: "es_todo s = []" by simp_all
  have ex: "expanded s = set fs" by (simp add: expanded_def todo fs)
  show "distinct (map fid fs)" "\<exists>gs. fs = f0 # gs" "ind \<longleftrightarrow> (\<exists>g \<in> set fs. func_indirect g)"
    "\<forall>g \<in> set fs. func_marked g"
    using inv by (auto simp: explore_inv_def ex fs)
  have "g \<in> set fs" if "bb_reach t f0 g" for g
    using that unfolding bb_reach_def
  proof (induction rule: rtranclp_induct)
    case base
    show ?case using inv by (auto simp: explore_inv_def fs)
  next
    case (step g h)
    then show ?case using inv by (auto simp: explore_inv_def ex bb_edge_def fs)
  qed
  with inv show "set fs = {g. bb_reach t f0 g}" by (auto simp: explore_inv_def fs)
qed

lemma explore_total:
  assumes "coherent t f0"
  shows "(\<exists>r. exploreBB t f0 = Inr r) \<longleftrightarrow> (\<forall>g. bb_reach t f0 g \<longrightarrow> func_marked g)"
proof
  assume "\<exists>r. exploreBB t f0 = Inr r"
  then obtain fs ind where r: "exploreBB t f0 = Inr (fs, ind)" by auto
  from explore_spec(1,5) [OF r assms] show "\<forall>g. bb_reach t f0 g \<longrightarrow> func_marked g" by auto
next
  assume "\<forall>g. bb_reach t f0 g \<longrightarrow> func_marked g"
  then have "explore_loop t (False, explore_init f0) \<noteq> Inl e" for e
    using explore_loop_fault [OF _ explore_inv_init assms, of e] by blast
  then obtain st where "explore_loop t (False, explore_init f0) = Inr st"
    by (cases "explore_loop t (False, explore_init f0)") auto
  then show "\<exists>r. exploreBB t f0 = Inr r" by (cases st) (simp add: exploreBB_def)
qed

section \<open>The marks and where they lead\<close>

text \<open>
  The specification, in terms of the metadata alone: where a marked store to \<open>PC\<close> leads, and which marks
  are complete.
\<close>

definition md_pc :: "instr \<Rightarrow> string \<Rightarrow> u64 option" where
  "md_pc i k = (case getHexMetadataFromIns i k of Inl e \<Rightarrow> None | Inr pc \<Rightarrow> Some pc)"

definition marked_call :: "instr \<Rightarrow> bool" where
  "marked_call i \<longleftrightarrow> has_md i ''INS_directCall'' \<or> has_md i ''INS_indirectCall''"

definition marked_indirect :: "instr \<Rightarrow> bool" where
  "marked_indirect i \<longleftrightarrow> \<not> marked_call i \<and> \<not> has_md i ''INS_directJump'' \<and> has_md i ''INS_indirectJump''"

inductive jumps_to :: "instr \<Rightarrow> u64 \<Rightarrow> bool" for i where
  call: "marked_call i \<Longrightarrow> md_pc i ''INS_callReturn'' = Some pc \<Longrightarrow> jumps_to i pc"
| direct: "\<not> marked_call i \<Longrightarrow> md_pc i ''INS_directJump'' = Some pc \<Longrightarrow> jumps_to i pc"
| entry: "marked_indirect i \<Longrightarrow> md_pc i ''INS_switch_cnt'' = Some n \<Longrightarrow> k < unat n \<Longrightarrow>
    md_pc i (case_name k) = Some pc \<Longrightarrow> jumps_to i pc"
| fallback: "marked_indirect i \<Longrightarrow> has_md i ''INS_switch_cnt'' \<Longrightarrow> md_pc i ''INS_switch_default'' = Some pc \<Longrightarrow>
    jumps_to i pc"

definition well_marked :: "instr \<Rightarrow> bool" where
  "well_marked i \<longleftrightarrow>
     (if marked_call i then md_pc i ''INS_callReturn'' \<noteq> None
      else if has_md i ''INS_directJump'' then md_pc i ''INS_directJump'' \<noteq> None
      else if has_md i ''INS_indirectJump'' then
        has_md i ''INS_switch_cnt'' \<longrightarrow>
          (\<exists>n. md_pc i ''INS_switch_cnt'' = Some n \<and> (\<forall>k < unat n. md_pc i (case_name k) \<noteq> None))
          \<and> md_pc i ''INS_switch_default'' \<noteq> None
      else has_md i ''INS_return'')"

text \<open>The stores to \<open>PC\<close> of a translated block, and the edges and paths between blocks.\<close>

definition pc_stores :: "func \<Rightarrow> instr set" where
  "pc_stores f = {i \<in> set (func_ins f). store_to ''PC'' i \<noteq> None}"

definition flows :: "bbtable \<Rightarrow> func \<Rightarrow> func \<Rightarrow> bool" where
  "flows t f g \<longleftrightarrow> (\<exists>i \<in> pc_stores f. \<exists>pc. jumps_to i pc \<and> map_of t pc = Some g)"

lemma md_pc_Some: "md_pc i k = Some pc \<longleftrightarrow> getHexMetadataFromIns i k = Inr pc"
  by (simp add: md_pc_def split: sum.split)

lemma md_pc_has: "md_pc i k = Some pc \<Longrightarrow> has_md i k"
  by (simp add: md_pc_Some getHex_Inr_has)

lemma read_cases_iff: "(\<exists>ts. read_cases i n = Inr ts) \<longleftrightarrow> (\<forall>k < n. md_pc i (case_name k) \<noteq> None)"
  unfolding read_cases_def rmap_total_iff
  by (auto simp: rbind_eq_Inr md_pc_Some dest: getHex_Inr_has split: option.splits)

lemma read_cases_set: "read_cases i n = Inr ts \<Longrightarrow> set ts = {pc. \<exists>k < n. md_pc i (case_name k) = Some pc}"
proof
  assume r: "read_cases i n = Inr ts"
  note r' = r [unfolded read_cases_def]
  show "set ts \<subseteq> {pc. \<exists>k < n. md_pc i (case_name k) = Some pc}"
    using rmap_set [OF r'] by (fastforce simp: rbind_eq_Inr md_pc_Some)
  show "{pc. \<exists>k < n. md_pc i (case_name k) = Some pc} \<subseteq> set ts"
  proof
    fix pc assume "pc \<in> {pc. \<exists>k < n. md_pc i (case_name k) = Some pc}"
    then obtain k where k: "k < n" "getHexMetadataFromIns i (case_name k) = Inr pc" by (auto simp: md_pc_Some)
    from rmap_nth [OF r', of k] k have "ts ! k = pc" by (simp add: rbind_eq_Inr)
    then show "pc \<in> set ts" using k(1) rmap_length [OF r'] by auto
  qed
qed

lemma next_pcs_iff: "(\<exists>pcs ind. next_pcs i = Inr (pcs, ind)) \<longleftrightarrow> well_marked i"
proof (cases "marked_indirect i \<and> has_md i ''INS_switch_cnt''")
  case False
  then show ?thesis
    by (auto simp: next_pcs_def well_marked_def marked_call_def marked_indirect_def rbind_eq_Inr md_pc_Some
        dest: getHex_Inr_has)
next
  case True
  then have w: "well_marked i \<longleftrightarrow> (\<exists>n. md_pc i ''INS_switch_cnt'' = Some n \<and> (\<exists>ts. read_cases i (unat n) = Inr ts))
      \<and> md_pc i ''INS_switch_default'' \<noteq> None"
    by (simp add: well_marked_def marked_indirect_def read_cases_iff)
  from True show ?thesis unfolding w
    by (auto simp: next_pcs_def marked_call_def marked_indirect_def rbind_eq_Inr md_pc_Some)
qed

lemma next_pcs_jumps: "next_pcs i = Inr (pcs, ind) \<Longrightarrow> set pcs = {pc. jumps_to i pc} \<and> ind = marked_indirect i"
  by (auto simp: next_pcs_def jumps_to.simps marked_call_def marked_indirect_def rbind_eq_Inr md_pc_Some
      read_cases_set dest: getHex_Inr_has split: if_splits)

lemma store_marked_iff: "store_marked i \<longleftrightarrow> store_to ''PC'' i = None \<or> well_marked i"
  using next_pcs_iff [of i] by (auto simp: store_marked_def split: sum.splits)

lemma func_marked_iff: "func_marked f \<longleftrightarrow> (\<forall>i \<in> pc_stores f. well_marked i)"
  by (auto simp: func_marked_def store_marked_iff pc_stores_def)

lemma map_filter_set: "set (List.map_filter h xs) = {y. \<exists>x \<in> set xs. h x = Some y}"
  by (force simp: map_filter_def)

lemma bb_edge_flows_sub: "bb_edge t f g \<Longrightarrow> flows t f g"
proof -
  assume "bb_edge t f g"
  then obtain i where i: "i \<in> set (func_ins f)" "g \<in> set (store_succs t i)" by (auto simp: bb_edge_def func_succs_def)
  then obtain v where v: "store_to ''PC'' i = Some v" by (cases "store_to ''PC'' i") (simp_all add: store_succs_def)
  with i(2) obtain pcs ind where n: "next_pcs i = Inr (pcs, ind)"
    by (cases "next_pcs i") (auto simp: store_succs_def)
  with i(2) v have "\<exists>pc \<in> set pcs. map_of t pc = Some g" by (simp add: store_succs_def map_filter_set)
  with next_pcs_jumps [OF n] i(1) v show "flows t f g" by (auto simp: flows_def pc_stores_def)
qed

lemma bb_edge_flows: "func_marked f \<Longrightarrow> bb_edge t f g \<longleftrightarrow> flows t f g"
proof -
  assume m: "func_marked f"
  have "g \<in> set (store_succs t i) \<longleftrightarrow> (\<exists>pc. jumps_to i pc \<and> map_of t pc = Some g)"
    if "i \<in> pc_stores f" for i
  proof -
    have "well_marked i" using m that by (simp add: func_marked_iff)
    then obtain pcs ind where "next_pcs i = Inr (pcs, ind)" using next_pcs_iff [of i] by blast
    moreover from next_pcs_jumps [OF this] have "set pcs = {pc. jumps_to i pc}" by blast
    ultimately show ?thesis using that by (auto simp: store_succs_def pc_stores_def map_filter_set)
  qed
  then have "flows t f g \<Longrightarrow> bb_edge t f g"
    unfolding flows_def bb_edge_def func_succs_def by (auto simp: pc_stores_def)
  with bb_edge_flows_sub show ?thesis by blast
qed

lemma func_indirect_iff: "func_marked f \<Longrightarrow> func_indirect f \<longleftrightarrow> (\<exists>i \<in> pc_stores f. marked_indirect i)"
proof -
  assume m: "func_marked f"
  have "ins_indirect i \<longleftrightarrow> marked_indirect i" if "i \<in> pc_stores f" for i
    using m that next_pcs_iff [of i] next_pcs_jumps [of i]
    by (auto simp: func_marked_iff ins_indirect_def pc_stores_def split: sum.splits)
  then show ?thesis by (auto simp: func_indirect_def pc_stores_def ins_indirect_def)
qed

lemma reach_flows:
  assumes "\<forall>g. (flows t)\<^sup>*\<^sup>* f g \<longrightarrow> func_marked g"
  shows "(flows t)\<^sup>*\<^sup>* f g \<longleftrightarrow> bb_reach t f g"
proof
  assume "(flows t)\<^sup>*\<^sup>* f g"
  then show "bb_reach t f g" unfolding bb_reach_def
  proof (induction rule: rtranclp_induct)
    case base
    show ?case by simp
  next
    case (step g h)
    then show ?case using assms bb_edge_flows [of g t h] by (meson rtranclp.rtrancl_into_rtrancl)
  qed
next
  assume "bb_reach t f g"
  then show "(flows t)\<^sup>*\<^sup>* f g" unfolding bb_reach_def
    by (rule rtranclp_mono [THEN predicate2D, rotated]) (auto intro: bb_edge_flows_sub)
qed

lemma reach_marked:
  "(\<forall>g. bb_reach t f g \<longrightarrow> func_marked g) \<longleftrightarrow> (\<forall>g. (flows t)\<^sup>*\<^sup>* f g \<longrightarrow> func_marked g)"
proof
  assume m: "\<forall>g. bb_reach t f g \<longrightarrow> func_marked g"
  have "bb_reach t f g" if "(flows t)\<^sup>*\<^sup>* f g" for g
    using that unfolding bb_reach_def
  proof (induction rule: rtranclp_induct)
    case (step g h)
    then show ?case using m bb_edge_flows [of g t h] unfolding bb_reach_def by (meson rtranclp.rtrancl_into_rtrancl)
  qed simp
  with m show "\<forall>g. (flows t)\<^sup>*\<^sup>* f g \<longrightarrow> func_marked g" by blast
qed (use reach_flows in blast)

section \<open>Properties\<close>

text \<open>
  C1. \<open>exploreBB\<close> returns, without repetition and beginning with the start block, exactly the basic
  blocks reachable along the marked stores to \<open>PC\<close>, and \<open>hasIndirectJump\<close> exactly when one of them
  contains an indirect jump.
\<close>

theorem exploreBB_reachable:
  assumes "exploreBB allBBs startBB = Inr (BBsForThisFunction, hasIndirectJump)"
    and "coherent allBBs startBB"
  shows "set BBsForThisFunction = {g. (flows allBBs)\<^sup>*\<^sup>* startBB g}
    \<and> distinct (map fid BBsForThisFunction) \<and> hd BBsForThisFunction = startBB
    \<and> (hasIndirectJump \<longleftrightarrow> (\<exists>g \<in> set BBsForThisFunction. \<exists>i \<in> pc_stores g. marked_indirect i))"
proof -
  note e = explore_spec [OF assms]
  have "\<forall>g. (flows allBBs)\<^sup>*\<^sup>* startBB g \<longrightarrow> func_marked g" using e(1,5) reach_marked by blast
  with e(1) have "set BBsForThisFunction = {g. (flows allBBs)\<^sup>*\<^sup>* startBB g}" using reach_flows by blast
  with e show ?thesis by (auto simp: func_indirect_iff)
qed

text \<open>
  C2. The worklist always ends, and it ends in a fault exactly when some reachable basic block has
  a store to \<open>PC\<close> that is not properly marked (no mark at all, a call without its return address, a
  switch without one of its cases, a value that is not hexadecimal text).
\<close>

theorem exploreBB_total_iff:
  assumes "coherent allBBs startBB"
  shows "(\<exists>r. exploreBB allBBs startBB = Inr r)
    \<longleftrightarrow> (\<forall>g. (flows allBBs)\<^sup>*\<^sup>* startBB g \<longrightarrow> (\<forall>i \<in> pc_stores g. well_marked i))"
  using explore_total [OF assms] reach_marked [of allBBs startBB] unfolding func_marked_iff by blast

text \<open>
  A loop of two blocks: block 0 jumps to block 8, which jumps back; block 16 is not reachable.
\<close>

definition jump_bb :: "nat \<Rightarrow> u64 \<Rightarrow> func" where
  "jump_bb n target = \<lparr>fid = n, fname = ''void-tcg-llvm-tb'', fblocks =
     [\<lparr>bid = n, bname = ''entry'', bins =
        [set_md (mk_ins n (Store (ConstInt 32 target) (GlobalVar ''PC''))) ''INS_directJump'' (hex_node target)]\<rparr>]\<rparr>"

definition loop_table :: bbtable where
  "loop_table = [(0, jump_bb 2 8), (8, jump_bb 3 0), (16, jump_bb 4 0)]"

lemma jump_bb_succs:
  "unat target < 2 ^ 63 \<Longrightarrow> func_succs t (jump_bb n target) = List.map_filter (map_of t) [target]"
  "func_marked (jump_bb n target)" "\<not> func_indirect (jump_bb n target)" "fid (jump_bb n target) = n"
  by (simp_all add: func_succs_def store_succs_def jump_bb_def func_ins_def store_to_def next_pcs_def
      has_md_def func_marked_def func_indirect_def store_marked_def ins_indirect_def)

lemma loop_coherent: "coherent loop_table (jump_bb 2 8)"
  by (simp add: coherent_def loop_table_def inj_on_def jump_bb_def)

lemma jump_bb_marks:
  "i \<in> pc_stores (jump_bb n target) \<Longrightarrow> well_marked i" "i \<in> pc_stores (jump_bb n target) \<Longrightarrow> \<not> marked_indirect i"
  using jump_bb_succs(2) by (auto simp: func_marked_iff) (simp add: pc_stores_def jump_bb_def func_ins_def marked_indirect_def)

lemma loop_flows: "flows loop_table (jump_bb 2 8) g \<longleftrightarrow> g = jump_bb 3 0" "flows loop_table (jump_bb 3 0) g \<longleftrightarrow> g = jump_bb 2 8"
  by (auto simp: bb_edge_flows [symmetric] jump_bb_succs bb_edge_def loop_table_def map_filter_def)

lemma loop_reach: "(flows loop_table)\<^sup>*\<^sup>* (jump_bb 2 8) g \<longleftrightarrow> g = jump_bb 2 8 \<or> g = jump_bb 3 0"
proof
  assume "(flows loop_table)\<^sup>*\<^sup>* (jump_bb 2 8) g"
  then show "g = jump_bb 2 8 \<or> g = jump_bb 3 0"
    by (induction rule: rtranclp_induct) (auto simp: loop_flows)
qed (auto simp: loop_flows)

theorem exploreBB_total_iff_witness: "\<exists>r. exploreBB loop_table (jump_bb 2 8) = Inr r"
  using exploreBB_total_iff [OF loop_coherent] loop_reach jump_bb_marks(1) by metis

lemma loop_runs: "\<exists>r. exploreBB loop_table (jump_bb 2 8) = Inr r"
  using explore_total [OF loop_coherent] reach_marked loop_reach jump_bb_succs(2) by metis

theorem exploreBB_reachable_witness:
  "\<exists>fs. exploreBB loop_table (jump_bb 2 8) = Inr (fs, False)
     \<and> set fs = {jump_bb 2 8, jump_bb 3 0}"
proof -
  obtain fs ind where r: "exploreBB loop_table (jump_bb 2 8) = Inr (fs, ind)"
    using loop_runs by auto
  note t = exploreBB_reachable [OF r loop_coherent]
  have "set fs = {jump_bb 2 8, jump_bb 3 0}" using t by (auto simp: loop_reach)
  moreover from this have "\<not> ind" using t jump_bb_marks(2) by auto
  ultimately show ?thesis using r by auto
qed

end
