(* ===== verification/Build_Fixups.thy ===== *)
theory Build_Fixups
  imports Explore_BBs
begin

unbundle bit_operations_syntax

text \<open>
  The second half of \<open>BuildFunctions\<close>: \<open>inlineBBs\<close> gathers the explored basic blocks in one
  function, \<open>buildBBMap\<close> indexes its blocks by program counter, and four fix-ups turn the marked
  stores to \<open>PC\<close> into branches, switches and returns. All four have one shape, a list of edits
  (append a terminator, maybe erase the store) followed by the removal of the fake returns;
  \<open>apply_edits\<close> is that shape, and one lemma about it carries the theorems.
  \<open>CloneFunctionInto\<close> is LLVM's and is a parameter.
\<close>

section \<open>Building instructions and blocks\<close>

text \<open>\<open>BranchInst::Create(target, bb)\<close> and its like: append to the block.\<close>

definition append_ins :: "nat \<Rightarrow> ikind \<Rightarrow> func \<Rightarrow> func" where
  "append_ins b k F = map_blocks (\<lambda>B. if bid B = b
      then B\<lparr>bins := bins B @ [mk_ins (fresh_iid F) k]\<rparr> else B) F"

text \<open>\<open>BasicBlock::Create\<close> at the end of the function, with a \<open>ret\<close>.\<close>

definition add_ret_block :: "string \<Rightarrow> func \<Rightarrow> func \<times> nat" where
  "add_ret_block nm F = (F\<lparr>fblocks := fblocks F @
      [\<lparr>bid = fresh_bid F, bname = nm, bins = [mk_ins (fresh_iid F) (Ret None)]\<rparr>]\<rparr>, fresh_bid F)"

text \<open>An edit: the block that gets a new last instruction, and the store erased afterwards.\<close>

type_synonym edit = "nat \<times> nat option \<times> ikind"

definition apply_edit :: "edit \<Rightarrow> func \<Rightarrow> func res" where
  "apply_edit e F = (case e of (b, n, k) \<Rightarrow>
     (case n of None \<Rightarrow> Inr (append_ins b k F) | Some m \<Rightarrow> erase_from_parent m (append_ins b k F)))"

definition apply_edits :: "edit list \<Rightarrow> func \<Rightarrow> func res" where
  "apply_edits es F = rfold apply_edit es F"

definition fake_return_ids :: "func \<Rightarrow> nat \<Rightarrow> nat list" where
  "fake_return_ids F b = concat (map (\<lambda>B. if bid B = b
      then map iid (filter (\<lambda>i. has_md i ''INS_fakeReturn'') (bins B)) else []) (fblocks F))"

definition cleanupFakeReturns :: "nat list \<Rightarrow> func \<Rightarrow> func res" where
  "cleanupFakeReturns bbToUpdate F = erase_all (concat (map (fake_return_ids F) bbToUpdate)) F"

section \<open>The index by program counter\<close>

definition bb_map_step :: "bblock \<Rightarrow> (u64 \<rightharpoonup> nat) \<Rightarrow> (u64 \<rightharpoonup> nat) res" where
  "bb_map_step b bbMap = rbind (require (bins b \<noteq> []) (AssertFailed ''begin != end'')) (\<lambda>_.
     if bname b \<noteq> ''fake_indirect_bb'' \<and> has_md (hd (bins b)) ''BB_pcStart'' then
       rbind (getBBStart (hd (bins b))) (\<lambda>pcStart.
         if bbMap pcStart \<noteq> None then Inr bbMap else Inr (bbMap(pcStart \<mapsto> bid b)))
     else Inr bbMap)"

definition buildBBMap :: "func \<Rightarrow> (u64 \<rightharpoonup> nat) res" where
  "buildBBMap newFunc = rfold bb_map_step (fblocks newFunc) Map.empty"

section \<open>Calls\<close>

text \<open>
  One instruction of the collecting loop of \<open>fixupCalls\<close>. The state is the target of the block, if
  it has one already. (The lookup \<open>bbMap[nextPC]\<close> inserts a null entry for a missing key; every
  later use tests for null, and the map is rebuilt right after, so the entry is not observed.)
\<close>

definition fix_call_ins :: "(u64 \<rightharpoonup> nat) \<Rightarrow> instr \<Rightarrow> nat option \<Rightarrow> (instr \<times> nat option) res" where
  "fix_call_ins bbMap i target =
     (if has_md i ''INS_directCall'' \<or> has_md i ''INS_indirectCall'' then
        rbind (require (has_md i ''INS_callReturn'') (AssertFailed ''INS_callReturn'')) (\<lambda>_.
        rbind (getHexMetadataFromIns i ''INS_callReturn'') (\<lambda>nextPC.
          (case bbMap nextPC of
             None \<Rightarrow> Inr (set_md i ''INS_unresolvedCall'' true_node, target)
           | Some bbTarget \<Rightarrow>
               rbind (require (target = None) (AssertFailed ''bbToTargetBB'')) (\<lambda>_.
                 Inr (i, Some bbTarget)))))
      else Inr (i, target))"

fun fix_call_list :: "(u64 \<rightharpoonup> nat) \<Rightarrow> instr list \<Rightarrow> nat option \<Rightarrow> (instr list \<times> nat option) res" where
  "fix_call_list bbMap [] target = Inr ([], target)"
| "fix_call_list bbMap (i # is) target =
     rbind (fix_call_ins bbMap i target) (\<lambda>(i', target').
     rbind (fix_call_list bbMap is target') (\<lambda>(is', target''). Inr (i' # is', target'')))"

definition fix_call_block :: "(u64 \<rightharpoonup> nat) \<Rightarrow> bblock \<Rightarrow> (bblock \<times> nat option) res" where
  "fix_call_block bbMap b = rbind (fix_call_list bbMap (bins b) None) (\<lambda>(is', target).
     Inr (b\<lparr>bins := is'\<rparr>, target))"

definition fixupCalls :: "func \<Rightarrow> (u64 \<rightharpoonup> nat) \<Rightarrow> func res" where
  "fixupCalls newFunc bbMap = rbind (rmap (fix_call_block bbMap) (fblocks newFunc)) (\<lambda>rs.
     let newFunc' = newFunc\<lparr>fblocks := map fst rs\<rparr>;
         bbToUpdate = List.map_filter (\<lambda>(b, t). map_option (\<lambda>bbTarget. (bid b, bbTarget)) t) rs in
     rbind (apply_edits (map (\<lambda>(b, bbTarget). (b, None, Br bbTarget)) bbToUpdate) newFunc') (\<lambda>F'.
       cleanupFakeReturns (map fst bbToUpdate) F'))"

section \<open>Direct jumps\<close>

text \<open>The instructions of a function, each with its block.\<close>

definition placed_ins :: "func \<Rightarrow> (nat \<times> instr) list" where
  "placed_ins F = concat (map (\<lambda>B. map (Pair (bid B)) (bins B)) (fblocks F))"

definition direct_jump_edit :: "(u64 \<rightharpoonup> nat) \<Rightarrow> nat \<times> instr \<Rightarrow> edit list res" where
  "direct_jump_edit bbMap p = (case p of (b, i) \<Rightarrow>
     if has_md i ''INS_directJump'' then
       rbind (getHexMetadataFromIns i ''INS_directJump'') (\<lambda>nextPC.
         (case bbMap nextPC of
            None \<Rightarrow> Inr []
          | Some bbTarget \<Rightarrow> Inr [(b, Some (iid i), Br bbTarget)]))
     else Inr [])"

definition fixupDirectJumps :: "func \<Rightarrow> (u64 \<rightharpoonup> nat) \<Rightarrow> func res" where
  "fixupDirectJumps newFunc bbMap =
     rbind (rmap (direct_jump_edit bbMap) (placed_ins newFunc)) (\<lambda>ess.
     let es = concat ess in
     rbind (apply_edits es newFunc) (\<lambda>F'. cleanupFakeReturns (map fst es) F'))"

section \<open>Returns\<close>

definition return_edits :: "nat \<times> instr \<Rightarrow> edit list" where
  "return_edits p = (case p of (b, i) \<Rightarrow>
     if has_md i ''INS_return'' then [(b, Some (iid i), Ret None)] else [])"

definition fixupReturns :: "func \<Rightarrow> func res" where
  "fixupReturns newFunc =
     (let es = concat (map return_edits (placed_ins newFunc)) in
      rbind (apply_edits es newFunc) (\<lambda>F'. cleanupFakeReturns (map fst es) F'))"

section \<open>Indirect jumps\<close>

text \<open>
  \<open>__getValueSwitchedOn\<close>: depth first through the operands, inside the block of the store. A
  reference chain longer than the block repeats an instruction, and then the C++ recursion does
  not end; the fuel is therefore the number of instructions of the function plus one.
\<close>

fun switched_on :: "nat \<Rightarrow> func \<Rightarrow> nat \<Rightarrow> val \<Rightarrow> val option res"
  and switched_on_list :: "nat \<Rightarrow> func \<Rightarrow> nat \<Rightarrow> val list \<Rightarrow> val option res" where
  "switched_on 0 F b v = Inl OutOfFuel"
| "switched_on (Suc n) F b v = (case v of
     InsRef m \<Rightarrow> (case find (\<lambda>p. iid (snd p) = m) (placed_ins F) of
         None \<Rightarrow> Inr None
       | Some (b', ins) \<Rightarrow>
           if b' \<noteq> b then Inr None
           else (case ikind ins of
               BinOp ShlOp x w \<Rightarrow> (case const_int w of
                   None \<Rightarrow> Inl (NullDeref ''getZExtValue'')
                 | Some c \<Rightarrow> if c = 1 \<or> c = 2 then Inr (Some x)
                             else switched_on_list n F b (operands (ikind ins)))
             | _ \<Rightarrow> switched_on_list n F b (operands (ikind ins))))
   | _ \<Rightarrow> Inr None)"
| "switched_on_list n F b [] = Inr None"
| "switched_on_list n F b (v # vs) = rbind (switched_on n F b v) (\<lambda>r.
     (case r of Some x \<Rightarrow> Inr (Some x) | None \<Rightarrow> switched_on_list n F b vs))"

definition getValueSwitchedOn :: "func \<Rightarrow> nat \<times> instr \<Rightarrow> val option res" where
  "getValueSwitchedOn F p = (case p of (b, storeToPC) \<Rightarrow>
     (case operands (ikind storeToPC) of
        [] \<Rightarrow> Inl (AssertFailed ''getOperand'')
      | v # _ \<Rightarrow> switched_on (Suc (length (func_ins F))) F b v))"

text \<open>The block for a program counter, or the fake block, made when there is none yet.\<close>

definition target_or_fake :: "string \<Rightarrow> (u64 \<rightharpoonup> nat) \<Rightarrow> u64 \<Rightarrow> func \<times> nat option \<Rightarrow> (func \<times> nat option) \<times> nat" where
  "target_or_fake nm bbMap pc st = (case bbMap pc of
     Some t \<Rightarrow> (st, t)
   | None \<Rightarrow> (case st of (F, myfakeBB) \<Rightarrow> (case myfakeBB of
        Some t \<Rightarrow> (st, t)
      | None \<Rightarrow> (let (F', t) = add_ret_block nm F in ((F', Some t), t)))))"

text \<open>The cases: consecutive 32-bit values from \<open>idx_start\<close>, in the order of the table.\<close>

fun switch_cases :: "(u64 \<rightharpoonup> nat) \<Rightarrow> u64 \<Rightarrow> u64 list \<Rightarrow> func \<times> nat option
    \<Rightarrow> (func \<times> nat option) \<times> (u64 \<times> nat) list" where
  "switch_cases bbMap v [] st = (st, [])"
| "switch_cases bbMap v (pc # pcs) st =
     (let (st', t) = target_or_fake ''fake_switch_case'' bbMap pc st;
          (st'', cs) = switch_cases bbMap (v + 1) pcs st' in
      (st'', (v AND 0xFFFFFFFF, t) # cs))"

text \<open>One solved jump table. The flag says the store has to be treated as an unsolved jump.\<close>

definition build_switch :: "(u64 \<rightharpoonup> nat) \<Rightarrow> nat \<times> instr \<Rightarrow> func \<times> nat option \<Rightarrow> ((func \<times> nat option) \<times> bool) res" where
  "build_switch bbMap p st = (case p of (b, i) \<Rightarrow> (case st of (F, myfakeBB) \<Rightarrow>
     if \<not> has_md i ''INS_switch_default'' \<or> \<not> has_md i ''INS_switch_cnt''
        \<or> \<not> has_md i ''INS_switch_idx_start'' then Inr (st, True)
     else
       rbind (getHexMetadataFromIns i ''INS_switch_default'') (\<lambda>default_pc.
       rbind (getHexMetadataFromIns i ''INS_switch_cnt'') (\<lambda>cnt_entries.
       rbind (getHexMetadataFromIns i ''INS_switch_idx_start'') (\<lambda>idx_start.
       rbind (getValueSwitchedOn F p) (\<lambda>switched.
         (case switched of
            None \<Rightarrow> Inr (st, False)
          | Some oper \<Rightarrow>
              rbind (read_cases i (unat cnt_entries)) (\<lambda>target_pcs.
              let (st1, bb_default) = target_or_fake ''fake_switch'' bbMap default_pc st;
                  ((F2, fake2), cs) = switch_cases bbMap idx_start target_pcs st1 in
              Inr ((append_ins b (SwitchI oper bb_default cs) F2, fake2), False)))))))))"

fun build_switches :: "(u64 \<rightharpoonup> nat) \<Rightarrow> (nat \<times> instr) list \<Rightarrow> func \<times> nat option
    \<Rightarrow> (func \<times> (nat \<times> instr) list) res" where
  "build_switches bbMap [] st = Inr (fst st, [])"
| "build_switches bbMap (p # ps) st =
     rbind (build_switch bbMap p st) (\<lambda>(st', unsolved).
     rbind (build_switches bbMap ps st') (\<lambda>(F', us). Inr (F', (if unsolved then p # us else us))))"

definition fixupIndirectJumps :: "func \<Rightarrow> (u64 \<rightharpoonup> nat) \<Rightarrow> nat option \<Rightarrow> func res" where
  "fixupIndirectJumps newFunc bbMap fakeBB =
     (let jumps = filter (\<lambda>p. has_md (snd p) ''INS_indirectJump'') (placed_ins newFunc);
          transformToSwitch = filter (\<lambda>p. has_md (snd p) ''INS_switch_cnt'') jumps;
          insToUpdate = filter (\<lambda>p. \<not> has_md (snd p) ''INS_switch_cnt'') jumps in
      rbind (build_switches bbMap transformToSwitch (newFunc, fakeBB)) (\<lambda>(F1, unsolved).
      rbind (case fakeBB of
               None \<Rightarrow> if insToUpdate @ unsolved = [] then Inr F1 else Inl (NullDeref ''fakeBB'')
             | Some fk \<Rightarrow> apply_edits (map (\<lambda>p. (fst p, None, Br fk)) (insToUpdate @ unsolved)) F1)
        (\<lambda>F2. cleanupFakeReturns (map fst jumps) F2)))"

section \<open>What a list of edits does\<close>

lemma append_ins_frame [simp]:
  "fid (append_ins b k F) = fid F" "fname (append_ins b k F) = fname F"
  "map bid (fblocks (append_ins b k F)) = map bid (fblocks F)"
  by (simp_all add: append_ins_def map_blocks_def)

fun blocks_ids :: "bblock list \<Rightarrow> nat list" where
  "blocks_ids [] = []"
| "blocks_ids (B # bs) = map iid (bins B) @ blocks_ids bs"

lemma append_once:
  fixes b :: nat and k :: ikind
  assumes "distinct (map bid bs)" and "distinct (blocks_ids bs)" and "n \<notin> set (blocks_ids bs)"
  defines "g \<equiv> \<lambda>B. if bid B = b then B\<lparr>bins := bins B @ [mk_ins n k]\<rparr> else B"
  shows "distinct (blocks_ids (map g bs)) \<and> set (blocks_ids (map g bs)) \<subseteq> insert n (set (blocks_ids bs))
    \<and> set (blocks_ids bs) \<subseteq> set (blocks_ids (map g bs)) \<and> (b \<notin> bid ` set bs \<longrightarrow> map g bs = bs)"
  using assms(1-3)
proof (induction bs)
  case Nil
  show ?case by simp
next
  case (Cons B bs)
  have g: "map iid (bins (g B)) = map iid (bins B) @ (if bid B = b then [n] else [])"
    by (simp add: g_def)
  from Cons.prems have IH: "distinct (blocks_ids (map g bs))"
    "set (blocks_ids (map g bs)) \<subseteq> insert n (set (blocks_ids bs))"
    "set (blocks_ids bs) \<subseteq> set (blocks_ids (map g bs))" "b \<notin> bid ` set bs \<Longrightarrow> map g bs = bs"
    using Cons.IH by simp_all
  show ?case
  proof (cases "bid B = b")
    case True
    then have "map g bs = bs" using Cons.prems(1) by (intro IH(4)) auto
    then show ?thesis using True Cons.prems g by auto
  next
    case False
    then have gB: "g B = B" by (simp add: g_def)
    have "set (map iid (bins B)) \<inter> set (blocks_ids (map g bs)) = {}"
      using IH(2) Cons.prems(2,3) by auto
    then show ?thesis using IH Cons.prems(2) False by (auto simp: gB)
  qed
qed

lemma ins_ids_blocks: "ins_ids F = blocks_ids (fblocks F)"
proof -
  have "map iid (concat (map bins bs)) = blocks_ids bs" for bs by (induction bs) simp_all
  then show ?thesis by (simp add: ins_ids_def func_ins_def)
qed

lemma append_ins_wf:
  assumes "wf_func F"
  shows "wf_func (append_ins b k F)" "set (ins_ids F) \<subseteq> set (ins_ids (append_ins b k F))"
    "set (ins_ids (append_ins b k F)) \<subseteq> insert (fresh_iid F) (set (ins_ids F))"
proof -
  have "distinct (map bid (fblocks F))" "distinct (blocks_ids (fblocks F))"
    "fresh_iid F \<notin> set (blocks_ids (fblocks F))"
    using assms fresh_iid_new [of F] by (simp_all add: wf_func_def ins_ids_blocks)
  note a = append_once [OF this, of b k]
  have ids: "ins_ids (append_ins b k F) = blocks_ids (map (\<lambda>B. if bid B = b
      then B\<lparr>bins := bins B @ [mk_ins (fresh_iid F) k]\<rparr> else B) (fblocks F))"
    by (simp add: ins_ids_blocks append_ins_def map_blocks_def)
  show "wf_func (append_ins b k F)"
    using a assms unfolding wf_func_def ids by simp
  show "set (ins_ids F) \<subseteq> set (ins_ids (append_ins b k F))"
    "set (ins_ids (append_ins b k F)) \<subseteq> insert (fresh_iid F) (set (ins_ids F))"
    using a unfolding ids ins_ids_blocks [of F] by blast+
qed

definition erased :: "edit list \<Rightarrow> nat list" where
  "erased es = List.map_filter (\<lambda>(b, n, k). n) es"

definition edit_kinds :: "edit list \<Rightarrow> nat \<Rightarrow> ikind list" where
  "edit_kinds es b = map (\<lambda>(b, n, k). k) (filter (\<lambda>e. fst e = b) es)"

lemma erased_simps [simp]:
  "erased [] = []" "erased ((b, None, k) # es) = erased es"
  "erased ((b, Some n, k) # es) = n # erased es"
  by (simp_all add: erased_def)

lemma edit_kinds_simps [simp]:
  "edit_kinds [] c = []"
  "edit_kinds ((b, n, k) # es) c = (if b = c then k # edit_kinds es c else edit_kinds es c)"
  by (simp_all add: edit_kinds_def)

text \<open>
  One block before and after a list of edits: the erased stores are gone, and the new instructions
  (without metadata, with addresses not in use before) are at its end in order.
\<close>

definition block_edited :: "edit list \<Rightarrow> nat set \<Rightarrow> bblock \<Rightarrow> bblock \<Rightarrow> bool" where
  "block_edited es X B B' \<longleftrightarrow> (\<exists>news.
     B' = B\<lparr>bins := filter (\<lambda>i. iid i \<notin> set (erased es)) (bins B) @ news\<rparr>
     \<and> map ikind news = edit_kinds es (bid B)
     \<and> (\<forall>i \<in> set news. imeta i = Map.empty \<and> iid i \<notin> X))"

definition edited :: "edit list \<Rightarrow> func \<Rightarrow> func \<Rightarrow> bool" where
  "edited es F F' \<longleftrightarrow> F' = F\<lparr>fblocks := fblocks F'\<rparr> \<and> wf_func F'
     \<and> list_all2 (block_edited es (set (ins_ids F) - set (erased es))) (fblocks F) (fblocks F')"

lemma wf_drop_ids: "wf_func F \<Longrightarrow> wf_func (drop_ids X F)"
  by (simp add: wf_func_def) (simp add: drop_ids_def map_blocks_def comp_def)

lemma edited_refl: "wf_func F \<Longrightarrow> edited [] F F"
  by (auto simp: edited_def block_edited_def list_all2_same)

lemma apply_edit_ok:
  assumes "wf_func F" and "set (erased [e]) \<subseteq> set (ins_ids F)"
  shows "\<exists>F'. apply_edit e F = Inr F' \<and> F' = F\<lparr>fblocks := fblocks F'\<rparr> \<and> wf_func F'
    \<and> list_all2 (block_edited [e] (set (ins_ids F))) (fblocks F) (fblocks F')
    \<and> set (ins_ids F) - set (erased [e]) \<subseteq> set (ins_ids F')"
proof -
  obtain b n k where e: "e = (b, n, k)" by (cases e)
  let ?F1 = "append_ins b k F" and ?F' = "drop_ids (set (erased [e])) (append_ins b k F)"
  note w = append_ins_wf [OF assms(1), of b k]
  have run: "apply_edit e F = Inr ?F'"
  proof (cases n)
    case None
    then show ?thesis by (simp add: e apply_edit_def)
  next
    case (Some m)
    then show ?thesis using assms(2) w(2) by (auto simp: e apply_edit_def erase_from_parent_def)
  qed
  have fr: "fresh_iid F \<notin> set (erased [e])" using fresh_iid_new [of F] assms(2) by auto
  have "block_edited [e] (set (ins_ids F)) B
      ((\<lambda>B. B\<lparr>bins := filter (\<lambda>i. iid i \<notin> set (erased [e])) (bins B)\<rparr>)
        (if bid B = b then B\<lparr>bins := bins B @ [mk_ins (fresh_iid F) k]\<rparr> else B))" for B
    unfolding block_edited_def
    by (rule exI [of _ "if bid B = b then [mk_ins (fresh_iid F) k] else []"])
       (use fr fresh_iid_new [of F] in \<open>auto simp: e\<close>)
  then have "list_all2 (block_edited [e] (set (ins_ids F))) (fblocks F) (fblocks ?F')"
    by (simp add: drop_ids_def append_ins_def map_blocks_def list_all2_map2 list_all2_same)
  moreover have "?F' = F\<lparr>fblocks := fblocks ?F'\<rparr>"
    by (simp add: drop_ids_def append_ins_def map_blocks_def)
  moreover have "wf_func ?F'" using wf_drop_ids [OF w(1)] by blast
  moreover have "set (ins_ids F) - set (erased [e]) \<subseteq> set (ins_ids ?F')"
    using w(2) by auto
  ultimately show ?thesis using run by blast
qed

lemma block_edited_trans:
  assumes "block_edited [e] X B B1" and "block_edited es (X - set (erased (e # es))) B1 B2"
    and "set (erased es) \<subseteq> X"
  shows "block_edited (e # es) (X - set (erased (e # es))) B B2"
proof -
  obtain b n k where e: "e = (b, n, k)" by (cases e)
  obtain news where n1: "B1 = B\<lparr>bins := filter (\<lambda>i. iid i \<notin> set (erased [e])) (bins B) @ news\<rparr>"
    "map ikind news = edit_kinds [e] (bid B)" "\<forall>i \<in> set news. imeta i = Map.empty \<and> iid i \<notin> X"
    using assms(1) by (auto simp: block_edited_def)
  obtain news' where n2: "B2 = B1\<lparr>bins := filter (\<lambda>i. iid i \<notin> set (erased es)) (bins B1) @ news'\<rparr>"
    "map ikind news' = edit_kinds es (bid B1)"
    "\<forall>i \<in> set news'. imeta i = Map.empty \<and> iid i \<notin> X - set (erased (e # es))"
    using assms(2) by (auto simp: block_edited_def)
  have er: "set (erased (e # es)) = set (erased [e]) \<union> set (erased es)"
    by (cases n) (auto simp: e)
  have "filter (\<lambda>i. iid i \<notin> set (erased es)) news = news"
    using n1(3) assms(3) by (auto simp: filter_id_conv)
  then have "B2 = B\<lparr>bins := filter (\<lambda>i. iid i \<notin> set (erased (e # es))) (bins B) @ news @ news'\<rparr>"
    by (simp add: n1(1) n2(1) er conj_commute)
  moreover have "map ikind (news @ news') = edit_kinds (e # es) (bid B)"
    using n1 n2(2) by (simp add: e)
  moreover have "\<forall>i \<in> set (news @ news'). imeta i = Map.empty \<and> iid i \<notin> X - set (erased (e # es))"
    using n1(3) n2(3) by auto
  ultimately show ?thesis unfolding block_edited_def by blast
qed

lemma apply_edits_ok:
  assumes "wf_func F" and "set (erased es) \<subseteq> set (ins_ids F)" and "distinct (erased es)"
  shows "\<exists>F'. apply_edits es F = Inr F' \<and> edited es F F'"
  using assms
proof (induction es arbitrary: F)
  case Nil
  then show ?case by (simp add: apply_edits_def edited_refl)
next
  case (Cons e es)
  have er: "set (erased (e # es)) = set (erased [e]) \<union> set (erased es)"
    "set (erased es) \<inter> set (erased [e]) = {}" "distinct (erased es)"
    using Cons.prems(3) by (cases e rule: prod_cases3; cases "fst (snd e)"; simp)+
  obtain F1 where F1: "apply_edit e F = Inr F1" "F1 = F\<lparr>fblocks := fblocks F1\<rparr>" "wf_func F1"
    "list_all2 (block_edited [e] (set (ins_ids F))) (fblocks F) (fblocks F1)"
    "set (ins_ids F) - set (erased [e]) \<subseteq> set (ins_ids F1)"
    using apply_edit_ok [OF Cons.prems(1), of e] Cons.prems(2) er(1) by auto
  have "set (erased es) \<subseteq> set (ins_ids F1)" using Cons.prems(2) er F1(5) by auto
  then obtain F2 where F2: "apply_edits es F1 = Inr F2" "edited es F1 F2"
    using Cons.IH [OF F1(3)] er(3) by blast
  have "list_all2 (block_edited (e # es) (set (ins_ids F) - set (erased (e # es)))) (fblocks F) (fblocks F2)"
  proof (rule list_all2_trans [OF _ F1(4)])
    show "list_all2 (block_edited es (set (ins_ids F1) - set (erased es))) (fblocks F1) (fblocks F2)"
      using F2(2) by (simp add: edited_def)
  next
    fix B B1 B2
    assume b1: "block_edited [e] (set (ins_ids F)) B B1"
      and b2: "block_edited es (set (ins_ids F1) - set (erased es)) B1 B2"
    have "block_edited es (set (ins_ids F) - set (erased (e # es))) B1 B2"
      using b2 F1(5) er(1) unfolding block_edited_def by blast
    then show "block_edited (e # es) (set (ins_ids F) - set (erased (e # es))) B B2"
      by (rule block_edited_trans [OF b1]) (use Cons.prems(2) er(1) in blast)
  qed
  moreover have "F2 = F\<lparr>fblocks := fblocks F2\<rparr>" "wf_func F2"
    using F1(2) F2(2) by (auto simp: edited_def) (metis func.surjective func.update_convs(3))
  ultimately have "edited (e # es) F F2" unfolding edited_def by blast
  with F1(1) F2(1) show ?case by (simp add: apply_edits_def)
qed

section \<open>Edits and clean-up together\<close>

definition code_view :: "func \<Rightarrow> (nat \<times> ikind list) list" where
  "code_view F = map (\<lambda>B. (bid B, map ikind (bins B))) (fblocks F)"

lemma fake_return_ids_mem:
  assumes "wf_func F" and "B \<in> set (fblocks F)" and "i \<in> set (bins B)"
  shows "iid i \<in> set (concat (map (fake_return_ids F) bs)) \<longleftrightarrow>
    bid B \<in> set bs \<and> has_md i ''INS_fakeReturn''"
proof
  assume "iid i \<in> set (concat (map (fake_return_ids F) bs))"
  then obtain b C j where "b \<in> set bs" "C \<in> set (fblocks F)" "bid C = b" "j \<in> set (bins C)"
    "has_md j ''INS_fakeReturn''" "iid i = iid j"
    by (auto simp: fake_return_ids_def split: if_splits)
  then show "bid B \<in> set bs \<and> has_md i ''INS_fakeReturn''"
    using same_id_same_place [OF wf_blocks_distinct [OF assms(1)] assms(2,3)] by metis
next
  assume "bid B \<in> set bs \<and> has_md i ''INS_fakeReturn''"
  with assms(2,3) show "iid i \<in> set (concat (map (fake_return_ids F) bs))"
    by (fastforce simp: fake_return_ids_def)
qed

text \<open>A block after the edits and the clean-up of the blocks \<open>bs\<close>.\<close>

definition edit_ref :: "edit list \<Rightarrow> nat set \<Rightarrow> bblock \<Rightarrow> ikind list" where
  "edit_ref es bs B =
     map ikind (filter (\<lambda>i. iid i \<notin> set (erased es) \<and> \<not> (bid B \<in> bs \<and> has_md i ''INS_fakeReturn'')) (bins B))
     @ edit_kinds es (bid B)"

lemma list_all2_map_cong: "list_all2 R xs ys \<Longrightarrow>
    (\<And>x y. x \<in> set xs \<Longrightarrow> y \<in> set ys \<Longrightarrow> R x y \<Longrightarrow> g y = h x) \<Longrightarrow> map g ys = map h xs"
  by (induction rule: list_all2_induct) auto

lemma cleanup_view:
  assumes "edited es F F1" and "cleanupFakeReturns bs F1 = Inr F2"
  shows "code_view F2 = map (\<lambda>B. (bid B, edit_ref es (set bs) B)) (fblocks F)"
proof -
  let ?ids = "set (concat (map (fake_return_ids F1) bs))"
  have wf: "wf_func F1" using assms(1) by (simp add: edited_def)
  have F2: "F2 = drop_ids ?ids F1"
    using assms(2) erase_all_Inr unfolding cleanupFakeReturns_def by blast
  have "code_view F2 = map (\<lambda>B. (bid B, map ikind (filter (\<lambda>i. iid i \<notin> ?ids) (bins B)))) (fblocks F1)"
    by (simp add: F2 code_view_def drop_ids_def map_blocks_def)
  also have "\<dots> = map (\<lambda>B. (bid B, edit_ref es (set bs) B)) (fblocks F)"
  proof (rule list_all2_map_cong)
    show "list_all2 (block_edited es (set (ins_ids F) - set (erased es))) (fblocks F) (fblocks F1)"
      using assms(1) by (simp add: edited_def)
  next
    fix B B1
    assume B1: "B1 \<in> set (fblocks F1)"
      and "block_edited es (set (ins_ids F) - set (erased es)) B B1"
    then obtain news where n: "bid B1 = bid B"
      "bins B1 = filter (\<lambda>i. iid i \<notin> set (erased es)) (bins B) @ news"
      "map ikind news = edit_kinds es (bid B)" "\<forall>i \<in> set news. imeta i = Map.empty"
      unfolding block_edited_def by auto
    have "filter (\<lambda>i. iid i \<notin> ?ids) (bins B1)
        = filter (\<lambda>i. \<not> (bid B \<in> set bs \<and> has_md i ''INS_fakeReturn'')) (bins B1)"
      using fake_return_ids_mem [OF wf B1] by (intro filter_cong refl) (simp add: n(1))
    also have "\<dots> = filter (\<lambda>i. iid i \<notin> set (erased es) \<and> \<not> (bid B \<in> set bs \<and> has_md i ''INS_fakeReturn''))
        (bins B) @ news"
      using n(4) by (auto simp: n(2) filter_id_conv has_md_def conj_commute)
    finally show "(bid B1, map ikind (filter (\<lambda>i. iid i \<notin> ?ids) (bins B1))) = (bid B, edit_ref es (set bs) B)"
      by (simp add: n(1,3) edit_ref_def)
  qed
  finally show ?thesis .
qed

text \<open>
  The edits of a decision on each instruction: append \<open>k\<close> to its block and erase it when the
  decision is \<open>Some k\<close>.
\<close>

definition decision_edits :: "(instr \<Rightarrow> ikind option) \<Rightarrow> nat \<times> instr \<Rightarrow> edit list" where
  "decision_edits d p = (case d (snd p) of None \<Rightarrow> [] | Some k \<Rightarrow> [(fst p, Some (iid (snd p)), k)])"

definition edits_of :: "(instr \<Rightarrow> ikind option) \<Rightarrow> func \<Rightarrow> edit list" where
  "edits_of d F = concat (map (decision_edits d) (placed_ins F))"

definition run_edits :: "(instr \<Rightarrow> ikind option) \<Rightarrow> func \<Rightarrow> func res" where
  "run_edits d F = rbind (apply_edits (edits_of d F) F)
     (\<lambda>F'. cleanupFakeReturns (map fst (edits_of d F)) F')"

text \<open>What a block becomes: untouched when no instruction of it is decided.\<close>

definition decided_ref :: "(instr \<Rightarrow> ikind option) \<Rightarrow> bblock \<Rightarrow> ikind list" where
  "decided_ref d B = (if \<forall>i \<in> set (bins B). d i = None then map ikind (bins B)
     else map ikind (filter (\<lambda>i. d i = None \<and> \<not> has_md i ''INS_fakeReturn'') (bins B))
          @ List.map_filter d (bins B))"

fun block_edits :: "(instr \<Rightarrow> ikind option) \<Rightarrow> bblock list \<Rightarrow> edit list" where
  "block_edits d [] = []"
| "block_edits d (B # bs) =
     map (\<lambda>i. (bid B, Some (iid i), the (d i))) (filter (\<lambda>i. d i \<noteq> None) (bins B)) @ block_edits d bs"

lemma edits_of_blocks: "edits_of d F = block_edits d (fblocks F)"
proof -
  have "concat (map (decision_edits d) (map (Pair c) is))
      = map (\<lambda>i. (c, Some (iid i), the (d i))) (filter (\<lambda>i. d i \<noteq> None) is)" for c :: nat and "is"
    by (induction "is") (auto simp: decision_edits_def split: option.split)
  then have "concat (map (decision_edits d)
      (concat (map (\<lambda>B. map (Pair (bid B)) (bins B)) bs))) = block_edits d bs" for bs
    by (induction bs) (simp_all del: not_None_eq map_map)
  then show ?thesis by (simp add: edits_of_def placed_ins_def)
qed

lemma erased_append [simp]: "erased (xs @ ys) = erased xs @ erased ys"
  by (simp add: erased_def map_filter_def)

lemma edit_kinds_append [simp]: "edit_kinds (xs @ ys) b = edit_kinds xs b @ edit_kinds ys b"
  by (simp add: edit_kinds_def)

lemma erased_block_edits:
  "erased (block_edits d bs) = map iid (filter (\<lambda>i. d i \<noteq> None) (concat (map bins bs)))"
  by (induction bs) (simp_all add: erased_def map_filter_def comp_def)

lemma edit_kinds_absent: "b \<notin> fst ` set es \<Longrightarrow> edit_kinds es b = []"
  by (auto simp: edit_kinds_def filter_empty_conv)

lemma block_edits_fst:
  "b \<in> fst ` set (block_edits d bs) \<longleftrightarrow> (\<exists>B \<in> set bs. bid B = b \<and> (\<exists>i \<in> set (bins B). d i \<noteq> None))"
proof (induction bs)
  case Nil
  show ?case by simp
next
  case (Cons C bs)
  have "b \<in> fst ` set (block_edits d (C # bs)) \<longleftrightarrow>
      (bid C = b \<and> (\<exists>i \<in> set (bins C). d i \<noteq> None)) \<or> b \<in> fst ` set (block_edits d bs)"
    by (force simp: image_Un image_image simp del: not_None_eq)
  then show ?case using Cons.IH by (simp del: not_None_eq)
qed

lemma edit_kinds_block_edits:
  assumes "distinct (map bid bs)" and "B \<in> set bs"
  shows "edit_kinds (block_edits d bs) (bid B) = List.map_filter d (bins B)"
  using assms
proof (induction bs)
  case Nil
  then show ?case by simp
next
  case (Cons C bs)
  have own: "edit_kinds (map (\<lambda>i. (c, Some (iid i), the (d i))) (filter (\<lambda>i. d i \<noteq> None) is)) b
      = (if c = b then List.map_filter d is else [])" for c b "is"
    by (simp add: edit_kinds_def map_filter_def comp_def del: not_None_eq)
  show ?case
  proof (cases "bid C = bid B")
    case True
    then have "B = C" using Cons.prems by (auto simp: rev_image_eqI)
    moreover have "bid B \<notin> bid ` set bs" using Cons.prems(1) \<open>B = C\<close> by simp
    then have "bid B \<notin> fst ` set (block_edits d bs)" by (metis block_edits_fst image_eqI)
    ultimately show ?thesis by (simp add: own edit_kinds_absent del: not_None_eq)
  next
    case False
    with Cons show ?thesis by (auto simp: own simp del: not_None_eq)
  qed
qed

lemma edits_of_apply:
  assumes "wf_func F"
  shows "\<exists>F1. apply_edits (edits_of d F) F = Inr F1 \<and> edited (edits_of d F) F F1"
proof (rule apply_edits_ok [OF assms])
  show "set (erased (edits_of d F)) \<subseteq> set (ins_ids F)"
    by (auto simp: edits_of_blocks erased_block_edits ins_ids_def func_ins_def)
  show "distinct (erased (edits_of d F))"
    using assms by (simp add: edits_of_blocks erased_block_edits wf_func_def ins_ids_def func_ins_def
        distinct_map_filter)
qed

lemma erased_edits_of:
  assumes "wf_func F" and "B \<in> set (fblocks F)" and "i \<in> set (bins B)"
  shows "iid i \<in> set (erased (edits_of d F)) \<longleftrightarrow> d i \<noteq> None"
proof -
  have "i = j" if "j \<in> set (func_ins F)" "iid i = iid j" for j
    using assms that
    by (auto simp: wf_func_def ins_ids_def distinct_map inj_on_def func_ins_def)
  moreover have "i \<in> set (func_ins F)" using assms(2,3) by (auto simp: func_ins_def)
  ultimately show ?thesis
    by (auto simp: edits_of_blocks erased_block_edits simp flip: func_ins_def simp del: not_None_eq)
qed

lemma edit_ref_decided:
  assumes "wf_func F" and "B \<in> set (fblocks F)"
  shows "edit_ref (edits_of d F) (set (map fst (edits_of d F))) B = decided_ref d B"
proof -
  have inj: "C = B" if "C \<in> set (fblocks F)" "bid C = bid B" for C
    using assms that by (auto simp: wf_func_def distinct_map inj_on_def)
  have touched: "bid B \<in> set (map fst (edits_of d F)) \<longleftrightarrow> (\<exists>i \<in> set (bins B). d i \<noteq> None)"
    using inj assms(2) by (auto simp: edits_of_blocks block_edits_fst)
  have er: "iid i \<in> set (erased (edits_of d F)) \<longleftrightarrow> d i \<noteq> None" if "i \<in> set (bins B)" for i
    using assms that by (rule erased_edits_of)
  have k: "edit_kinds (edits_of d F) (bid B) = List.map_filter d (bins B)"
    using assms by (simp add: edits_of_blocks edit_kinds_block_edits wf_func_def)
  define P where "P \<longleftrightarrow> (\<exists>i \<in> set (bins B). d i \<noteq> None)"
  have flt: "filter (\<lambda>i. iid i \<notin> set (erased (edits_of d F))
        \<and> \<not> (bid B \<in> set (map fst (edits_of d F)) \<and> has_md i ''INS_fakeReturn'')) (bins B)
      = filter (\<lambda>i. d i = None \<and> \<not> (P \<and> has_md i ''INS_fakeReturn'')) (bins B)"
    unfolding P_def using er touched by (intro filter_cong refl) blast
  show ?thesis
  proof (cases P)
    case True
    then have "\<not> (\<forall>i \<in> set (bins B). d i = None)" by (auto simp: P_def)
    then have "decided_ref d B = map ikind (filter (\<lambda>i. d i = None \<and> \<not> has_md i ''INS_fakeReturn'') (bins B))
        @ List.map_filter d (bins B)"
      unfolding decided_ref_def by (rule if_not_P)
    with True show ?thesis unfolding edit_ref_def k flt by simp
  next
    case False
    then have "\<forall>i \<in> set (bins B). d i = None" by (auto simp: P_def)
    with False show ?thesis
      unfolding edit_ref_def k decided_ref_def flt
      by (simp add: map_filter_def filter_empty_conv)
  qed
qed

lemma run_edits_view:
  assumes "wf_func F" and "run_edits d F = Inr F'"
  shows "code_view F' = map (\<lambda>B. (bid B, decided_ref d B)) (fblocks F)"
proof -
  obtain F1 where F1: "apply_edits (edits_of d F) F = Inr F1" "edited (edits_of d F) F F1"
    using edits_of_apply [OF assms(1)] by blast
  then have "cleanupFakeReturns (map fst (edits_of d F)) F1 = Inr F'"
    using assms(2) by (simp add: run_edits_def)
  from cleanup_view [OF F1(2) this] show ?thesis
    using edit_ref_decided [OF assms(1)] by (simp cong: map_cong)
qed

text \<open>Which lists of edits run through: no block with a fake return is listed twice.\<close>

lemma fake_ids_live: "set (fake_return_ids F b) \<subseteq> set (ins_ids F)"
  by (auto simp: fake_return_ids_def ins_ids_def func_ins_def split: if_splits)

lemma concat_distinct_iff:
  assumes "\<And>b. distinct (h b)" and "\<And>b c. b \<noteq> c \<Longrightarrow> set (h b) \<inter> set (h c) = {}"
  shows "distinct (concat (map h bs)) \<longleftrightarrow> (\<forall>b. 1 < count_list bs b \<longrightarrow> h b = [])"
proof (induction bs)
  case Nil
  show ?case by simp
next
  case (Cons b bs)
  have "set (h b) \<inter> set (concat (map h bs)) = {} \<longleftrightarrow> (b \<in> set bs \<longrightarrow> h b = [])"
  proof (cases "b \<in> set bs")
    case True
    then have "set (h b) \<subseteq> set (concat (map h bs))" by auto
    with True show ?thesis by (cases "h b") auto
  next
    case False
    then have "set (h b) \<inter> set (h c) = {}" if "c \<in> set bs" for c
      using assms(2) [of b c] that by auto
    with False show ?thesis by auto
  qed
  moreover have "b \<in> set bs \<longleftrightarrow> 0 < count_list bs b"
    by (metis count_list_0_iff gr0I less_numeral_extra(3))
  ultimately have d: "distinct (concat (map h (b # bs))) \<longleftrightarrow>
      (0 < count_list bs b \<longrightarrow> h b = []) \<and> (\<forall>c. 1 < count_list bs c \<longrightarrow> h c = [])"
    using assms(1) Cons.IH by (simp add: conj_commute)
  show ?case
  proof
    assume r: "\<forall>c. 1 < count_list (b # bs) c \<longrightarrow> h c = []"
    have "0 < count_list bs b \<longrightarrow> h b = []" using r [THEN spec, of b] by simp
    moreover have "1 < count_list bs c \<longrightarrow> h c = []" for c
      using r [THEN spec, of c] by (cases "b = c") simp_all
    then have "\<forall>c. 1 < count_list bs c \<longrightarrow> h c = []" by blast
    ultimately have "(0 < count_list bs b \<longrightarrow> h b = []) \<and> (\<forall>c. 1 < count_list bs c \<longrightarrow> h c = [])"
      by (rule conjI)
    then show "distinct (concat (map h (b # bs)))" by (rule d [THEN iffD2])
  next
    assume "distinct (concat (map h (b # bs)))"
    with d have l: "0 < count_list bs b \<longrightarrow> h b = []" "\<forall>c. 1 < count_list bs c \<longrightarrow> h c = []"
      by blast+
    show "\<forall>c. 1 < count_list (b # bs) c \<longrightarrow> h c = []"
    proof (intro allI impI)
      fix c assume "1 < count_list (b # bs) c"
      with l show "h c = []" by (cases "b = c") simp_all
    qed
  qed
qed

lemma fake_ids_distinct: "wf_func F \<Longrightarrow> distinct (fake_return_ids F b)"
proof -
  have "distinct (blocks_ids bs) \<Longrightarrow> distinct (concat (map (\<lambda>B. if bid B = b
      then map iid (filter (\<lambda>i. has_md i ''INS_fakeReturn'') (bins B)) else []) bs))
    \<and> set (concat (map (\<lambda>B. if bid B = b
      then map iid (filter (\<lambda>i. has_md i ''INS_fakeReturn'') (bins B)) else []) bs)) \<subseteq> set (blocks_ids bs)" for bs
  proof (induction bs)
    case Nil
    show ?case by simp
  next
    case (Cons B bs)
    have "distinct (map iid (filter (\<lambda>i. has_md i ''INS_fakeReturn'') (bins B)))"
      using Cons.prems by (simp add: distinct_map_filter)
    then show ?case using Cons by (cases "bid B = b") fastforce+
  qed
  then show "wf_func F \<Longrightarrow> ?thesis"
    by (simp add: fake_return_ids_def wf_func_def ins_ids_blocks)
qed

lemma fake_ids_disjoint:
  assumes "wf_func F" and "b \<noteq> c"
  shows "set (fake_return_ids F b) \<inter> set (fake_return_ids F c) = {}"
proof (rule ccontr)
  assume "set (fake_return_ids F b) \<inter> set (fake_return_ids F c) \<noteq> {}"
  then obtain B C i j where "B \<in> set (fblocks F)" "bid B = b" "i \<in> set (bins B)"
    "C \<in> set (fblocks F)" "bid C = c" "j \<in> set (bins C)" "iid i = iid j"
    by (auto simp: fake_return_ids_def split: if_splits)
  with same_id_same_place [OF wf_blocks_distinct [OF assms(1)]] assms(2) show False by metis
qed

lemma edits_of_count:
  assumes "wf_func F" and "B \<in> set (fblocks F)"
  shows "count_list (map fst (edits_of d F)) (bid B) = length (filter (\<lambda>i. d i \<noteq> None) (bins B))"
proof -
  have "length (edit_kinds es b) = count_list (map fst es) b" for es b
    by (induction es) (auto simp: edit_kinds_def)
  then have "count_list (map fst (edits_of d F)) (bid B) = length (List.map_filter d (bins B))"
    using assms by (metis edit_kinds_block_edits edits_of_blocks wf_func_def)
  then show ?thesis by (simp add: map_filter_def del: not_None_eq)
qed

lemma edited_fake_ids:
  assumes "wf_func F" and "edited (edits_of d F) F F1" and "B \<in> set (fblocks F)"
  shows "fake_return_ids F1 (bid B) = [] \<longleftrightarrow>
    (\<forall>i \<in> set (bins B). d i = None \<longrightarrow> \<not> has_md i ''INS_fakeReturn'')"
proof -
  have rel: "list_all2 (block_edited (edits_of d F) (set (ins_ids F) - set (erased (edits_of d F))))
      (fblocks F) (fblocks F1)" and wf1: "wf_func F1"
    using assms(2) by (auto simp: edited_def)
  obtain n where n: "n < length (fblocks F)" "B = fblocks F ! n"
    using assms(3) by (auto simp: in_set_conv_nth)
  let ?B1 = "fblocks F1 ! n"
  have B1: "?B1 \<in> set (fblocks F1)" using n(1) rel by (simp add: list_all2_lengthD)
  obtain news where nw: "bid ?B1 = bid B"
    "bins ?B1 = filter (\<lambda>i. iid i \<notin> set (erased (edits_of d F))) (bins B) @ news"
    "\<forall>i \<in> set news. imeta i = Map.empty"
    using list_all2_nthD [OF rel n(1)] n(2) unfolding block_edited_def by auto
  have uniq: "C = ?B1" if "C \<in> set (fblocks F1)" "bid C = bid B" for C
    using wf1 that B1 nw(1) by (auto simp: wf_func_def distinct_map inj_on_def)
  have er: "iid i \<in> set (erased (edits_of d F)) \<longleftrightarrow> d i \<noteq> None" if "i \<in> set (bins B)" for i
    using assms(1,3) that by (rule erased_edits_of)
  have "fake_return_ids F1 (bid B) = [] \<longleftrightarrow> (\<forall>i \<in> set (bins ?B1). \<not> has_md i ''INS_fakeReturn'')"
  proof -
    have "fake_return_ids F1 (bid B) = [] \<longleftrightarrow> (\<forall>C \<in> set (fblocks F1). bid C = bid B \<longrightarrow>
        (\<forall>i \<in> set (bins C). \<not> has_md i ''INS_fakeReturn''))"
      unfolding fake_return_ids_def concat_eq_Nil_conv set_map ball_simps
      by (simp add: filter_empty_conv)
    then show ?thesis using uniq B1 nw(1) by blast
  qed
  also have "\<dots> \<longleftrightarrow> (\<forall>i \<in> set (bins B). d i = None \<longrightarrow> \<not> has_md i ''INS_fakeReturn'')"
    using nw(3) er by (auto simp: nw(2) has_md_def)
  finally show ?thesis .
qed

lemma run_edits_total:
  assumes "wf_func F"
  shows "(\<exists>F'. run_edits d F = Inr F') \<longleftrightarrow>
    (\<forall>B \<in> set (fblocks F). 1 < length (filter (\<lambda>i. d i \<noteq> None) (bins B)) \<longrightarrow>
       (\<forall>i \<in> set (bins B). d i = None \<longrightarrow> \<not> has_md i ''INS_fakeReturn''))"
proof -
  let ?es = "edits_of d F"
  obtain F1 where F1: "apply_edits ?es F = Inr F1" "edited ?es F F1"
    using edits_of_apply [OF assms] by blast
  have wf1: "wf_func F1" using F1(2) by (simp add: edited_def)
  let ?h = "fake_return_ids F1"
  have "(\<exists>F'. run_edits d F = Inr F') \<longleftrightarrow> distinct (concat (map ?h (map fst ?es)))"
  proof
    assume "\<exists>F'. run_edits d F = Inr F'"
    then show "distinct (concat (map ?h (map fst ?es)))"
      using erase_all_Inr by (auto simp: run_edits_def F1(1) cleanupFakeReturns_def)
  next
    assume "distinct (concat (map ?h (map fst ?es)))"
    then have "\<exists>F'. cleanupFakeReturns (map fst ?es) F1 = Inr F'"
      unfolding cleanupFakeReturns_def using fake_ids_live [of F1] erase_all_ok by fastforce
    then show "\<exists>F'. run_edits d F = Inr F'" by (simp add: run_edits_def F1(1))
  qed
  also have "\<dots> \<longleftrightarrow> (\<forall>b. 1 < count_list (map fst ?es) b \<longrightarrow> ?h b = [])"
  proof (rule concat_distinct_iff)
    show "distinct (?h b)" for b using wf1 by (rule fake_ids_distinct)
    show "set (?h b) \<inter> set (?h c) = {}" if "b \<noteq> c" for b c
      using wf1 that by (rule fake_ids_disjoint)
  qed
  also have "\<dots> \<longleftrightarrow> (\<forall>B \<in> set (fblocks F). 1 < count_list (map fst ?es) (bid B) \<longrightarrow> ?h (bid B) = [])"
  proof
    assume r: "\<forall>B \<in> set (fblocks F). 1 < count_list (map fst ?es) (bid B) \<longrightarrow> ?h (bid B) = []"
    show "\<forall>b. 1 < count_list (map fst ?es) b \<longrightarrow> ?h b = []"
    proof (intro allI impI)
      fix b assume b: "1 < count_list (map fst ?es) b"
      then have "b \<in> fst ` set ?es" by (metis count_list_0_iff list.set_map not_one_less_zero)
      then obtain B where "B \<in> set (fblocks F)" "bid B = b"
        by (auto simp: edits_of_blocks block_edits_fst)
      with r b show "?h b = []" by auto
    qed
  qed auto
  finally show ?thesis
    using edits_of_count [OF assms] edited_fake_ids [OF assms F1(2)] by simp
qed

section \<open>The fix-ups as decisions\<close>

definition jump_decision :: "(u64 \<rightharpoonup> nat) \<Rightarrow> instr \<Rightarrow> ikind option" where
  "jump_decision bbMap i = (if has_md i ''INS_directJump'' then
     (case getHexMetadataFromIns i ''INS_directJump'' of
        Inl e \<Rightarrow> None | Inr nextPC \<Rightarrow> map_option Br (bbMap nextPC)) else None)"

definition return_decision :: "instr \<Rightarrow> ikind option" where
  "return_decision i = (if has_md i ''INS_return'' then Some (Ret None) else None)"

lemma rmap_concat_eq:
  "rmap g xs = Inr yss \<Longrightarrow> (\<And>x ys. g x = Inr ys \<Longrightarrow> ys = h x) \<Longrightarrow> concat yss = concat (map h xs)"
  by (induction xs arbitrary: yss) (auto simp: rbind_eq_Inr)

lemma fixupDirectJumps_run:
  "fixupDirectJumps F bbMap = Inr F' \<Longrightarrow> run_edits (jump_decision bbMap) F = Inr F'"
proof -
  assume "fixupDirectJumps F bbMap = Inr F'"
  then obtain ess where ess: "rmap (direct_jump_edit bbMap) (placed_ins F) = Inr ess"
    and run: "rbind (apply_edits (concat ess) F) (\<lambda>F'. cleanupFakeReturns (map fst (concat ess)) F') = Inr F'"
    by (auto simp: fixupDirectJumps_def rbind_eq_Inr Let_def)
  have "concat ess = edits_of (jump_decision bbMap) F"
    unfolding edits_of_def
  proof (rule rmap_concat_eq [OF ess])
    fix x ys assume "direct_jump_edit bbMap x = Inr ys"
    then show "ys = decision_edits (jump_decision bbMap) x"
      by (auto simp: decision_edits_def direct_jump_edit_def jump_decision_def rbind_eq_Inr split: prod.splits option.splits if_splits)
  qed
  with run show ?thesis by (simp add: run_edits_def)
qed

lemma fixupReturns_run: "fixupReturns F = run_edits return_decision F"
proof -
  have "return_edits = decision_edits return_decision"
    by (rule ext) (simp add: return_edits_def return_decision_def decision_edits_def split: prod.split)
  then show ?thesis by (simp add: fixupReturns_def run_edits_def edits_of_def Let_def)
qed

section \<open>The index\<close>

definition keyed :: "bblock \<Rightarrow> u64 \<Rightarrow> bool" where
  "keyed b pc \<longleftrightarrow> bname b \<noteq> ''fake_indirect_bb'' \<and> has_md (hd (bins b)) ''BB_pcStart''
     \<and> getBBStart (hd (bins b)) = Inr pc"

lemma bb_map_step_Inr:
  "bb_map_step b m = Inr m' \<Longrightarrow>
   m' pc = (if m pc \<noteq> None then m pc else if keyed b pc then Some (bid b) else None)"
  by (auto simp: bb_map_step_def keyed_def rbind_eq_Inr split: if_splits)
     (metis fun_upd_same option.distinct(1))

lemma bb_map_fold:
  "rfold bb_map_step bs m = Inr m' \<Longrightarrow>
   m' pc = (if m pc \<noteq> None then m pc else map_option bid (find (\<lambda>b. keyed b pc) bs))"
proof (induction bs arbitrary: m)
  case Nil
  then show ?case by (cases "m pc") auto
next
  case (Cons b bs)
  then obtain m1 where m1: "bb_map_step b m = Inr m1" "rfold bb_map_step bs m1 = Inr m'"
    by (auto simp: rbind_eq_Inr)
  from Cons.IH [OF m1(2)] bb_map_step_Inr [OF m1(1), of pc] show ?case
    by (cases "m pc") auto
qed

section \<open>Properties\<close>

text \<open>
  C8. \<open>fixupDirectJumps\<close>: in every block, the resolved direct jumps and the fake returns are
  replaced, at the end of the block, by branches to the blocks their program counters map to; a
  block without a resolved jump keeps its code, and no other block changes.
\<close>

theorem fixupDirectJumps_view:
  assumes "wf_func F" and "fixupDirectJumps F bbMap = Inr F'"
  shows "code_view F' = map (\<lambda>B. (bid B, decided_ref (jump_decision bbMap) B)) (fblocks F)"
  by (rule run_edits_view [OF assms(1) fixupDirectJumps_run [OF assms(2)]])

text \<open>
  C9. \<open>fixupReturns\<close> runs through exactly when no block with two or more marked returns keeps a
  fake return (the clean-up would erase that instruction twice), and then every marked store
  becomes a \<open>ret\<close> at the end of its block, in place of the fake return.
\<close>

theorem fixupReturns_correct:
  assumes "wf_func F"
  shows "((\<exists>F'. fixupReturns F = Inr F') \<longleftrightarrow>
      (\<forall>B \<in> set (fblocks F). 1 < length (filter (\<lambda>i. return_decision i \<noteq> None) (bins B)) \<longrightarrow>
         (\<forall>i \<in> set (bins B). return_decision i = None \<longrightarrow> \<not> has_md i ''INS_fakeReturn'')))
    \<and> (\<forall>F'. fixupReturns F = Inr F' \<longrightarrow>
      code_view F' = map (\<lambda>B. (bid B, decided_ref return_decision B)) (fblocks F))"
  using run_edits_total [OF assms, of return_decision] run_edits_view [OF assms, of return_decision]
  by (simp add: fixupReturns_run)

text \<open>
  \<open>buildBBMap\<close> maps a program counter to the first block in layout order whose first
  instruction carries it, the fake block apart, and to nothing when there is none.
\<close>

theorem buildBBMap_first:
  assumes "buildBBMap F = Inr bbMap"
  shows "bbMap pc = map_option bid (find (\<lambda>b. keyed b pc) (fblocks F))"
  using assms bb_map_fold [of "fblocks F" Map.empty bbMap pc] by (simp add: buildBBMap_def)

text \<open>A block with a marked store and its fake return.\<close>

definition fixup_sample :: "string \<Rightarrow> mdnode \<Rightarrow> func" where
  "fixup_sample k node = \<lparr>fid = 1, fname = ''f'', fblocks = [\<lparr>bid = 7, bname = ''b'', bins =
     [\<lparr>iid = 1, ikind = Store (ConstInt 32 8) (GlobalVar ''PC''),
       imeta = [k \<mapsto> node, ''BB_pcStart'' \<mapsto> hex_node 8]\<rparr>,
      \<lparr>iid = 2, ikind = Ret None, imeta = [''INS_fakeReturn'' \<mapsto> true_node]\<rparr>]\<rparr>]\<rparr>"

lemma fixup_sample_wf: "wf_func (fixup_sample k node)"
  by (simp add: fixup_sample_def wf_func_def ins_ids_def func_ins_def)

lemma fixup_sample_jump:
  "\<exists>F'. fixupDirectJumps (fixup_sample ''INS_directJump'' (hex_node 8)) [8 \<mapsto> 7] = Inr F'"
  by (simp add: fixup_sample_def fixupDirectJumps_def placed_ins_def direct_jump_edit_def has_md_def
      getHexMetadataFromIns_def get_md_def hex_node_def strtoll16_hex_gen apply_edits_def
      apply_edit_def erase_from_parent_def append_ins_def map_blocks_def ins_ids_def func_ins_def
      cleanupFakeReturns_def fake_return_ids_def drop_ids_def erase_all_def fresh_iid_def Let_def)

theorem fixupDirectJumps_view_witness:
  "\<exists>F'. fixupDirectJumps (fixup_sample ''INS_directJump'' (hex_node 8)) [8 \<mapsto> 7] = Inr F'
     \<and> code_view F' = [(7, [Br 7])]"
proof -
  obtain F' where r: "fixupDirectJumps (fixup_sample ''INS_directJump'' (hex_node 8)) [8 \<mapsto> 7] = Inr F'"
    using fixup_sample_jump by blast
  from fixupDirectJumps_view [OF fixup_sample_wf r] have "code_view F' = [(7, [Br 7])]"
    by (simp add: fixup_sample_def decided_ref_def jump_decision_def has_md_def map_filter_def
        getHexMetadataFromIns_def get_md_def hex_node_def strtoll16_hex_gen)
  with r show ?thesis by blast
qed

theorem fixupReturns_correct_witness:
  "\<exists>F'. fixupReturns (fixup_sample ''INS_return'' true_node) = Inr F'
     \<and> code_view F' = [(7, [Ret None])]"
proof -
  let ?F = "fixup_sample ''INS_return'' true_node"
  have "\<exists>F'. fixupReturns ?F = Inr F'"
    unfolding fixupReturns_correct [OF fixup_sample_wf, THEN conjunct1]
    by (simp add: fixup_sample_def return_decision_def has_md_def)
  then obtain F' where r: "fixupReturns ?F = Inr F'" by blast
  from fixupReturns_correct [OF fixup_sample_wf, THEN conjunct2, rule_format, OF r] have "code_view F' = [(7, [Ret None])]"
    by (simp add: fixup_sample_def decided_ref_def return_decision_def has_md_def map_filter_def)
  with r show ?thesis by blast
qed

theorem buildBBMap_first_witness:
  "\<exists>m. buildBBMap (fixup_sample ''INS_return'' true_node) = Inr m \<and> m 8 = Some 7"
proof -
  let ?F = "fixup_sample ''INS_return'' true_node"
  have "\<exists>m. buildBBMap ?F = Inr m"
    by (simp add: buildBBMap_def fixup_sample_def bb_map_step_def has_md_def getBBStart_def
        getHexMetadataFromIns_def get_md_def hex_node_def)
  then obtain m where m: "buildBBMap ?F = Inr m" by blast
  have "keyed (fblocks ?F ! 0) 8"
    by (simp add: keyed_def fixup_sample_def has_md_def getBBStart_def getHexMetadataFromIns_def
        get_md_def hex_node_def strtoll16_hex_gen)
  then have "m 8 = Some 7" using buildBBMap_first [OF m, of 8] by (simp add: fixup_sample_def)
  with m show ?thesis by blast
qed

end
