(* ===== verification/Save_BBs.thy ===== *)
theory Save_BBs
  imports Pass_Kit
begin

text \<open>
  Moving translated blocks between modules: \<open>SaveTranslatedBBs\<close> on the harvesting side and
  \<open>TransformBBToVoid\<close> on the other. Both declare in the target module everything the block mentions
  (\<open>copyGlobalReferences\<close>) and then call \<open>CloneFunctionInto\<close>, which is LLVM's and a parameter here.
  \<open>annotateNewFunction\<close> puts the program-counter bounds on every instruction: it is the provider of
  what every later pass reads with \<open>getPCStartOfFunc\<close> and \<open>getPCEndOfFunc\<close>.
\<close>

section \<open>Symbols of a module\<close>

definition fresh_fid :: "lmodule \<Rightarrow> nat" where
  "fresh_fid m = Suc (fold max (map fid (mfuncs m)) 0)"

definition getOrInsertGlobal :: "string \<Rightarrow> lmodule \<Rightarrow> lmodule" where
  "getOrInsertGlobal g m = (if g \<in> set (mglobals m) then m else m\<lparr>mglobals := mglobals m @ [g]\<rparr>)"

definition getOrInsertFunction :: "string \<Rightarrow> lmodule \<Rightarrow> lmodule" where
  "getOrInsertFunction nm m = (if nm \<in> set (map fname (mfuncs m)) then m
     else m\<lparr>mfuncs := mfuncs m @ [\<lparr>fid = fresh_fid m, fname = nm, fblocks = []\<rparr>]\<rparr>)"

definition lookup_function :: "string \<Rightarrow> lmodule \<Rightarrow> func option" where
  "lookup_function nm m = find (\<lambda>f. fname f = nm) (mfuncs m)"

definition update_function :: "string \<Rightarrow> (func \<Rightarrow> func) \<Rightarrow> lmodule \<Rightarrow> lmodule" where
  "update_function nm g m = m\<lparr>mfuncs := map (\<lambda>f. if fname f = nm then g f else f) (mfuncs m)\<rparr>"

text \<open>
  One operand. A value names a symbol, so the \<open>valueMap\<close> entry from the old symbol to the new one
  of the same name is the identity.
\<close>

definition copy_operand :: "val \<Rightarrow> lmodule \<Rightarrow> lmodule" where
  "copy_operand v m = (case v of
      GlobalVar g \<Rightarrow> getOrInsertGlobal g m
    | FuncRef f \<Rightarrow> getOrInsertFunction f m
    | _ \<Rightarrow> m)"

definition copyGlobalReferences :: "func \<Rightarrow> lmodule \<Rightarrow> lmodule" where
  "copyGlobalReferences f m = fold (\<lambda>i. fold copy_operand (operands (ikind i))) (func_ins f) m"

definition declared :: "lmodule \<Rightarrow> val \<Rightarrow> bool" where
  "declared m v = (case v of GlobalVar g \<Rightarrow> g \<in> set (mglobals m)
     | FuncRef f \<Rightarrow> f \<in> set (map fname (mfuncs m)) | _ \<Rightarrow> True)"

definition mentions :: "func \<Rightarrow> val set" where
  "mentions f = (\<Union>i \<in> set (func_ins f). set (operands (ikind i)))"

definition gnames :: "lmodule \<Rightarrow> string set" where
  "gnames m = set (mglobals m)"

definition fnames :: "lmodule \<Rightarrow> string set" where
  "fnames m = set (map fname (mfuncs m))"

lemma copy_operand_names:
  "gnames (copy_operand v m) = gnames m \<union> {g. v = GlobalVar g}"
  "fnames (copy_operand v m) = fnames m \<union> {f. v = FuncRef f}"
  by (cases v; auto simp: copy_operand_def gnames_def fnames_def getOrInsertGlobal_def
      getOrInsertFunction_def)+

lemma copy_operands_gnames: "gnames (fold copy_operand vs m) = gnames m \<union> {g. GlobalVar g \<in> set vs}"
  by (induction vs arbitrary: m) (auto simp: copy_operand_names)

lemma copy_operands_fnames: "fnames (fold copy_operand vs m) = fnames m \<union> {f. FuncRef f \<in> set vs}"
  by (induction vs arbitrary: m) (auto simp: copy_operand_names)

lemma copy_refs_gnames:
  "gnames (fold (\<lambda>i. fold copy_operand (operands (ikind i))) is m)
     = gnames m \<union> {g. \<exists>i \<in> set is. GlobalVar g \<in> set (operands (ikind i))}"
  by (induction "is" arbitrary: m) (auto simp: copy_operands_gnames)

lemma copy_refs_fnames:
  "fnames (fold (\<lambda>i. fold copy_operand (operands (ikind i))) is m)
     = fnames m \<union> {f. \<exists>i \<in> set is. FuncRef f \<in> set (operands (ikind i))}"
  by (induction "is" arbitrary: m) (auto simp: copy_operands_fnames)

section \<open>SaveTranslatedBBs\<close>

record translated_bb =
  m_bbFunction :: func
  m_pcStart :: u64
  m_pcEnd :: u64

definition annotateNewFunction :: "func \<Rightarrow> translated_bb \<Rightarrow> func" where
  "annotateNewFunction f bb = map_ins (\<lambda>ins.
     set_md (set_md ins ''BB_pcStart'' [MDStr (save_hex (m_pcStart bb))])
       ''BB_pcEnd'' [MDStr (save_hex (m_pcEnd bb))]) f"

text \<open>
  \<open>CloneFunctionInto newFunc oldFunc\<close>: what LLVM puts into the (usually empty) target function.
\<close>

type_synonym clone_fn = "func \<Rightarrow> func \<Rightarrow> func"

definition save_one :: "clone_fn \<Rightarrow> translated_bb \<Rightarrow> lmodule \<Rightarrow> lmodule" where
  "save_one clone transBB newModule =
     (let oldFunc = m_bbFunction transBB;
          m1 = getOrInsertFunction (fname oldFunc) newModule;
          m2 = copyGlobalReferences oldFunc m1 in
      update_function (fname oldFunc)
        (\<lambda>newFunc. annotateNewFunction (clone newFunc oldFunc) transBB) m2)"

definition createAndSaveTranslatedBasicBlocksAsAModule :: "clone_fn \<Rightarrow> translated_bb list \<Rightarrow> lmodule" where
  "createAndSaveTranslatedBasicBlocksAsAModule clone allBBs =
     fold (save_one clone) allBBs \<lparr>mfuncs = [], mglobals = []\<rparr>"

lemma save_hex_hex: "save_hex v = hex v"
  by (simp add: save_hex_def hex_def)

lemma annotate_first:
  assumes "fblocks f = b # bs" and "bins b = i # is"
  shows "getPCStartOfFunc (annotateNewFunction f bb) =
           Inr (if unat (m_pcStart bb) < 2 ^ 63 then m_pcStart bb else 2 ^ 63 - 1)"
    and "getPCEndOfFunc (annotateNewFunction f bb) =
           Inr (if unat (m_pcEnd bb) < 2 ^ 63 then m_pcEnd bb else 2 ^ 63 - 1)"
  using assms
  by (simp_all add: getPCStartOfFunc_def getPCEndOfFunc_def getHexMetadataFromFunc_def entry_block_def
      front_ins_def annotateNewFunction_def map_ins_def map_blocks_def getHexMetadataFromIns_def
      save_hex_hex strtoll16_hex_gen)

section \<open>TransformBBToVoid\<close>

text \<open>
  The clone of a translated block, its \<open>ret\<close>s replaced by \<open>ret void\<close> that carry \<open>INS_fakeReturn\<close>.
  \<open>terms\<close> are the return instructions of the clone, which is what \<open>CloneFunctionInto\<close> reports.
\<close>

definition fake_ret :: "instr \<Rightarrow> instr" where
  "fake_ret i = (if is_ret_kind (ikind i)
     then \<lparr>iid = iid i, ikind = Ret None, imeta = [''INS_fakeReturn'' \<mapsto> true_node]\<rparr> else i)"

definition transform_one :: "clone_fn \<Rightarrow> func \<Rightarrow> lmodule \<Rightarrow> lmodule" where
  "transform_one clone oldFunc m =
     (let nm = ''void-'' @ fname oldFunc;
          m1 = copyGlobalReferences oldFunc (getOrInsertFunction nm m) in
      update_function nm (\<lambda>newFunc. map_ins fake_ret (clone newFunc oldFunc)) m1)"

definition wants_void :: "func \<Rightarrow> bool" where
  "wants_void f \<longleftrightarrow> strstr (fname f) ''tcg-llvm-tb'' \<and> \<not> strstr (fname f) ''void-tcg-llvm-tb''"

text \<open>
  The loop visits functions inserted at the end while it runs; their names contain
  \<open>void-tcg-llvm-tb\<close> or are external, so visiting the functions of the start is the same.
\<close>

definition transform_bb_to_void :: "clone_fn \<Rightarrow> lmodule \<Rightarrow> lmodule \<times> bool" where
  "transform_bb_to_void clone m =
     (let eraseFuncs = filter wants_void (mfuncs m);
          m' = fold (transform_one clone) eraseFuncs m in
      (m'\<lparr>mfuncs := filter (\<lambda>f. fid f \<notin> set (map fid eraseFuncs)) (mfuncs m')\<rparr>, eraseFuncs \<noteq> []))"

section \<open>Properties\<close>

text \<open>
  After \<open>copyGlobalReferences\<close> every symbol the function mentions is declared in the module,
  and exactly the mentioned symbols are added to those the module had.
\<close>

theorem copyGlobalReferences_declares:
  "mentions f \<subseteq> {v. declared (copyGlobalReferences f m) v}
   \<and> gnames (copyGlobalReferences f m) = gnames m \<union> {g. GlobalVar g \<in> mentions f}
   \<and> fnames (copyGlobalReferences f m) = fnames m \<union> {n. FuncRef n \<in> mentions f}"
proof -
  have g: "gnames (copyGlobalReferences f m) = gnames m \<union> {g. GlobalVar g \<in> mentions f}"
    unfolding copyGlobalReferences_def copy_refs_gnames by (auto simp: mentions_def)
  have n: "fnames (copyGlobalReferences f m) = fnames m \<union> {n. FuncRef n \<in> mentions f}"
    unfolding copyGlobalReferences_def copy_refs_fnames by (auto simp: mentions_def)
  have "mentions f \<subseteq> {v. declared (copyGlobalReferences f m) v}"
  proof
    fix v assume "v \<in> mentions f"
    then show "v \<in> {v. declared (copyGlobalReferences f m) v}"
      using g n by (cases v) (simp_all add: declared_def del: set_map flip: gnames_def fnames_def)
  qed
  with g n show ?thesis by blast
qed

text \<open>
  C10. The bounds \<open>annotateNewFunction\<close> stores are the ones every pass reads back, on a function whose
  first block has an instruction and for addresses below \<open>2^63\<close>, and annotating keeps the code.
\<close>

theorem annotateNewFunction_bounds:
  assumes "fblocks f = b # bs" and "bins b = i # is"
    and "unat (m_pcStart bb) < 2 ^ 63" and "unat (m_pcEnd bb) < 2 ^ 63"
  shows "getPCStartOfFunc (annotateNewFunction f bb) = Inr (m_pcStart bb)
    \<and> getPCEndOfFunc (annotateNewFunction f bb) = Inr (m_pcEnd bb)
    \<and> skeleton (annotateNewFunction f bb) = skeleton f"
proof -
  have "skeleton (annotateNewFunction f bb) = skeleton f"
    by (simp add: skeleton_def annotateNewFunction_def map_ins_def map_blocks_def comp_def)
  then show ?thesis using annotate_first [OF assms(1,2), of bb] assms(3,4) by simp
qed

theorem annotateNewFunction_bounds_witness:
  "getPCStartOfFunc (annotateNewFunction
     \<lparr>fid = 1, fname = ''f'', fblocks = [\<lparr>bid = 1, bname = ''e'', bins = [mk_ins 1 (Ret None)]\<rparr>]\<rparr>
     \<lparr>m_bbFunction = \<lparr>fid = 1, fname = ''f'', fblocks = []\<rparr>, m_pcStart = 0x8000, m_pcEnd = 0x8010\<rparr>)
   = Inr 0x8000"
  using annotateNewFunction_bounds [of
      "\<lparr>fid = 1, fname = ''f'', fblocks = [\<lparr>bid = 1, bname = ''e'', bins = [mk_ins 1 (Ret None)]\<rparr>]\<rparr>"
      _ "[]" _ "[]"
      "\<lparr>m_bbFunction = \<lparr>fid = 1, fname = ''f'', fblocks = []\<rparr>, m_pcStart = 0x8000, m_pcEnd = 0x8010\<rparr>"]
  by simp

end
