(* ===== verification/Build_Functions.thy ===== *)
theory Build_Functions
  imports Build_Fixups Save_BBs
begin

text \<open>
  \<open>BuildFunctions::makeFunctionForward\<close> and \<open>runOnModule\<close>: the composition of exploration, cloning and
  the four fix-ups, over all function entries of a module. The pass writes the functions to a new
  module and leaves the input alone: its list of functions to remove stays empty, because the loop
  that should fill it compares an iterator with itself.
\<close>

section \<open>inlineBBs\<close>

text \<open>
  Declares in the new module what each explored block mentions and clones the block into the new
  function, then adds the target of the unsolved indirect jumps. The new function is kept apart from
  the module while it is built; the module is the second component of the state.
\<close>

definition inline_one :: "clone_fn \<Rightarrow> func \<Rightarrow> func \<times> lmodule \<Rightarrow> func \<times> lmodule" where
  "inline_one clone f st = (clone (fst st) f, copyGlobalReferences f (snd st))"

definition inlineBBs :: "clone_fn \<Rightarrow> lmodule \<Rightarrow> func \<Rightarrow> func list \<Rightarrow> bool \<Rightarrow> func \<times> nat option \<times> lmodule" where
  "inlineBBs clone newModule newFunc BBsForThisFunction hasIndirectJump =
     (case fold (inline_one clone) BBsForThisFunction (newFunc, newModule) of (F, m) \<Rightarrow>
      if hasIndirectJump then
        (let (F', fakeBB) = add_ret_block ''fake_indirect_bb'' F in (F', Some fakeBB, m))
      else (F, None, m))"

section \<open>makeFunctionForward\<close>

text \<open>
  \<open>for (funci = begin; funci != funci; ++funci)\<close>: the condition is false at once, so nothing is
  scheduled for removal.
\<close>

definition schedule_removal :: "func list \<Rightarrow> func list \<Rightarrow> func list" where
  "schedule_removal BBsForThisFunction toBeRemoved = toBeRemoved"

definition makeFunctionForward :: "clone_fn \<Rightarrow> bbtable \<Rightarrow> lmodule \<Rightarrow> func \<Rightarrow> func \<Rightarrow> func list
    \<Rightarrow> (func \<times> lmodule \<times> func list) res" where
  "makeFunctionForward clone allBBs newModule newFunc startBB toBeRemoved =
     rbind (exploreBB allBBs startBB) (\<lambda>(BBsForThisFunction, hasIndirectJump).
     case inlineBBs clone newModule newFunc BBsForThisFunction hasIndirectJump of (F0, fakeBB, newModule') \<Rightarrow>
     rbind (require (\<not> hasIndirectJump \<or> fakeBB \<noteq> None) (AssertFailed ''fakeBB'')) (\<lambda>_.
     rbind (buildBBMap F0) (\<lambda>pcToBB0.
     rbind (fixupCalls F0 pcToBB0) (\<lambda>F1.
     rbind (buildBBMap F1) (\<lambda>pcToBB1.
     rbind (fixupDirectJumps F1 pcToBB1) (\<lambda>F2.
     rbind (buildBBMap F2) (\<lambda>pcToBB2.
     rbind (fixupIndirectJumps F2 pcToBB2 fakeBB) (\<lambda>F3.
     rbind (buildBBMap F3) (\<lambda>_.
     rbind (fixupReturns F3) (\<lambda>F4.
     rbind (buildBBMap F4) (\<lambda>_.
       Inr (F4, newModule', schedule_removal BBsForThisFunction toBeRemoved))))))))))))"

section \<open>runOnModule\<close>

definition is_translated :: "func \<Rightarrow> bool" where
  "is_translated f \<longleftrightarrow> strstr (fname f) ''void-tcg-llvm-tb''"

definition add_to_table :: "func \<Rightarrow> bbtable \<Rightarrow> bbtable res" where
  "add_to_table f allBBs = (if \<not> is_translated f then Inr allBBs
     else rbind (getPCStartOfFunc f) (\<lambda>pcStart. Inr ((pcStart, f) # allBBs)))"

definition is_entry :: "func \<Rightarrow> bool" where
  "is_entry f \<longleftrightarrow> is_translated f \<and> fblocks f \<noteq> [] \<and> bname (hd (fblocks f)) = ''func_entry_point''"

definition final_name :: "func \<Rightarrow> string" where
  "final_name f = ''final-func-'' @ fname f"

definition build_one :: "clone_fn \<Rightarrow> bbtable \<Rightarrow> func \<Rightarrow> lmodule \<times> func list \<Rightarrow> (lmodule \<times> func list) res" where
  "build_one clone allBBs f st = (case st of (newModule, eraseBBs) \<Rightarrow>
     if \<not> is_entry f then Inr st
     else (let nm = final_name f; m1 = getOrInsertFunction nm newModule in
       case lookup_function nm m1 of
         None \<Rightarrow> Inl (BadCast ''cast<Function>'')
       | Some newFunc \<Rightarrow>
           rbind (makeFunctionForward clone allBBs m1 newFunc f eraseBBs) (\<lambda>(F', m2, eraseBBs').
             Inr (update_function nm (\<lambda>_. F') m2, eraseBBs'))))"

text \<open>
  The entry block of a function must have no predecessor: when something jumps to it, a block
  \<open>fixup_entry\<close> with the metadata of the entry is put in front.
\<close>

definition block_uses :: "func \<Rightarrow> nat \<Rightarrow> nat" where
  "block_uses F b = length (filter (\<lambda>t. t = b) (concat (map (succ_ids \<circ> ikind) (func_ins F))))"

definition fixup_entry :: "func \<Rightarrow> func" where
  "fixup_entry F = (case fblocks F of
      [] \<Rightarrow> F
    | entry # rest \<Rightarrow>
        if bname entry = ''func_entry_point'' \<and> block_uses F (bid entry) \<noteq> 0 then
          F\<lparr>fblocks := \<lparr>bid = fresh_bid F, bname = ''fixup_entry'', bins =
              [\<lparr>iid = fresh_iid F, ikind = Br (bid entry),
                imeta = (case bins entry of [] \<Rightarrow> Map.empty | i # _ \<Rightarrow> imeta i)\<rparr>]\<rparr> # entry # rest\<rparr>
        else F)"

definition build_functions :: "clone_fn \<Rightarrow> lmodule \<Rightarrow> (lmodule \<times> bool) res" where
  "build_functions clone M =
     rbind (rfold add_to_table (mfuncs M) []) (\<lambda>allBBs.
     rbind (rfold (build_one clone allBBs) (mfuncs M) (\<lparr>mfuncs = [], mglobals = []\<rparr>, []))
       (\<lambda>(newModule, eraseBBs).
        Inr (newModule\<lparr>mfuncs := map fixup_entry (mfuncs newModule)\<rparr>, eraseBBs \<noteq> [])))"

section \<open>The table\<close>

lemma table_fold:
  "rfold add_to_table fs t0 = Inr t \<Longrightarrow>
   \<exists>pcs. length pcs = length (filter is_translated fs)
     \<and> t = rev (zip pcs (filter is_translated fs)) @ t0
     \<and> list_all2 (\<lambda>pc f. getPCStartOfFunc f = Inr pc) pcs (filter is_translated fs)"
proof (induction fs arbitrary: t0)
  case Nil
  then show ?case by simp
next
  case (Cons f fs)
  show ?case
  proof (cases "is_translated f")
    case False
    with Cons show ?thesis by (simp add: add_to_table_def)
  next
    case True
    obtain t1 where t1: "add_to_table f t0 = Inr t1" "rfold add_to_table fs t1 = Inr t"
      using Cons.prems by (auto simp: rbind_eq_Inr)
    with True obtain pc where pc: "getPCStartOfFunc f = Inr pc"
      and rest: "rfold add_to_table fs ((pc, f) # t0) = Inr t"
      by (auto simp: add_to_table_def [of f] rbind_eq_Inr)
    from Cons.IH [OF rest] obtain pcs where
      "length pcs = length (filter is_translated fs)"
      "t = rev (zip pcs (filter is_translated fs)) @ (pc, f) # t0"
      "list_all2 (\<lambda>pc f. getPCStartOfFunc f = Inr pc) pcs (filter is_translated fs)" by blast
    with True pc show ?thesis by (intro exI [of _ "pc # pcs"]) simp
  qed
qed

lemma table_last:
  assumes "rfold add_to_table fs [] = Inr t"
  shows "map_of t pc = find (\<lambda>f. getPCStartOfFunc f = Inr pc) (rev (filter is_translated fs))"
proof -
  obtain pcs where p: "t = rev (zip pcs (filter is_translated fs))"
    "list_all2 (\<lambda>pc f. getPCStartOfFunc f = Inr pc) pcs (filter is_translated fs)"
    using table_fold [OF assms] by auto
  have z: "map_of (zip pcs fs) pc = find (\<lambda>f. getPCStartOfFunc f = Inr pc) fs"
    if "list_all2 (\<lambda>pc f. getPCStartOfFunc f = Inr pc) pcs fs" for pcs fs
    using that by (induction rule: list_all2_induct) auto
  have "t = zip (rev pcs) (rev (filter is_translated fs))"
    using p(1) list_all2_lengthD [OF p(2)] by (simp add: zip_rev)
  moreover have "list_all2 (\<lambda>pc f. getPCStartOfFunc f = Inr pc) (rev pcs) (rev (filter is_translated fs))"
    using p(2) by simp
  ultimately show ?thesis by (simp add: z)
qed

section \<open>The entry fix-up\<close>

lemma fresh_bid_new: "fresh_bid F \<notin> set (map bid (fblocks F))"
  using le_fold_max [of _ "map bid (fblocks F)"] by (fastforce simp: fresh_bid_def)

lemma block_uses_fixup:
  assumes "fblocks F = B # bs" and "bname B = ''func_entry_point''" and "block_uses F (bid B) \<noteq> 0"
  shows "block_uses (fixup_entry F) (fresh_bid F) = block_uses F (fresh_bid F)"
proof -
  have "bid B \<noteq> fresh_bid F" using fresh_bid_new [of F] assms(1) by auto
  then show ?thesis
    using assms by (simp add: fixup_entry_def block_uses_def func_ins_def)
qed

text \<open>Every branch target of the function is one of its blocks.\<close>

definition closed_func :: "func \<Rightarrow> bool" where
  "closed_func F \<longleftrightarrow> (\<forall>i \<in> set (func_ins F). set (succ_ids (ikind i)) \<subseteq> bid ` set (fblocks F))"

lemma closed_fresh_unused: "closed_func F \<Longrightarrow> block_uses F (fresh_bid F) = 0"
  using fresh_bid_new [of F] by (auto simp: closed_func_def block_uses_def filter_empty_conv)

lemma fixup_entry_unused:
  assumes "closed_func F" and "fblocks F \<noteq> []" and "bname (hd (fblocks F)) = ''func_entry_point''"
  shows "block_uses (fixup_entry F) (bid (hd (fblocks (fixup_entry F)))) = 0"
proof -
  obtain B bs where B: "fblocks F = B # bs" using assms(2) by (cases "fblocks F") auto
  then have n: "bname B = ''func_entry_point''" using assms(3) by simp
  show ?thesis
  proof (cases "block_uses F (bid B) = 0")
    case True
    then have "fixup_entry F = F" by (simp add: fixup_entry_def B)
    with True B show ?thesis by simp
  next
    case False
    then have h: "bid (hd (fblocks (fixup_entry F))) = fresh_bid F"
      using n by (simp add: fixup_entry_def B)
    show ?thesis
      unfolding h block_uses_fixup [OF B n False] by (rule closed_fresh_unused) (rule assms(1))
  qed
qed

lemma makeFunctionForward_erase: "makeFunctionForward clone t m N f es = Inr (F, m', es') \<Longrightarrow> es' = es"
  unfolding makeFunctionForward_def schedule_removal_def
  by (auto simp: rbind_eq_Inr split_beta)

section \<open>Names\<close>

text \<open>The fix-ups never rename a function.\<close>

lemma apply_edit_name: "apply_edit e F = Inr F' \<Longrightarrow> fname F' = fname F"
  by (auto simp: apply_edit_def erase_from_parent_def split: prod.splits option.splits if_splits)

lemma apply_edits_name: "apply_edits es F = Inr F' \<Longrightarrow> fname F' = fname F"
  unfolding apply_edits_def
  by (erule rfold_invariant [where P = "\<lambda>G. fname G = fname F"]) (auto dest: apply_edit_name)

lemma cleanup_name: "cleanupFakeReturns bs F = Inr F' \<Longrightarrow> fname F' = fname F"
  unfolding cleanupFakeReturns_def by (auto dest: erase_all_Inr)

lemma target_or_fake_name: "target_or_fake nm t pc (F, k) = ((F', k'), b) \<Longrightarrow> fname F' = fname F"
  by (auto simp: target_or_fake_def add_ret_block_def Let_def split: option.splits)

lemma switch_cases_name: "switch_cases t v pcs (F, k) = ((F', k'), cs) \<Longrightarrow> fname F' = fname F"
proof (induction pcs arbitrary: v F k cs)
  case Nil
  then show ?case by simp
next
  case (Cons pc pcs)
  obtain G j b where g: "target_or_fake ''fake_switch_case'' t pc (F, k) = ((G, j), b)" by (metis surj_pair)
  with Cons.prems obtain cs' where "switch_cases t (v + 1) pcs (G, j) = ((F', k'), cs')"
    by (auto simp: split_beta Let_def prod_eq_iff)
  from Cons.IH [OF this] target_or_fake_name [OF g] show ?case by simp
qed

lemma build_switch_name: "build_switch t p (F, k) = Inr ((F', k'), u) \<Longrightarrow> fname F' = fname F"
proof -
  assume r: "build_switch t p (F, k) = Inr ((F', k'), u)"
  obtain b i where p: "p = (b, i)" by (cases p)
  show ?thesis
  proof (cases "F' = F")
    case False
    then obtain dpc idx pcs v st1 bd F2 k2 cs where
      "target_or_fake ''fake_switch'' t dpc (F, k) = (st1, bd)"
      "switch_cases t idx pcs st1 = ((F2, k2), cs)" "F' = append_ins b (SwitchI v bd cs) F2"
      using r unfolding build_switch_def p
      by (auto simp: rbind_eq_Inr split_beta Let_def split: if_splits option.splits)
         (metis prod.collapse)
    then show ?thesis
      using target_or_fake_name switch_cases_name by (metis append_ins_frame(2) surj_pair)
  qed simp
qed

lemma build_switches_name: "build_switches t ps (F, k) = Inr (F', us) \<Longrightarrow> fname F' = fname F"
proof (induction ps arbitrary: F k us)
  case Nil
  then show ?case by simp
next
  case (Cons p ps)
  then obtain G j u us' where "build_switch t p (F, k) = Inr ((G, j), u)" "build_switches t ps (G, j) = Inr (F', us')"
    by (auto simp: rbind_eq_Inr)
  then show ?case using Cons.IH build_switch_name by metis
qed

lemma fixup_names:
  "fixupCalls F t = Inr F' \<Longrightarrow> fname F' = fname F"
  "fixupDirectJumps F t = Inr F' \<Longrightarrow> fname F' = fname F"
  "fixupReturns F = Inr F' \<Longrightarrow> fname F' = fname F"
  "fixupIndirectJumps F t k = Inr F' \<Longrightarrow> fname F' = fname F"
  by (auto simp: fixupCalls_def fixupDirectJumps_def fixupReturns_def fixupIndirectJumps_def rbind_eq_Inr Let_def
      dest!: apply_edits_name cleanup_name build_switches_name split: option.splits if_splits)

section \<open>The new module\<close>

text \<open>What LLVM's cloning promises: the target keeps its name.\<close>

definition keeps_name :: "clone_fn \<Rightarrow> bool" where
  "keeps_name clone \<longleftrightarrow> (\<forall>g f. fname (clone g f) = fname g)"

lemma find_append_case: "find P (xs @ ys) = (case find P xs of None \<Rightarrow> find P ys | Some x \<Rightarrow> Some x)"
  by (induction xs) simp_all

text \<open>A module that only gained declarations.\<close>

definition grown :: "lmodule \<Rightarrow> lmodule \<Rightarrow> bool" where
  "grown m m' \<longleftrightarrow> (\<exists>ds. mfuncs m' = mfuncs m @ ds \<and> (\<forall>d \<in> set ds. fblocks d = []))"

lemma grown_refl [simp]: "grown m m"
  by (simp add: grown_def)

lemma grown_trans: "grown a b \<Longrightarrow> grown b c \<Longrightarrow> grown a c"
  by (auto simp: grown_def)

lemma grown_insert: "grown m (getOrInsertFunction nm m)"
  by (simp add: grown_def getOrInsertFunction_def)

lemma grown_operand: "grown m (copy_operand v m)"
proof (cases v)
  case (GlobalVar g)
  then show ?thesis by (simp add: copy_operand_def grown_def getOrInsertGlobal_def)
qed (simp_all add: copy_operand_def grown_insert)

lemma grown_fold: "(\<And>x m. grown m (g x m)) \<Longrightarrow> grown m (fold g xs m)"
  by (induction xs arbitrary: m) (auto intro: grown_trans)

lemma grown_copy: "grown m (copyGlobalReferences f m)"
  unfolding copyGlobalReferences_def by (intro grown_fold grown_operand)

lemma inline_fold:
  "grown (snd st) (snd (fold (inline_one clone) fs st)) \<and>
   (keeps_name clone \<longrightarrow> fname (fst (fold (inline_one clone) fs st)) = fname (fst st))"
proof (induction fs arbitrary: st)
  case (Cons f fs)
  have "grown (snd st) (snd (inline_one clone f st))" by (simp add: inline_one_def grown_copy)
  moreover have "keeps_name clone \<longrightarrow> fname (fst (inline_one clone f st)) = fname (fst st)"
    by (simp add: inline_one_def keeps_name_def)
  ultimately show ?case using Cons.IH [of "inline_one clone f st"] grown_trans by auto
qed simp

lemma makeFunctionForward_frame:
  assumes "makeFunctionForward clone t m N f es = Inr (F, m', es')" and "keeps_name clone"
  shows "fname F = fname N \<and> grown m m' \<and> es' = es"
proof -
  obtain fs ind where x: "exploreBB t f = Inr (fs, ind)"
    using assms(1) unfolding makeFunctionForward_def by (cases "exploreBB t f") auto
  obtain F0 fk m0 where F0': "inlineBBs clone m N fs ind = (F0, fk, m0)" by (metis prod_cases3)
  obtain m1 m2 m3 F1 F2 F3 where "fixupCalls F0 m1 = Inr F1" "fixupDirectJumps F1 m2 = Inr F2"
    "fixupIndirectJumps F2 m3 fk = Inr F3" "fixupReturns F3 = Inr F" and m0: "m0 = m'"
    using assms(1) unfolding makeFunctionForward_def x rbind_simps prod.case F0' by (auto simp: rbind_eq_Inr)
  then have F: "fname F = fname F0" by (simp add: fixup_names)
  note F0 = F0' [unfolded m0]
  have "fname F0 = fname N \<and> grown m m'"
    using F0 inline_fold [of "(N, m)" clone fs] assms(2)
    by (auto simp: inlineBBs_def add_ret_block_def split: prod.splits if_splits)
  with F makeFunctionForward_erase [OF assms(1)] show ?thesis by simp
qed

lemma lookup_grown: "grown m m' \<Longrightarrow> lookup_function nm m = Some F \<Longrightarrow> lookup_function nm m' = Some F"
  by (auto simp: grown_def lookup_function_def find_append_case split: option.splits)

lemma lookup_grown_new:
  assumes "grown m m'" and "lookup_function nm m' = Some F"
  shows "lookup_function nm m = Some F \<or> fblocks F = []"
proof -
  obtain ds where ds: "mfuncs m' = mfuncs m @ ds" "\<forall>d \<in> set ds. fblocks d = []"
    using assms(1) by (auto simp: grown_def)
  have new: "fblocks F = []" if "find (\<lambda>f. fname f = nm) ds = Some F"
    using that ds(2) by (auto simp: find_Some_iff)
  show ?thesis
    using assms(2) ds(1) new
    by (auto simp: lookup_function_def find_append_case split: option.splits)
qed

lemma lookup_update:
  assumes "fname F' = nm"
  shows "lookup_function k (update_function nm (\<lambda>_. F') m) =
    (if k = nm then map_option (\<lambda>_. F') (lookup_function nm m) else lookup_function k m)"
proof -
  have "find (\<lambda>f. fname f = k) (map (\<lambda>f. if fname f = nm then F' else f) fs) =
      (if k = nm then map_option (\<lambda>_. F') (find (\<lambda>f. fname f = nm) fs) else find (\<lambda>f. fname f = k) fs)" for fs
    using assms by (induction fs) auto
  then show ?thesis by (simp add: lookup_function_def update_function_def)
qed

lemma lookup_name: "lookup_function nm m = Some F \<Longrightarrow> fname F = nm"
  by (auto simp: lookup_function_def find_Some_iff)

lemma lookup_inserted: "\<exists>F. lookup_function nm (getOrInsertFunction nm m) = Some F"
proof (cases "lookup_function nm (getOrInsertFunction nm m)")
  case None
  then show ?thesis
    by (auto simp: lookup_function_def getOrInsertFunction_def find_None_iff split: if_splits)
qed simp

text \<open>The body of a finished function: what \<open>makeFunctionForward\<close> made from an empty declaration.\<close>

definition built :: "clone_fn \<Rightarrow> bbtable \<Rightarrow> func \<Rightarrow> func \<Rightarrow> bool" where
  "built clone t f F \<longleftrightarrow> (\<exists>m decl m'. fblocks decl = [] \<and> fname decl = final_name f \<and>
     makeFunctionForward clone t m decl f [] = Inr (F, m', []))"

lemma build_one_step:
  assumes "build_one clone t f (m, []) = Inr (m', es)" and "keeps_name clone"
    and "is_entry f \<longrightarrow> (\<forall>F. lookup_function (final_name f) m = Some F \<longrightarrow> fblocks F = [])"
  shows "es = []"
    and "is_entry f \<Longrightarrow> \<exists>F. lookup_function (final_name f) m' = Some F \<and> built clone t f F"
    and "\<not> is_entry f \<or> nm \<noteq> final_name f \<Longrightarrow> lookup_function nm m = Some G \<Longrightarrow> lookup_function nm m' = Some G"
    and "\<not> is_entry f \<or> nm \<noteq> final_name f \<Longrightarrow> lookup_function nm m' = Some G
      \<Longrightarrow> lookup_function nm m = Some G \<or> fblocks G = []"
proof -
  let ?k = "final_name f" and ?m1 = "getOrInsertFunction (final_name f) m"
  have "es = [] \<and> (is_entry f \<longrightarrow> (\<exists>F. lookup_function ?k m' = Some F \<and> built clone t f F)) \<and>
    (\<forall>nm G. \<not> is_entry f \<or> nm \<noteq> ?k \<longrightarrow> lookup_function nm m = Some G \<longrightarrow> lookup_function nm m' = Some G) \<and>
    (\<forall>nm G. \<not> is_entry f \<or> nm \<noteq> ?k \<longrightarrow> lookup_function nm m' = Some G \<longrightarrow> lookup_function nm m = Some G \<or> fblocks G = [])"
  proof (cases "is_entry f")
    case False
    then show ?thesis using assms(1) by (simp add: build_one_def)
  next
    case True
    obtain N where N: "lookup_function ?k ?m1 = Some N" using lookup_inserted by blast
    obtain F m2 es' where r: "makeFunctionForward clone t ?m1 N f [] = Inr (F, m2, es')"
      and m': "m' = update_function ?k (\<lambda>_. F) m2" "es = es'"
      using assms(1) True N by (auto simp: build_one_def rbind_eq_Inr Let_def)
    note fr = makeFunctionForward_frame [OF r assms(2)]
    have n: "fname F = ?k" using fr lookup_name [OF N] by simp
    have e: "fblocks N = []" using lookup_grown_new [OF grown_insert N] assms(3) True by blast
    have g: "grown m m2" using fr grown_trans [OF grown_insert] by blast
    have "lookup_function ?k m2 = Some N" using lookup_grown fr N by blast
    then have "lookup_function ?k m' = Some F" by (simp add: m' lookup_update [OF n])
    moreover have "built clone t f F" using r fr e lookup_name [OF N] by (auto simp: built_def)
    ultimately show ?thesis
      using True fr m'(2) lookup_grown [OF g] lookup_grown_new [OF g] by (auto simp: m'(1) lookup_update [OF n])
  qed
  then show "es = []"
    and "is_entry f \<Longrightarrow> \<exists>F. lookup_function ?k m' = Some F \<and> built clone t f F"
    and "\<not> is_entry f \<or> nm \<noteq> ?k \<Longrightarrow> lookup_function nm m = Some G \<Longrightarrow> lookup_function nm m' = Some G"
    and "\<not> is_entry f \<or> nm \<noteq> ?k \<Longrightarrow> lookup_function nm m' = Some G
      \<Longrightarrow> lookup_function nm m = Some G \<or> fblocks G = []"
    by blast+
qed

lemma build_all:
  assumes "rfold (build_one clone t) fs (m, []) = Inr (m', es)" and "keeps_name clone"
    and "distinct (map fname (filter is_entry fs))"
    and "\<forall>f \<in> set fs. is_entry f \<longrightarrow> (\<forall>F. lookup_function (final_name f) m = Some F \<longrightarrow> fblocks F = [])"
  shows "es = [] \<and> (\<forall>f \<in> set fs. is_entry f \<longrightarrow>
      (\<exists>F. lookup_function (final_name f) m' = Some F \<and> built clone t f F))
    \<and> (\<forall>nm G. nm \<notin> (\<lambda>f. final_name f) ` set (filter is_entry fs) \<longrightarrow>
        lookup_function nm m = Some G \<longrightarrow> lookup_function nm m' = Some G)"
  using assms
proof (induction fs arbitrary: m)
  case Nil
  then show ?case by simp
next
  case (Cons f fs)
  let ?k = final_name
  obtain m1 es1 where s: "build_one clone t f (m, []) = Inr (m1, es1)"
    "rfold (build_one clone t) fs (m1, es1) = Inr (m', es)"
    using Cons.prems(1) by (auto simp: rbind_eq_Inr)
  have empty: "is_entry f \<longrightarrow> (\<forall>F. lookup_function (?k f) m = Some F \<longrightarrow> fblocks F = [])"
    using Cons.prems(4) by simp
  note st = build_one_step [OF s(1) Cons.prems(2) empty]
  have apart: "\<not> is_entry f \<or> ?k g \<noteq> ?k f" if "g \<in> set fs" "is_entry g" for g
    proof -
    have "is_entry f \<Longrightarrow> fname f \<notin> fname ` set (filter is_entry fs)" using Cons.prems(3) by simp
    moreover have "fname g \<in> fname ` set (filter is_entry fs)" using that by simp
    ultimately show ?thesis by (metis final_name_def same_append_eq)
  qed
  have empty1: "\<forall>g \<in> set fs. is_entry g \<longrightarrow> (\<forall>F. lookup_function (?k g) m1 = Some F \<longrightarrow> fblocks F = [])"
  proof (intro ballI impI allI)
    fix g F assume g: "g \<in> set fs" "is_entry g" "lookup_function (?k g) m1 = Some F"
    have "g \<in> set (f # fs)" using g(1) by simp
    with Cons.prems(4) g(2) have "lookup_function (?k g) m = Some F \<Longrightarrow> fblocks F = []" by blast
    with st(4) [OF apart [OF g(1,2)] g(3)] show "fblocks F = []" by blast
  qed
  have run: "rfold (build_one clone t) fs (m1, []) = Inr (m', es)" using s(2) st(1) by simp
  have d: "distinct (map fname (filter is_entry fs))" using Cons.prems(3) by (auto split: if_splits)
  note ih = Cons.IH [OF run Cons.prems(2) d empty1]
  have "?k f \<notin> ?k ` set (filter is_entry fs)" if "is_entry f"
  proof
    assume "?k f \<in> ?k ` set (filter is_entry fs)"
    then obtain g where g: "g \<in> set fs" "is_entry g" "?k g = ?k f" by auto
    from apart [OF g(1,2)] g(3) that show False by simp
  qed
  then have "is_entry f \<Longrightarrow> \<exists>F. lookup_function (?k f) m' = Some F \<and> built clone t f F"
    using st(2) ih by blast
  moreover have "lookup_function nm m' = Some G"
    if "nm \<notin> ?k ` set (filter is_entry (f # fs))" "lookup_function nm m = Some G" for nm G
    using that st(3) [OF _ that(2)] ih by (cases "is_entry f") auto
  ultimately show ?case using ih by auto
qed

lemma fixup_entry_name [simp]: "fname (fixup_entry F) = fname F"
  by (simp add: fixup_entry_def split: list.split)

lemma lookup_fixup:
  "lookup_function nm (N\<lparr>mfuncs := map fixup_entry (mfuncs N)\<rparr>) = map_option fixup_entry (lookup_function nm N)"
proof -
  have "find (\<lambda>f. fname f = nm) (map fixup_entry fs) = map_option fixup_entry (find (\<lambda>f. fname f = nm) fs)" for fs
    by (induction fs) auto
  then show ?thesis by (simp add: lookup_function_def)
qed

lemma build_functions_bodies:
  assumes "build_functions clone M = Inr (N, modified)" and "keeps_name clone"
    and "distinct (map fname (filter is_entry (mfuncs M)))"
  shows "\<not> modified \<and> (\<exists>allBBs. rfold add_to_table (mfuncs M) [] = Inr allBBs \<and>
    (\<forall>f \<in> set (mfuncs M). is_entry f \<longrightarrow>
      (\<exists>F. built clone allBBs f F \<and> lookup_function (final_name f) N = Some (fixup_entry F))))"
proof -
  obtain t N0 es where r: "rfold add_to_table (mfuncs M) [] = Inr t"
    "rfold (build_one clone t) (mfuncs M) (\<lparr>mfuncs = [], mglobals = []\<rparr>, []) = Inr (N0, es)"
    "N = N0\<lparr>mfuncs := map fixup_entry (mfuncs N0)\<rparr>" "modified = (es \<noteq> [])"
    using assms(1) by (auto simp: build_functions_def rbind_eq_Inr)
  note all = build_all [OF r(2) assms(2,3)]
  have
    "es = []" "\<forall>f \<in> set (mfuncs M). is_entry f \<longrightarrow>
      (\<exists>F. lookup_function (final_name f) N0 = Some F \<and> built clone t f F)"
    using all by (simp_all add: lookup_function_def)
  then show ?thesis unfolding r(3,4) lookup_fixup using r(1) by fastforce
qed

section \<open>Properties\<close>

text \<open>
  The table of all basic blocks: a program counter maps to the last translated function of the
  module that starts there (a later one replaces an earlier one), and to none if there is none.
\<close>

theorem bb_table_last:
  assumes "rfold add_to_table (mfuncs M) [] = Inr allBBs"
  shows "map_of allBBs pc = find (\<lambda>f. getPCStartOfFunc f = Inr pc) (rev (filter is_translated (mfuncs M)))"
  using assms by (rule table_last)

text \<open>
  The entry fix-up: in a function whose branches stay inside it and that begins with
  \<open>func_entry_point\<close>, nothing branches to the first block afterwards.
\<close>

theorem fixup_entry_no_uses:
  assumes "closed_func F" and "fblocks F \<noteq> []" and "bname (hd (fblocks F)) = ''func_entry_point''"
  shows "block_uses (fixup_entry F) (bid (hd (fblocks (fixup_entry F)))) = 0"
  using assms by (rule fixup_entry_unused)

text \<open>
  C11. \<open>BuildFunctions\<close> on a module: every function entry gets, under the name \<open>final-func-\<close> and its own,
  the body \<open>makeFunctionForward\<close> builds from an empty declaration over the table of all basic blocks,
  with the entry fixed up; later entries leave it alone, and the module is always reported unchanged.
\<close>

theorem build_functions_builds:
  assumes "build_functions clone M = Inr (newModule, modified)" and "keeps_name clone"
    and "distinct (map fname (filter is_entry (mfuncs M)))"
  shows "\<not> modified \<and> (\<exists>allBBs. rfold add_to_table (mfuncs M) [] = Inr allBBs \<and>
    (\<forall>f \<in> set (mfuncs M). is_entry f \<longrightarrow>
      (\<exists>F. built clone allBBs f F \<and> lookup_function (final_name f) newModule = Some (fixup_entry F))))"
  by (rule build_functions_bodies [OF assms])

text \<open>A self loop at the entry.\<close>

definition self_loop :: func where
  "self_loop = \<lparr>fid = 1, fname = ''final-func-void-tcg-llvm-tb-0'', fblocks =
     [\<lparr>bid = 3, bname = ''func_entry_point'', bins = [mk_ins 1 (Br 3)]\<rparr>]\<rparr>"

theorem fixup_entry_no_uses_witness:
  "block_uses self_loop 3 = 1 \<and> block_uses (fixup_entry self_loop) (bid (hd (fblocks (fixup_entry self_loop)))) = 0"
  using fixup_entry_no_uses [of self_loop]
  by (simp add: self_loop_def closed_func_def block_uses_def func_ins_def)

definition entry_module :: lmodule where
  "entry_module = \<lparr>mfuncs = [\<lparr>fid = 1, fname = ''void-tcg-llvm-tb-0'', fblocks =
     [\<lparr>bid = 1, bname = ''func_entry_point'', bins =
        [\<lparr>iid = 1, ikind = Ret None, imeta = block_md 8 16\<rparr>]\<rparr>]\<rparr>], mglobals = []\<rparr>"

lemma entry_module_start: "getPCStartOfFunc (hd (mfuncs entry_module)) = Inr 8"
  using block_md_bounds(1) [of "hd (mfuncs entry_module)" _ "[]" _ "[]" 8 16]
  by (simp add: entry_module_def)

lemma entry_module_table: "rfold add_to_table (mfuncs entry_module) [] = Inr [(8, hd (mfuncs entry_module))]"
  using entry_module_start
  by (simp add: entry_module_def add_to_table_def is_translated_def startswith_def)

theorem bb_table_last_witness:
  "map_of [(8, hd (mfuncs entry_module))] 8 = Some (hd (mfuncs entry_module))"
  using bb_table_last [OF entry_module_table, of 8] entry_module_start
  by (simp add: entry_module_def is_translated_def startswith_def)

definition copy_body :: clone_fn where
  "copy_body g f = g\<lparr>fblocks := fblocks f\<rparr>"

lemma entry_explored:
  "exploreBB t (hd (mfuncs entry_module)) = Inr ([hd (mfuncs entry_module)], False)"
  by (simp add: exploreBB_def explore_loop.simps explore_init_def explore_func_def entry_module_def
      func_ins_def explore_ins_def store_to_def is_store_def)

lemma entry_make:
  assumes f: "mfuncs entry_module = [f]"
  shows "\<exists>m'. makeFunctionForward copy_body t m N f es = Inr (copy_body N f, m', es)"
proof -
  obtain b where b: "fblocks f = [b]" "bins b = [\<lparr>iid = 1, ikind = Ret None, imeta = block_md 8 16\<rparr>]"
    using f by (auto simp: entry_module_def)
  have bb: "buildBBMap G = Inr (if bname b \<noteq> ''fake_indirect_bb'' then [8 \<mapsto> bid b] else Map.empty)"
    if "fblocks G = [b]" for G
    using b that
    by (simp add: buildBBMap_def bb_map_step_def getBBStart_def getHexMetadataFromIns_def get_md_def has_md_def
        block_md_def hex_node_def strtoll16_hex_gen)
  have pl: "placed_ins G = [(bid b, \<lparr>iid = 1, ikind = Ret None, imeta = block_md 8 16\<rparr>)]"
    if "fblocks G = [b]" for G
    using b that by (simp add: placed_ins_def)
  have fx: "fixupCalls G t = Inr G" "fixupDirectJumps G t = Inr G" "fixupIndirectJumps G t k = Inr G" "fixupReturns G = Inr G"
    if "fblocks G = [b]" for G t k
    using b that
    by (simp_all add: fixupCalls_def fix_call_block_def fix_call_ins_def has_md_def block_md_def
        fixupDirectJumps_def direct_jump_edit_def fixupIndirectJumps_def fixupReturns_def return_edits_def pl
        apply_edits_def cleanupFakeReturns_def erase_all_def List.map_filter_def split: option.splits)
  show ?thesis
    using entry_explored [of t, unfolded f list.sel] b(1)
    by (simp add: makeFunctionForward_def inlineBBs_def inline_one_def copy_body_def bb fx schedule_removal_def)
qed

lemma entry_build_one:
  assumes f: "mfuncs entry_module = [f]"
  shows "\<exists>N. build_one copy_body t f (\<lparr>mfuncs = [], mglobals = []\<rparr>, []) = Inr (N, [])"
proof -
  have e: "is_entry f" using f by (auto simp: is_entry_def is_translated_def entry_module_def startswith_def)
  obtain N where N: "lookup_function (final_name f) (getOrInsertFunction (final_name f) \<lparr>mfuncs = [], mglobals = []\<rparr>) = Some N"
    using lookup_inserted by blast
  obtain m' where m': "makeFunctionForward copy_body t
      (getOrInsertFunction (final_name f) \<lparr>mfuncs = [], mglobals = []\<rparr>) N f [] = Inr (copy_body N f, m', [])"
    using entry_make [OF f] by blast
  show ?thesis using e by (simp add: build_one_def N m' Let_def)
qed

text \<open>The entry module runs: its one block is explored, cloned and left as it is.\<close>

lemma entry_module_runs: "\<exists>N. build_functions copy_body entry_module = Inr (N, False)"
proof -
  obtain f where f: "mfuncs entry_module = [f]" by (simp add: entry_module_def)
  obtain N where "build_one copy_body [(8, f)] f (\<lparr>mfuncs = [], mglobals = []\<rparr>, []) = Inr (N, [])"
    using entry_build_one [OF f] by blast
  then show ?thesis
    using entry_module_table [unfolded f list.sel] by (simp add: build_functions_def f)
qed

theorem build_functions_builds_witness:
  "\<exists>N F. build_functions copy_body entry_module = Inr (N, False) \<and>
     built copy_body [(8, hd (mfuncs entry_module))] (hd (mfuncs entry_module)) F \<and>
     lookup_function ''final-func-void-tcg-llvm-tb-0'' N = Some (fixup_entry F)"
proof -
  obtain N where N: "build_functions copy_body entry_module = Inr (N, False)" using entry_module_runs by blast
  have "keeps_name copy_body" by (simp add: keeps_name_def copy_body_def)
  from build_functions_builds [OF N this] entry_module_table N show ?thesis
    by (auto simp: entry_module_def final_name_def is_entry_def is_translated_def startswith_def)
qed

end
