(* ===== verification/Symbol_Passes.thy ===== *)
theory Symbol_Passes
  imports Build_Functions
begin

text \<open>
  The passes that name and expose symbols: \<open>MarkFuncEntry\<close> names the first block of every translated block that
  is called, which is how \<open>BuildFunctions\<close> knows the functions to build; \<open>FunctionRename\<close> names a linked
  function after its address; \<open>InternalizeGlobals\<close> makes the flags private.
\<close>

section \<open>MarkFuncEntry\<close>

text \<open>Only the first LLVM block of a translated block is searched for calls.\<close>

definition call_targets_ins :: "instr \<Rightarrow> u64 set \<Rightarrow> u64 set res" where
  "call_targets_ins i directCallTargets =
     (if has_md i ''INS_directCall''
      then rbind (getHexMetadataFromIns i ''INS_directCall'') (\<lambda>target. Inr (insert target directCallTargets))
      else Inr directCallTargets)"

definition call_targets :: "func \<Rightarrow> u64 set \<Rightarrow> u64 set res" where
  "call_targets f directCallTargets =
     (if \<not> is_translated f then Inr directCallTargets
      else (case fblocks f of
          [] \<Rightarrow> Inl (AssertFailed ''funci->size()'')
        | b # _ \<Rightarrow> rfold call_targets_ins (bins b) directCallTargets))"

definition mark_entry :: "u64 set \<Rightarrow> func \<Rightarrow> (func \<times> bool) res" where
  "mark_entry directCallTargets f =
     (if \<not> is_translated f then Inr (f, False)
      else (case fblocks f of
          [] \<Rightarrow> Inl (AssertFailed ''funci->size()'')
        | b # bs \<Rightarrow> rbind (getPCStartOfFunc f) (\<lambda>pcStart.
            Inr (if pcStart \<in> directCallTargets then (f\<lparr>fblocks := b\<lparr>bname := ''func_entry_point''\<rparr> # bs\<rparr>, True)
                 else (f, False)))))"

definition mark_func_entry :: "lmodule \<Rightarrow> (lmodule \<times> bool) res" where
  "mark_func_entry M = rbind (rfold call_targets (mfuncs M) {}) (\<lambda>directCallTargets.
     rbind (rmap (mark_entry directCallTargets) (mfuncs M)) (\<lambda>rs.
       Inr (M\<lparr>mfuncs := map fst rs\<rparr>, list_ex snd rs)))"

section \<open>FunctionRename\<close>

text \<open>A suffix LLVM adds to a name that is already taken is not modelled.\<close>

definition function_rename :: "func \<Rightarrow> (func \<times> bool) res" where
  "function_rename F =
     (if \<not> strstr (fname F) ''linked-final'' then Inr (F, False)
      else (case fblocks F of
          [] \<Rightarrow> Inr (F, False)
        | b # _ \<Rightarrow> (case bins b of
            [] \<Rightarrow> Inr (F, False)
          | ins # _ \<Rightarrow>
              if \<not> has_md ins ''INS_currPC'' then Inr (F, False)
              else rbind (getHexMetadataFromIns ins ''INS_currPC'') (\<lambda>pcStart.
                Inr (F\<lparr>fname := ''Function_'' @ hex pcStart\<rparr>, True)))))"

section \<open>InternalizeGlobals\<close>

datatype gtype = PointerType | AggregateType | IntegerType nat | OtherType

datatype ginit = NoInit | ConstantPointerNull | ConstantAggregateZero | ConstantIntZero | OtherInit string

record gvar =
  gname :: string
  gtype :: gtype
  ginit :: ginit
  internal :: bool

definition zero_of :: "gtype \<Rightarrow> ginit res" where
  "zero_of t = (case t of
      PointerType \<Rightarrow> Inr ConstantPointerNull
    | AggregateType \<Rightarrow> Inr ConstantAggregateZero
    | IntegerType w \<Rightarrow> Inr ConstantIntZero
    | OtherType \<Rightarrow> Inl (AssertFailed ''unsupported global type''))"

definition internalize_global :: "gvar \<Rightarrow> gvar res" where
  "internalize_global g =
     (if ginit g \<noteq> NoInit then Inr (g\<lparr>internal := True\<rparr>)
      else if gname g \<notin> {''CF'', ''ZF'', ''VF'', ''NF''} then Inr g
      else rbind (zero_of (gtype g)) (\<lambda>init. Inr (g\<lparr>ginit := init, internal := True\<rparr>)))"

definition internalize_globals :: "gvar list \<Rightarrow> (gvar list \<times> bool) res" where
  "internalize_globals gs = rbind (rmap internalize_global gs) (\<lambda>gs'. Inr (gs', True))"

section \<open>Which blocks become entries\<close>

text \<open>The direct calls of the module that the pass sees.\<close>

definition called :: "lmodule \<Rightarrow> u64 \<Rightarrow> bool" where
  "called M pc \<longleftrightarrow> (\<exists>f \<in> set (mfuncs M). is_translated f \<and> fblocks f \<noteq> [] \<and>
     (\<exists>i \<in> set (bins (hd (fblocks f))). getHexMetadataFromIns i ''INS_directCall'' = Inr pc))"

lemma call_targets_inss:
  "rfold call_targets_ins is T = Inr T' \<Longrightarrow>
   T' = T \<union> {pc. \<exists>i \<in> set is. getHexMetadataFromIns i ''INS_directCall'' = Inr pc}"
proof (induction "is" arbitrary: T)
  case (Cons i "is")
  then obtain T1 where T1: "call_targets_ins i T = Inr T1" "rfold call_targets_ins is T1 = Inr T'"
    by (auto simp: rbind_eq_Inr)
  have "T1 = T \<union> {pc. getHexMetadataFromIns i ''INS_directCall'' = Inr pc}"
    using T1(1) getHex_Inr_has [of i "''INS_directCall''"]
    by (auto simp: call_targets_ins_def rbind_eq_Inr split: if_splits)
  with Cons.IH [OF T1(2)] show ?case by auto
qed simp

lemma call_targets_all:
  "rfold call_targets fs T = Inr T' \<Longrightarrow>
   T' = T \<union> {pc. \<exists>f \<in> set fs. is_translated f \<and> fblocks f \<noteq> [] \<and>
     (\<exists>i \<in> set (bins (hd (fblocks f))). getHexMetadataFromIns i ''INS_directCall'' = Inr pc)}"
proof (induction fs arbitrary: T)
  case (Cons f fs)
  then obtain T1 where T1: "call_targets f T = Inr T1" "rfold call_targets fs T1 = Inr T'"
    by (auto simp: rbind_eq_Inr)
  have "T1 = T \<union> {pc. is_translated f \<and> fblocks f \<noteq> [] \<and>
      (\<exists>i \<in> set (bins (hd (fblocks f))). getHexMetadataFromIns i ''INS_directCall'' = Inr pc)}"
    using T1(1) by (auto simp: call_targets_def split: if_splits list.splits dest: call_targets_inss)
  with Cons.IH [OF T1(2)] show ?case by auto
qed simp

text \<open>What the pass does to one function.\<close>

definition renamed_entry :: "lmodule \<Rightarrow> func \<Rightarrow> func" where
  "renamed_entry M f = (case fblocks f of
      [] \<Rightarrow> f
    | b # bs \<Rightarrow> if is_translated f \<and> (\<exists>pc. getPCStartOfFunc f = Inr pc \<and> called M pc)
        then f\<lparr>fblocks := b\<lparr>bname := ''func_entry_point''\<rparr> # bs\<rparr> else f)"

lemma mark_func_entry_eq:
  assumes "mark_func_entry M = Inr (M', ch)"
  shows "mfuncs M' = map (renamed_entry M) (mfuncs M)"
    and "ch \<longleftrightarrow> (\<exists>f \<in> set (mfuncs M). is_translated f \<and> (\<exists>pc. getPCStartOfFunc f = Inr pc \<and> called M pc))"
proof -
  obtain T rs where T: "rfold call_targets (mfuncs M) {} = Inr T" and rs: "rmap (mark_entry T) (mfuncs M) = Inr rs"
    and M': "M' = M\<lparr>mfuncs := map fst rs\<rparr>" "ch = list_ex snd rs"
    using assms by (auto simp: mark_func_entry_def rbind_eq_Inr)
  have t: "pc \<in> T \<longleftrightarrow> called M pc" for pc using call_targets_all [OF T] by (simp add: called_def)
  have one: "r = (renamed_entry M f, is_translated f \<and> (\<exists>pc. getPCStartOfFunc f = Inr pc \<and> called M pc))"
    if "mark_entry T f = Inr r" for f r
  proof (cases "is_translated f")
    case False
    then show ?thesis using that by (simp add: mark_entry_def renamed_entry_def split: list.split)
  next
    case True
    with that obtain b bs pc where "fblocks f = b # bs" "getPCStartOfFunc f = Inr pc"
      by (auto simp: mark_entry_def rbind_eq_Inr split: list.splits)
    with that True show ?thesis by (auto simp: mark_entry_def renamed_entry_def t)
  qed
  have "rs = map (\<lambda>f. (renamed_entry M f, is_translated f \<and> (\<exists>pc. getPCStartOfFunc f = Inr pc \<and> called M pc))) (mfuncs M)"
    using rmap_nth [OF rs, THEN one] rmap_length [OF rs] by (intro nth_equalityI) simp_all
  then show "mfuncs M' = map (renamed_entry M) (mfuncs M)"
    and "ch \<longleftrightarrow> (\<exists>f \<in> set (mfuncs M). is_translated f \<and> (\<exists>pc. getPCStartOfFunc f = Inr pc \<and> called M pc))"
    by (simp_all add: M' comp_def list_ex_iff Bex_def)
qed

lemma renamed_entry_facts:
  "fname (renamed_entry M f) = fname f" "func_ins (renamed_entry M f) = func_ins f"
  "is_translated f \<Longrightarrow> fblocks f \<noteq> [] \<Longrightarrow> getPCStartOfFunc f = Inr pc \<Longrightarrow> called M pc \<Longrightarrow> is_entry (renamed_entry M f)"
  by (auto simp: renamed_entry_def is_entry_def is_translated_def func_ins_def split: list.split)

section \<open>Properties\<close>

text \<open>
  C30. \<open>MarkFuncEntry\<close> and then \<open>BuildFunctions\<close>: every translated block that starts at the target of a direct
  call of the module (in the first LLVM block of a translated block) gets a function, built from the block named as
  an entry over the table of all blocks.
\<close>

theorem called_blocks_are_built:
  assumes "mark_func_entry M = Inr (M', ch)" and "build_functions clone M' = Inr (N, modified)"
    and "keeps_name clone" and "distinct (map fname (mfuncs M))"
    and "f \<in> set (mfuncs M)" and "is_translated f" and "getPCStartOfFunc f = Inr pc" and "called M pc"
  shows "\<exists>allBBs F. rfold add_to_table (mfuncs M') [] = Inr allBBs \<and> built clone allBBs (renamed_entry M f) F
    \<and> lookup_function (final_name f) N = Some (fixup_entry F)"
proof -
  note m = mark_func_entry_eq(1) [OF assms(1)]
  have "fblocks f \<noteq> []" using assms(7) by (auto simp: getPCStartOfFunc_def getHexMetadataFromFunc_def entry_block_def)
  then have "is_entry (renamed_entry M f)" by (rule renamed_entry_facts(3) [OF assms(6) _ assms(7,8)])
  moreover have "renamed_entry M f \<in> set (mfuncs M')" using assms(5) m by auto
  moreover have "map fname (mfuncs M') = map fname (mfuncs M)" by (simp add: m comp_def renamed_entry_facts(1))
  then have "distinct (map fname (filter is_entry (mfuncs M')))" using assms(4) by (simp add: distinct_map_filter)
  from build_functions_bodies [OF assms(2,3) this] have "\<exists>allBBs. rfold add_to_table (mfuncs M') [] = Inr allBBs \<and>
      (\<forall>f \<in> set (mfuncs M'). is_entry f \<longrightarrow>
        (\<exists>F. built clone allBBs f F \<and> lookup_function (final_name f) N = Some (fixup_entry F)))" by blast
  ultimately show ?thesis by (metis final_name_def renamed_entry_facts(1))
qed

definition caller_tb :: func where
  "caller_tb = \<lparr>fid = 2, fname = ''void-tcg-llvm-tb-1'', fblocks = [\<lparr>bid = 1, bname = ''entry'', bins =
     [\<lparr>iid = 1, ikind = Store (ConstInt 32 8) (GlobalVar ''PC''),
        imeta = (block_md 32 36)(''INS_directCall'' \<mapsto> hex_node 8)\<rparr>, mk_ins 2 (Ret None)]\<rparr>]\<rparr>"

definition unmarked_module :: lmodule where
  "unmarked_module = \<lparr>mfuncs = [(hd (mfuncs entry_module))\<lparr>fblocks := [(hd (fblocks (hd (mfuncs entry_module))))\<lparr>bname := ''entry''\<rparr>]\<rparr>,
     caller_tb], mglobals = []\<rparr>"

lemma caller_tb_facts: "getPCStartOfFunc caller_tb = Inr 32" "is_translated caller_tb" "\<not> is_entry caller_tb"
  by (simp_all add: caller_tb_def is_entry_def is_translated_def startswith_def getPCStartOfFunc_def
      getHexMetadataFromFunc_def entry_block_def front_ins_def getHex_hex_node get_md_def block_md_def)

lemma unmarked_marks: "mark_func_entry unmarked_module = Inr (\<lparr>mfuncs = [hd (mfuncs entry_module), caller_tb], mglobals = []\<rparr>, True)"
  by (simp add: mark_func_entry_def unmarked_module_def entry_module_def caller_tb_def call_targets_def is_translated_def
      startswith_def call_targets_ins_def has_md_def block_md_def mark_entry_def getPCStartOfFunc_def
      getHexMetadataFromFunc_def entry_block_def front_ins_def getHex_hex_node get_md_def)

theorem called_blocks_are_built_witness:
  "\<exists>N F allBBs. build_functions copy_body \<lparr>mfuncs = [hd (mfuncs entry_module), caller_tb], mglobals = []\<rparr> = Inr (N, False)
     \<and> built copy_body allBBs (hd (mfuncs entry_module)) F
     \<and> lookup_function ''final-func-void-tcg-llvm-tb-0'' N = Some (fixup_entry F)"
proof -
  obtain f where f: "mfuncs entry_module = [f]" by (simp add: entry_module_def)
  let ?M' = "\<lparr>mfuncs = [f, caller_tb], mglobals = []\<rparr>"
  have t: "rfold add_to_table [f, caller_tb] [] = Inr [(32, caller_tb), (8, f)]"
    using entry_module_start caller_tb_facts f
    by (auto simp: add_to_table_def entry_module_def is_translated_def startswith_def)
  obtain N where "build_one copy_body [(32, caller_tb), (8, f)] f (\<lparr>mfuncs = [], mglobals = []\<rparr>, []) = Inr (N, [])"
    using entry_build_one [OF f] by blast
  then obtain N' where N: "build_functions copy_body ?M' = Inr (N', False)"
    using t caller_tb_facts(3) by (simp add: build_functions_def build_one_def [of _ _ caller_tb])
  have ch: "mark_func_entry unmarked_module = Inr (?M', True)" using unmarked_marks f by simp
  let ?g = "f\<lparr>fblocks := [(hd (fblocks f))\<lparr>bname := ''entry''\<rparr>]\<rparr>"
  have g: "?g \<in> set (mfuncs unmarked_module)" "is_translated ?g" "getPCStartOfFunc ?g = Inr 8" "final_name ?g = ''final-func-void-tcg-llvm-tb-0''"
    using f by (auto simp: unmarked_module_def entry_module_def is_translated_def startswith_def final_name_def
        getPCStartOfFunc_def getHexMetadataFromFunc_def entry_block_def front_ins_def getHex_hex_node get_md_def block_md_def)
  have c: "called unmarked_module 8"
    by (auto simp: called_def unmarked_module_def caller_tb_def is_translated_def startswith_def getHex_hex_node get_md_def)
  have "renamed_entry unmarked_module ?g = f"
    using c g(2,3) f by (auto simp: renamed_entry_def entry_module_def)
  moreover have "distinct (map fname (mfuncs unmarked_module))" "keeps_name copy_body"
    by (simp_all add: unmarked_module_def entry_module_def caller_tb_def keeps_name_def copy_body_def)
  note called_blocks_are_built [OF ch N this(2,1) g(1-3) c]
  ultimately show ?thesis using N f g(4) by auto
qed

end
