(* ===== verification/Linker.thy ===== *)
theory Linker
  imports Save_BBs
begin

text \<open>
  The linker, \<open>postprocess/linker/main.cpp\<close>: the rebuilt functions of several files are gathered by
  start program counter, cloned into one module, and every direct call to a known function becomes an LLVM
  call. Parsing a file is LLVM's: a file is the module it holds, or \<open>None\<close> when it cannot be loaded.
\<close>

section \<open>Gathering\<close>

text \<open>\<open>allFuncsMap\<close> and \<open>allFuncsList\<close>.\<close>

type_synonym gathered = "(u64 \<rightharpoonup> func) \<times> func list"

definition gather_func :: "func \<Rightarrow> gathered \<Rightarrow> gathered res" where
  "gather_func f g =
     (if \<not> strstr (fname f) ''void-tcg-llvm-tb'' then Inr g
      else (case fblocks f of
          [] \<Rightarrow> Inl (NullDeref ''getEntryBlock'')
        | bb # _ \<Rightarrow> (case bins bb of
            [] \<Rightarrow> Inl (NullDeref ''bb.front'')
          | ins # _ \<Rightarrow>
              if \<not> has_md ins ''BB_pcStart'' then Inr g
              else rbind (getPCStartOfFunc f) (\<lambda>startPC. case g of (allFuncsMap, allFuncsList) \<Rightarrow>
                Inr (if allFuncsMap startPC = None then (allFuncsMap(startPC \<mapsto> f), allFuncsList @ [f])
                     else (allFuncsMap, allFuncsList))))))"

definition gatherFuncsFromModule :: "lmodule \<Rightarrow> gathered \<Rightarrow> gathered res" where
  "gatherFuncsFromModule m g = rfold gather_func (mfuncs m) g"

definition gatherFuncs :: "lmodule option list \<Rightarrow> gathered \<Rightarrow> gathered res" where
  "gatherFuncs files g = rfold (\<lambda>file. case file of Some m \<Rightarrow> gatherFuncsFromModule m | None \<Rightarrow> Inr) files g"

section \<open>Cloning\<close>

text \<open>
  Functions of the same name share one target: the second clone goes into the function that holds the first.
\<close>

definition clone_func :: "clone_fn \<Rightarrow> func \<Rightarrow> lmodule \<Rightarrow> lmodule" where
  "clone_func clone f newModule =
     (let nm = ''linked-final-func-'' @ fname f;
          m' = copyGlobalReferences f (getOrInsertFunction nm newModule) in
      update_function nm (\<lambda>newFunc. clone newFunc f) m')"

definition cloneFuncs :: "clone_fn \<Rightarrow> func list \<Rightarrow> lmodule \<Rightarrow> lmodule" where
  "cloneFuncs clone allFuncsList newModule = fold (clone_func clone) allFuncsList newModule"

section \<open>Linking\<close>

text \<open>The direct calls of a function to known targets: the store, and the name of the target.\<close>

definition direct_call :: "(u64 \<rightharpoonup> func) \<Rightarrow> instr \<Rightarrow> (nat \<times> string) list res" where
  "direct_call allFuncsMap i =
     (if is_store i \<and> has_md i ''INS_directCall'' then
        rbind (getHexMetadataFromIns i ''INS_directCall'') (\<lambda>targetPC. Inr (case allFuncsMap targetPC of
            None \<Rightarrow> []
          | Some targetFunc \<Rightarrow> [(iid i, fname targetFunc)]))
      else Inr [])"

definition direct_calls :: "(u64 \<rightharpoonup> func) \<Rightarrow> func \<Rightarrow> ((nat \<times> nat) \<times> string) list res" where
  "direct_calls allFuncsMap f = rbind (rmap (direct_call allFuncsMap) (func_ins f)) (\<lambda>cs.
     Inr (map (\<lambda>(n, g). ((fid f, n), g)) (concat cs)))"

text \<open>
  \<open>ReplaceInstWithInst\<close>: the call stands where the store was, without its metadata, and may take over the
  address of the store.
\<close>

definition replace_call :: "((nat \<times> nat) \<times> string) list \<Rightarrow> nat \<Rightarrow> instr \<Rightarrow> instr" where
  "replace_call calls n i = (case map_of calls (n, iid i) of
      None \<Rightarrow> i
    | Some g \<Rightarrow> mk_ins (iid i) (Call (FuncRef g) []))"

definition linkFuncs :: "(u64 \<rightharpoonup> func) \<Rightarrow> func list \<Rightarrow> lmodule \<Rightarrow> lmodule res" where
  "linkFuncs allFuncsMap allFuncsList m = rbind (rmap (direct_calls allFuncsMap) allFuncsList) (\<lambda>cs.
     Inr (m\<lparr>mfuncs := map (\<lambda>f. map_ins (replace_call (concat cs) (fid f)) f) (mfuncs m)\<rparr>))"

text \<open>\<open>main\<close>, from the parsed files to the module written and the number in the \<open>.fcnt\<close> file.\<close>

definition link_main :: "clone_fn \<Rightarrow> lmodule option list \<Rightarrow> (lmodule \<times> nat) res" where
  "link_main clone files = rbind (gatherFuncs files (Map.empty, [])) (\<lambda>(allFuncsMap, allFuncsList).
     let newModule = cloneFuncs clone allFuncsList \<lparr>mfuncs = [], mglobals = []\<rparr> in
     rbind (gatherFuncsFromModule newModule (Map.empty, [])) (\<lambda>(allFuncsMap', allFuncsList').
     rbind (linkFuncs allFuncsMap' allFuncsList' newModule) (\<lambda>linked.
       Inr (linked, length allFuncsList'))))"

section \<open>The first function of each start wins\<close>

text \<open>What a function is gathered under.\<close>

definition start_of :: "func \<Rightarrow> u64 option" where
  "start_of f = (if strstr (fname f) ''void-tcg-llvm-tb'' then
     (case getPCStartOfFunc f of Inl e \<Rightarrow> None | Inr pc \<Rightarrow> Some pc) else None)"

definition gathered_from :: "func list \<Rightarrow> gathered \<Rightarrow> bool" where
  "gathered_from fs g \<longleftrightarrow> (\<forall>pc. fst g pc = find (\<lambda>f. start_of f = Some pc) fs)
     \<and> distinct (map start_of (snd g)) \<and> set (snd g) = ran (fst g)"

lemma gather_func_eq:
  assumes "gather_func f (M, L) = Inr g"
  shows "g = (case start_of f of None \<Rightarrow> (M, L)
    | Some pc \<Rightarrow> if M pc = None then (M(pc \<mapsto> f), L @ [f]) else (M, L))"
proof -
  have e: "getPCStartOfFunc f = getHexMetadataFromIns i ''BB_pcStart''" if "fblocks f = b # bs" "bins b = i # is" for b bs i "is"
    using that by (simp add: getPCStartOfFunc_def getHexMetadataFromFunc_def entry_block_def front_ins_def)
  have n: "getHexMetadataFromIns i ''BB_pcStart'' = Inl (AssertFailed ''pcEndNode'')" if "\<not> has_md i ''BB_pcStart''" for i
    using that by (simp add: getHexMetadataFromIns_def has_md_def get_md_def)
  show ?thesis
    using assms n by (auto simp: gather_func_def start_of_def rbind_eq_Inr e split: if_splits list.splits sum.splits)
qed

lemma gathered_snoc:
  assumes "gathered_from fs g" and "gather_func f g = Inr g'"
  shows "gathered_from (fs @ [f]) g'"
proof -
  obtain M L where g: "g = (M, L)" by (cases g)
  have find_snoc: "find P (xs @ [x]) = (case find P xs of None \<Rightarrow> if P x then Some x else None | Some y \<Rightarrow> Some y)"
    for P and x :: func and xs by (induction xs) simp_all
  show ?thesis
  proof (cases "start_of f")
    case None
    then show ?thesis using assms g gather_func_eq [of f M L g'] by (auto simp: gathered_from_def find_snoc split: option.split)
  next
    case (Some pc)
    have start: "start_of h = Some pc'" if "M pc' = Some h" for pc' h
      using that assms(1) g by (auto simp: gathered_from_def find_Some_iff)
    show ?thesis
    proof (cases "M pc")
      case None
      have "start_of f \<notin> set (map start_of L)"
      proof
        assume "start_of f \<in> set (map start_of L)"
        then obtain h where "h \<in> set L" "start_of h = Some pc" using Some by auto
        then obtain pc' where "M pc' = Some h" using assms(1) g by (auto simp: gathered_from_def ran_def)
        with start \<open>start_of h = Some pc\<close> have "pc' = pc" by fastforce
        with \<open>M pc' = Some h\<close> None show False by simp
      qed
      then show ?thesis
        using assms g Some None gather_func_eq [of f M L g']
        by (auto simp: gathered_from_def find_snoc split: option.split)
    next
      case (Some h)
      then show ?thesis
        using assms g \<open>start_of f = Some pc\<close> gather_func_eq [of f M L g']
        by (auto simp: gathered_from_def find_snoc split: option.split)
    qed
  qed
qed

lemma gathered_module:
  assumes "gatherFuncsFromModule m g = Inr g'" and "gathered_from fs g"
  shows "gathered_from (fs @ mfuncs m) g'"
  using assms unfolding gatherFuncsFromModule_def
proof (induction "mfuncs m" arbitrary: m fs g)
  case Nil
  then show ?case by simp
next
  case (Cons f rest)
  obtain g1 where g1: "gather_func f g = Inr g1" "rfold gather_func rest g1 = Inr g'"
    using Cons.prems(1) Cons.hyps(2) [symmetric] by (auto simp: rbind_eq_Inr)
  from Cons.hyps(1) [of "m\<lparr>mfuncs := rest\<rparr>" g1 "fs @ [f]"] gathered_snoc [OF Cons.prems(2) g1(1)] g1(2) Cons.hyps(2)
  show ?case by (metis append.assoc append_Cons append_Nil lmodule.select_convs(1) lmodule.simps(4) lmodule.surjective)
qed

lemma gathered_files:
  "gatherFuncs files g = Inr g' \<Longrightarrow> gathered_from fs g \<Longrightarrow>
   gathered_from (fs @ concat (map (\<lambda>file. case file of Some m \<Rightarrow> mfuncs m | None \<Rightarrow> []) files)) g'"
  unfolding gatherFuncs_def
proof (induction files arbitrary: fs g)
  case (Cons mo files)
  then show ?case
    by (cases mo) (fastforce simp: rbind_eq_Inr dest: gathered_module)+
qed simp

lemma gathered_empty: "gathered_from [] (Map.empty, [])"
  by (simp add: gathered_from_def)

section \<open>Every known direct call is linked\<close>

text \<open>The specification of the linking, one instruction at a time.\<close>

definition call_target :: "(u64 \<rightharpoonup> func) \<Rightarrow> instr \<Rightarrow> func option" where
  "call_target M i = (if is_store i \<and> has_md i ''INS_directCall'' then
     (case getHexMetadataFromIns i ''INS_directCall'' of Inl e \<Rightarrow> None | Inr pc \<Rightarrow> M pc) else None)"

definition linked_ins :: "(u64 \<rightharpoonup> func) \<Rightarrow> instr \<Rightarrow> instr" where
  "linked_ins M i = (case call_target M i of None \<Rightarrow> i | Some g \<Rightarrow> mk_ins (iid i) (Call (FuncRef (fname g)) []))"

lemma direct_call_eq:
  "direct_call M i = Inr cs \<Longrightarrow> cs = (case call_target M i of None \<Rightarrow> [] | Some g \<Rightarrow> [(iid i, fname g)])"
  by (auto simp: direct_call_def call_target_def rbind_eq_Inr split: if_splits option.splits)

lemma direct_calls_set:
  assumes "direct_calls M f = Inr cs"
  shows "((n, k), g) \<in> set cs \<longleftrightarrow>
    n = fid f \<and> (\<exists>i \<in> set (func_ins f). \<exists>h. call_target M i = Some h \<and> iid i = k \<and> fname h = g)"
proof -
  obtain css where r: "rmap (direct_call M) (func_ins f) = Inr css" and cs: "cs = map (\<lambda>(n, g). ((fid f, n), g)) (concat css)"
    using assms by (auto simp: direct_calls_def rbind_eq_Inr)
  have "set css = (\<lambda>i. case call_target M i of None \<Rightarrow> [] | Some h \<Rightarrow> [(iid i, fname h)]) ` set (func_ins f)"
  proof -
    have "css = map (\<lambda>i. case call_target M i of None \<Rightarrow> [] | Some h \<Rightarrow> [(iid i, fname h)]) (func_ins f)"
      using rmap_nth [OF r, THEN direct_call_eq] rmap_length [OF r] by (intro nth_equalityI) simp_all
    then show ?thesis by simp
  qed
  moreover have "(k, g) \<in> set (case call_target M i of None \<Rightarrow> [] | Some h \<Rightarrow> [(iid i, fname h)])
      \<longleftrightarrow> (\<exists>h. call_target M i = Some h \<and> iid i = k \<and> fname h = g)" for i
    by (cases "call_target M i") auto
  ultimately have "(k, g) \<in> set (concat css) \<longleftrightarrow>
      (\<exists>i \<in> set (func_ins f). \<exists>h. call_target M i = Some h \<and> iid i = k \<and> fname h = g)"
    by simp
  moreover have "((n, k), g) \<in> set cs \<longleftrightarrow> n = fid f \<and> (k, g) \<in> set (concat css)"
    unfolding cs by force
  ultimately show ?thesis by blast
qed

lemma map_of_unique:
  assumes "(k, v) \<in> set xs" and "\<And>v'. (k, v') \<in> set xs \<Longrightarrow> v' = v"
  shows "map_of xs k = Some v"
proof -
  obtain w where w: "map_of xs k = Some w" using assms(1) weak_map_of_SomeI by metis
  with assms(2) [OF map_of_SomeD [OF w]] show ?thesis by simp
qed

text \<open>The objects of a module have distinct addresses.\<close>

definition wf_module :: "lmodule \<Rightarrow> bool" where
  "wf_module m \<longleftrightarrow> distinct (map fid (mfuncs m)) \<and> (\<forall>f \<in> set (mfuncs m). wf_func f)"

lemma link_calls_of:
  assumes r: "rmap (direct_calls M) L = Inr cs" and wf: "wf_module m" and L: "set L \<subseteq> set (mfuncs m)"
    and f: "f \<in> set (mfuncs m)" and i: "i \<in> set (func_ins f)"
  shows "replace_call (concat cs) (fid f) i = (if f \<in> set L then linked_ins M i else i)"
proof -
  have same: "h = f" if "h \<in> set L" "fid h = fid f" for h
    using that L f wf by (auto simp: wf_module_def distinct_map dest: inj_onD)
  have uniq: "j = i" if "j \<in> set (func_ins f)" "iid j = iid i" for j
    using that i f wf by (auto simp: wf_module_def wf_func_def ins_ids_def distinct_map dest: inj_onD)
  have mem: "((fid f, iid i), g) \<in> set (concat cs) \<longleftrightarrow> f \<in> set L \<and> (\<exists>h. call_target M i = Some h \<and> fname h = g)" for g
  proof
    assume "((fid f, iid i), g) \<in> set (concat cs)"
    then obtain c where c: "c \<in> set cs" "((fid f, iid i), g) \<in> set c" by auto
    from rmap_set [OF r c(1)] obtain h where h: "h \<in> set L" "direct_calls M h = Inr c" by blast
    with c(2) same uniq show "f \<in> set L \<and> (\<exists>h. call_target M i = Some h \<and> fname h = g)"
      by (auto simp: direct_calls_set)
  next
    assume a: "f \<in> set L \<and> (\<exists>h. call_target M i = Some h \<and> fname h = g)"
    then obtain n where n: "n < length L" "L ! n = f" by (metis in_set_conv_nth)
    with rmap_nth [OF r n(1)] rmap_length [OF r] have "direct_calls M f = Inr (cs ! n)" "cs ! n \<in> set cs" by auto
    with a i have "((fid f, iid i), g) \<in> set (cs ! n)" by (auto simp: direct_calls_set)
    with \<open>cs ! n \<in> set cs\<close> show "((fid f, iid i), g) \<in> set (concat cs)" by auto
  qed
  show ?thesis
  proof (cases "f \<in> set L \<and> call_target M i \<noteq> None")
    case True
    then obtain h where h: "call_target M i = Some h" by auto
    have "map_of (concat cs) (fid f, iid i) = Some (fname h)"
      by (rule map_of_unique) (use mem True h in auto)
    with True h show ?thesis by (simp add: replace_call_def linked_ins_def)
  next
    case False
    then have "map_of (concat cs) (fid f, iid i) = None"
      using mem by (cases "map_of (concat cs) (fid f, iid i)") (auto dest: map_of_SomeD)
    with False show ?thesis by (auto simp: replace_call_def linked_ins_def)
  qed
qed

lemma map_ins_cong: "(\<And>i. i \<in> set (func_ins f) \<Longrightarrow> g i = h i) \<Longrightarrow> map_ins g f = map_ins h f"
proof -
  assume e: "\<And>i. i \<in> set (func_ins f) \<Longrightarrow> g i = h i"
  have "map g (bins b) = map h (bins b)" if "b \<in> set (fblocks f)" for b
    using that e by (auto simp: func_ins_def)
  then show ?thesis by (simp add: map_ins_def map_blocks_def cong: map_cong)
qed

lemma map_ins_id: "map_ins (\<lambda>i. i) f = f"
  by (simp add: map_ins_def map_blocks_def)

lemma linkFuncs_eq:
  assumes "linkFuncs M L m = Inr m'" and wf: "wf_module m" and L: "set L \<subseteq> set (mfuncs m)"
  shows "m' = m\<lparr>mfuncs := map (\<lambda>f. if f \<in> set L then map_ins (linked_ins M) f else f) (mfuncs m)\<rparr>"
proof -
  obtain cs where r: "rmap (direct_calls M) L = Inr cs"
    and m': "m' = m\<lparr>mfuncs := map (\<lambda>f. map_ins (replace_call (concat cs) (fid f)) f) (mfuncs m)\<rparr>"
    using assms(1) by (auto simp: linkFuncs_def rbind_eq_Inr)
  have "map_ins (replace_call (concat cs) (fid f)) f = (if f \<in> set L then map_ins (linked_ins M) f else f)"
    if "f \<in> set (mfuncs m)" for f
  proof -
    have "map_ins (replace_call (concat cs) (fid f)) f = map_ins (\<lambda>i. if f \<in> set L then linked_ins M i else i) f"
      by (rule map_ins_cong) (rule link_calls_of [OF r wf L that])
    then show ?thesis by (simp add: map_ins_id)
  qed
  then show ?thesis by (simp add: m')
qed

section \<open>The cloned module\<close>

text \<open>What \<open>CloneFunctionInto\<close> does to addresses: the target stays, its new instructions and blocks are new objects.\<close>

definition clone_ok :: "clone_fn \<Rightarrow> bool" where
  "clone_ok clone \<longleftrightarrow> (\<forall>n f. fid (clone n f) = fid n \<and> (wf_func n \<longrightarrow> wf_func (clone n f)))"

lemma fresh_fid_new: "fresh_fid m \<notin> fid ` set (mfuncs m)"
  using le_fold_max [of _ "map fid (mfuncs m)"] by (fastforce simp: fresh_fid_def)

lemma wf_getOrInsert: "wf_module m \<Longrightarrow> wf_module (getOrInsertFunction nm m)"
  using fresh_fid_new [of m]
  by (auto simp: getOrInsertFunction_def wf_module_def wf_func_def ins_ids_def func_ins_def)

lemma wf_copy_operand: "wf_module m \<Longrightarrow> wf_module (copy_operand v m)"
  by (cases v) (simp_all add: copy_operand_def wf_getOrInsert, simp add: getOrInsertGlobal_def wf_module_def)

lemma wf_copy_refs: "wf_module m \<Longrightarrow> wf_module (copyGlobalReferences f m)"
proof -
  have "wf_module (fold copy_operand vs m)" if "wf_module m" for vs m
    using that by (induction vs arbitrary: m) (simp_all add: wf_copy_operand)
  then have "wf_module (fold (\<lambda>i. fold copy_operand (operands (ikind i))) is m)" if "wf_module m" for "is" :: "instr list" and m
    using that by (induction "is" arbitrary: m) simp_all
  then show "wf_module m \<Longrightarrow> ?thesis" by (simp add: copyGlobalReferences_def)
qed

lemma wf_clone_func: "clone_ok clone \<Longrightarrow> wf_module m \<Longrightarrow> wf_module (clone_func clone f m)"
proof -
  assume c: "clone_ok clone" "wf_module m"
  then have "wf_module (copyGlobalReferences f (getOrInsertFunction (''linked-final-func-'' @ fname f) m))"
    by (intro wf_copy_refs wf_getOrInsert)
  moreover have "map fid (map (\<lambda>h. if fname h = nm then clone h f else h) hs) = map fid hs" for nm hs
    using c(1) by (simp add: clone_ok_def)
  ultimately show ?thesis
    using c(1) by (auto simp: clone_func_def update_function_def wf_module_def clone_ok_def Let_def simp del: map_map)
qed

lemma wf_cloneFuncs: "clone_ok clone \<Longrightarrow> wf_module m \<Longrightarrow> wf_module (cloneFuncs clone fs m)"
  unfolding cloneFuncs_def by (induction fs arbitrary: m) (simp_all add: wf_clone_func)

lemma gathered_subset: "gathered_from fs g \<Longrightarrow> set (snd g) \<subseteq> set fs"
  by (fastforce simp: gathered_from_def ran_def find_Some_iff)

section \<open>Properties\<close>

text \<open>
  C31. Gathering maps a start program counter to the first function of the files, in order, that is a
  translated function starting there, and lists exactly these functions, one for each start.
\<close>

theorem gatherFuncs_first_wins:
  assumes "gatherFuncs files (Map.empty, []) = Inr (allFuncsMap, allFuncsList)"
  shows "allFuncsMap pc = find (\<lambda>f. start_of f = Some pc) (concat (map mfuncs (List.map_filter id files)))
    \<and> distinct (map start_of allFuncsList) \<and> set allFuncsList = ran allFuncsMap"
proof -
  have "concat (map (\<lambda>file. case file of Some m \<Rightarrow> mfuncs m | None \<Rightarrow> []) fs) = concat (map mfuncs (List.map_filter id fs))"
    for fs :: "lmodule option list" by (induction fs) (auto simp: map_filter_def split: option.split)
  from this [of files] gathered_files [OF assms gathered_empty] show ?thesis by (simp add: gathered_from_def)
qed

text \<open>
  C32. In the module the linker writes, every store of a gathered function that is marked as a direct call
  to the start of a gathered function has become a call of that function, and nothing else of the cloned
  module has changed; the number written beside it is the number of different starts.
\<close>

theorem link_main_links:
  assumes "link_main clone files = Inr (linked, n)" and "clone_ok clone"
  shows "\<exists>allFuncsMap allFuncsList newModule M L. gatherFuncs files (Map.empty, []) = Inr (allFuncsMap, allFuncsList)
    \<and> newModule = cloneFuncs clone allFuncsList \<lparr>mfuncs = [], mglobals = []\<rparr>
    \<and> gathered_from (mfuncs newModule) (M, L) \<and> n = card (dom M)
    \<and> linked = newModule\<lparr>mfuncs := map (\<lambda>f. if f \<in> set L then map_ins (linked_ins M) f else f) (mfuncs newModule)\<rparr>"
proof -
  obtain M0 L0 M L where g0: "gatherFuncs files (Map.empty, []) = Inr (M0, L0)"
    and g: "gatherFuncsFromModule (cloneFuncs clone L0 \<lparr>mfuncs = [], mglobals = []\<rparr>) (Map.empty, []) = Inr (M, L)"
    and l: "linkFuncs M L (cloneFuncs clone L0 \<lparr>mfuncs = [], mglobals = []\<rparr>) = Inr linked" and n: "n = length L"
    using assms(1) by (auto simp: link_main_def rbind_eq_Inr Let_def)
  let ?new = "cloneFuncs clone L0 \<lparr>mfuncs = [], mglobals = []\<rparr>"
  have wf: "wf_module ?new" by (rule wf_cloneFuncs [OF assms(2)]) (simp add: wf_module_def)
  from gathered_module [OF g gathered_empty] have gf: "gathered_from (mfuncs ?new) (M, L)" by simp
  have start: "start_of f = Some pc" if "M pc = Some f" for pc f
    using that gf by (auto simp: gathered_from_def find_Some_iff)
  have "card (dom M) = card (ran M)"
  proof (rule bij_betw_same_card)
    show "bij_betw (\<lambda>pc. the (M pc)) (dom M) (ran M)"
    proof (rule bij_betwI')
      show "the (M x) = the (M y) \<longleftrightarrow> x = y" if "x \<in> dom M" "y \<in> dom M" for x y
        using that start by (metis domIff option.collapse option.inject)
      show "the (M x) \<in> ran M" if "x \<in> dom M" for x using that by (auto simp: ran_def)
      show "\<exists>x \<in> dom M. y = the (M x)" if "y \<in> ran M" for y using that by (force simp: ran_def)
    qed
  qed
  also have "\<dots> = length L"
    using gf distinct_card [of L] by (simp add: gathered_from_def distinct_map)
  finally have "n = card (dom M)" by (simp add: n)
  with linkFuncs_eq [OF l wf] gathered_subset [OF gf] gf g0 show ?thesis by auto
qed

text \<open>Two files: a caller of \<open>0x9000\<close>, and a second function at \<open>0x8000\<close> with the callee.\<close>

definition link_tb :: "nat \<Rightarrow> string \<Rightarrow> u64 \<Rightarrow> ikind \<Rightarrow> (string \<rightharpoonup> mdnode) \<Rightarrow> func" where
  "link_tb n nm start k md = \<lparr>fid = n, fname = nm, fblocks = [\<lparr>bid = 1, bname = ''entry'', bins =
     [\<lparr>iid = 1, ikind = k, imeta = md(''BB_pcStart'' \<mapsto> hex_node start)\<rparr>,
      mk_ins 2 (Ret None)]\<rparr>]\<rparr>"

definition link_files :: "lmodule option list" where
  "link_files =
    [Some \<lparr>mfuncs = [link_tb 1 ''void-tcg-llvm-tb-0'' 0x8000 (Store (ConstInt 32 0x9000) (GlobalVar ''PC''))
       [''INS_directCall'' \<mapsto> hex_node 0x9000]], mglobals = [''PC'']\<rparr>,
     None,
     Some \<lparr>mfuncs = [link_tb 2 ''void-tcg-llvm-tb-1'' 0x8000 (Store (ConstInt 32 0) (GlobalVar ''R0'')) Map.empty,
       link_tb 3 ''void-tcg-llvm-tb-2'' 0x9000 (Store (ConstInt 32 1) (GlobalVar ''R0'')) Map.empty],
       mglobals = [''R0'']\<rparr>]"

definition link_clone :: clone_fn where
  "link_clone newFunc oldFunc =
     (if fblocks newFunc = [] \<and> wf_func oldFunc then newFunc\<lparr>fblocks := fblocks oldFunc\<rparr> else newFunc)"

lemma link_clone_ok: "clone_ok link_clone"
  by (simp add: clone_ok_def link_clone_def wf_func_def ins_ids_def func_ins_def)

lemmas link_read = getPCStartOfFunc_def getHexMetadataFromFunc_def entry_block_def front_ins_def has_md_def
  getHex_hex_node get_md_def startswith_def

abbreviation link_caller :: "nat \<Rightarrow> string \<Rightarrow> func" where
  "link_caller n pre \<equiv> link_tb n (pre @ ''void-tcg-llvm-tb-0'') 0x8000 (Store (ConstInt 32 0x9000) (GlobalVar ''PC''))
     [''INS_directCall'' \<mapsto> hex_node 0x9000]"

abbreviation link_callee :: "nat \<Rightarrow> string \<Rightarrow> func" where
  "link_callee n pre \<equiv> link_tb n (pre @ ''void-tcg-llvm-tb-2'') 0x9000 (Store (ConstInt 32 1) (GlobalVar ''R0'')) Map.empty"

lemma link_gather_tb:
  "strstr nm ''void-tcg-llvm-tb'' \<Longrightarrow> unat pc < 2 ^ 63 \<Longrightarrow>
   gather_func (link_tb n nm pc k md) (M, L) =
     Inr (if M pc = None then (M(pc \<mapsto> link_tb n nm pc k md), L @ [link_tb n nm pc k md]) else (M, L))"
  by (simp add: gather_func_def link_tb_def link_read)

lemma link_gather:
  "gatherFuncs link_files (Map.empty, []) =
     Inr ([0x8000 \<mapsto> link_caller 1 [], 0x9000 \<mapsto> link_callee 3 []], [link_caller 1 [], link_callee 3 []])"
  by (simp add: gatherFuncs_def link_files_def gatherFuncsFromModule_def link_gather_tb startswith_def)

definition link_new :: lmodule where
  "link_new = \<lparr>mfuncs = [link_caller 1 ''linked-final-func-'', link_callee 2 ''linked-final-func-''],
     mglobals = [''PC'', ''R0'']\<rparr>"

lemma link_cloned: "cloneFuncs link_clone [link_caller 1 [], link_callee 3 []] \<lparr>mfuncs = [], mglobals = []\<rparr> = link_new"
  by (simp add: cloneFuncs_def clone_func_def link_clone_def link_tb_def link_new_def Let_def update_function_def
      copyGlobalReferences_def copy_operand_def getOrInsertFunction_def getOrInsertGlobal_def fresh_fid_def
      func_ins_def wf_func_def ins_ids_def mk_ins_def)

lemma link_gather2:
  "gatherFuncsFromModule link_new (Map.empty, []) =
     Inr ([0x8000 \<mapsto> link_caller 1 ''linked-final-func-'', 0x9000 \<mapsto> link_callee 2 ''linked-final-func-''], mfuncs link_new)"
  by (simp add: link_new_def gatherFuncsFromModule_def link_gather_tb startswith_def)

definition link_out :: lmodule where
  "link_out = link_new\<lparr>mfuncs := map (map_ins (linked_ins
     [0x8000 \<mapsto> link_caller 1 ''linked-final-func-'', 0x9000 \<mapsto> link_callee 2 ''linked-final-func-''])) (mfuncs link_new)\<rparr>"

lemma link_last:
  "linkFuncs [0x8000 \<mapsto> link_caller 1 ''linked-final-func-'', 0x9000 \<mapsto> link_callee 2 ''linked-final-func-'']
     (mfuncs link_new) link_new = Inr link_out"
proof -
  have "\<exists>m'. linkFuncs [0x8000 \<mapsto> link_caller 1 ''linked-final-func-'', 0x9000 \<mapsto> link_callee 2 ''linked-final-func-'']
     (mfuncs link_new) link_new = Inr m'"
    by (simp add: linkFuncs_def link_new_def direct_calls_def direct_call_def link_tb_def func_ins_def is_store_def
        getHex_hex_node get_md_def has_md_def)
  moreover have "wf_module link_new"
    by (simp add: wf_module_def link_new_def link_tb_def wf_func_def ins_ids_def func_ins_def)
  ultimately show ?thesis using linkFuncs_eq by (fastforce simp: link_out_def)
qed

theorem gatherFuncs_first_wins_witness:
  "\<exists>M L. gatherFuncs link_files (Map.empty, []) = Inr (M, L)
     \<and> M 0x8000 = Some (link_tb 1 ''void-tcg-llvm-tb-0'' 0x8000 (Store (ConstInt 32 0x9000) (GlobalVar ''PC''))
         [''INS_directCall'' \<mapsto> hex_node 0x9000])"
proof -
  obtain M L where r: "gatherFuncs link_files (Map.empty, []) = Inr (M, L)" using link_gather by blast
  from gatherFuncs_first_wins [OF r, of "0x8000"] r show ?thesis
    by (simp add: link_files_def map_filter_def start_of_def link_tb_def getPCStartOfFunc_def getHexMetadataFromFunc_def
        entry_block_def front_ins_def getHex_hex_node get_md_def startswith_def)
qed

theorem link_main_links_witness:
  "\<exists>linked. link_main link_clone link_files = Inr (linked, 2)
     \<and> (\<exists>(newModule :: lmodule) M L. gathered_from (mfuncs newModule) (M, L) \<and> card (dom M) = 2
         \<and> mfuncs linked = map (\<lambda>f. if f \<in> set L then map_ins (linked_ins M) f else f) (mfuncs newModule))"
proof -
  have "link_main link_clone link_files = Inr (link_out, 2)"
    unfolding link_main_def link_gather rbind_simps prod.case Let_def link_cloned link_gather2 link_last
    by (simp add: link_new_def)
  then have "\<exists>linked. link_main link_clone link_files = Inr (linked, 2)" by blast
  then obtain linked where r: "link_main link_clone link_files = Inr (linked, 2)" by blast
  from link_main_links [OF r link_clone_ok] obtain newModule M L where
    "gathered_from (mfuncs newModule) (M, L)" "card (dom M) = 2"
    "linked = newModule\<lparr>mfuncs := map (\<lambda>f. if f \<in> set L then map_ins (linked_ins M) f else f) (mfuncs newModule)\<rparr>"
    by (elim exE conjE) (rule that; (assumption | erule sym))
  then have "mfuncs linked = map (\<lambda>f. if f \<in> set L then map_ins (linked_ins M) f else f) (mfuncs newModule)"
    by simp
  with \<open>gathered_from (mfuncs newModule) (M, L)\<close> \<open>card (dom M) = 2\<close>
  have "gathered_from (mfuncs newModule) (M, L) \<and> card (dom M) = 2
    \<and> mfuncs linked = map (\<lambda>f. if f \<in> set L then map_ins (linked_ins M) f else f) (mfuncs newModule)"
    by (intro conjI)
  then have "\<exists>(newModule :: lmodule) M L. gathered_from (mfuncs newModule) (M, L) \<and> card (dom M) = 2
    \<and> mfuncs linked = map (\<lambda>f. if f \<in> set L then map_ins (linked_ins M) f else f) (mfuncs newModule)"
    by (intro exI)
  with r show ?thesis by blast
qed

end
