(* ===== verification/Pc_Utils.thy ===== *)
theory Pc_Utils
  imports Pass_Kit
begin

text \<open>
  \<open>MetaUtils\<close> (metadata kept on the terminator of a block, and operand lists), \<open>PcUtils\<close> (where the
  instructions of the binary start and end in a block) and \<open>TagInstPc\<close>, which tags the stores to
  \<open>PC\<close> that start an instruction and records the last program counter of a function. Three
  helpers of \<open>PcUtils\<close> follow successors without a visited set; they take fuel, and one unit more than
  the number of blocks is enough whenever the C++ code returns, because a longer walk repeats a
  block and the walk has no other state.
\<close>

section \<open>MetaUtils\<close>

definition getBlockMeta :: "bblock \<Rightarrow> string \<Rightarrow> mdnode option res" where
  "getBlockMeta b k = rbind (require (bins b \<noteq> []) (AssertFailed ''BB is empty'')) (\<lambda>_.
     (case terminator b of None \<Rightarrow> Inl (NullDeref ''getTerminator'') | Some t \<Rightarrow> Inr (get_md t k)))"

definition getFuncMeta :: "func \<Rightarrow> string \<Rightarrow> mdnode option res" where
  "getFuncMeta f k = (case fblocks f of [] \<Rightarrow> Inl (AssertFailed ''function is empty'')
     | b # _ \<Rightarrow> getBlockMeta b k)"

definition set_last_md :: "string \<Rightarrow> mdnode \<Rightarrow> instr list \<Rightarrow> instr list" where
  "set_last_md k md is = butlast is @ [set_md (last is) k md]"

definition setBlockMeta :: "bblock \<Rightarrow> string \<Rightarrow> mdnode \<Rightarrow> bblock res" where
  "setBlockMeta b k md = rbind (require (bins b \<noteq> []) (AssertFailed ''BB is empty'')) (\<lambda>_.
     (case terminator b of None \<Rightarrow> Inl (NullDeref ''getTerminator'')
      | Some t \<Rightarrow> Inr (b\<lparr>bins := set_last_md k md (bins b)\<rparr>)))"

definition setFuncMeta :: "func \<Rightarrow> string \<Rightarrow> mdnode \<Rightarrow> func res" where
  "setFuncMeta f k md = (case fblocks f of [] \<Rightarrow> Inl (AssertFailed ''function is empty'')
     | b # bs \<Rightarrow> rbind (setBlockMeta b k md) (\<lambda>b'. Inr (f\<lparr>fblocks := b' # bs\<rparr>)))"

definition hasOperand :: "mdnode \<Rightarrow> mdop \<Rightarrow> bool" where
  "hasOperand md operand \<longleftrightarrow> list_ex (\<lambda>x. x = operand) md"

definition removeOperand :: "mdnode \<Rightarrow> nat \<Rightarrow> mdnode" where
  "removeOperand md index = map snd (filter (\<lambda>(i, x). i \<noteq> index) (zip [0..<length md] md))"

definition removeNullOperands :: "mdnode \<Rightarrow> mdnode option" where
  "removeNullOperands md =
     (let operands = filter (\<lambda>x. x \<noteq> MDNull) md in if operands = [] then None else Some operands)"

text \<open>Successor lists, as block addresses on a block and as functions on a function.\<close>

definition block_operand :: "mdop \<Rightarrow> nat res" where
  "block_operand x = (case x of MDBlock b \<Rightarrow> Inr b | _ \<Rightarrow> Inl (BadCast ''BlockAddress''))"

definition getBlockSuccs :: "bblock \<Rightarrow> nat list option res" where
  "getBlockSuccs b = rbind (getBlockMeta b ''succs'') (\<lambda>md. (case md of
      None \<Rightarrow> Inr None | Some ops \<Rightarrow> rbind (rmap block_operand ops) (\<lambda>bs. Inr (Some bs))))"

definition setBlockSuccs :: "bblock \<Rightarrow> nat list \<Rightarrow> bblock res" where
  "setBlockSuccs b succs = setBlockMeta b ''succs'' (map MDBlock succs)"

definition func_operand :: "mdop \<Rightarrow> nat res" where
  "func_operand x = (case x of MDFunc f \<Rightarrow> Inr f | _ \<Rightarrow> Inl (BadCast ''Function''))"

definition getFuncSuccs :: "func \<Rightarrow> nat list option res" where
  "getFuncSuccs f = rbind (getFuncMeta f ''succs'') (\<lambda>md. (case md of
      None \<Rightarrow> Inr None | Some ops \<Rightarrow> rbind (rmap func_operand ops) (\<lambda>fs. Inr (Some fs))))"

definition setFuncSuccs :: "func \<Rightarrow> nat list \<Rightarrow> func res" where
  "setFuncSuccs f succs = setFuncMeta f ''succs'' (map MDFunc succs)"

section \<open>PcUtils\<close>

definition isInstStart :: "instr \<Rightarrow> bool" where
  "isInstStart i \<longleftrightarrow> has_md i ''inststart''"

definition getConstPcOperand :: "instr \<Rightarrow> u32 res" where
  "getConstPcOperand i = (if isInstStart i then
      (case ikind i of
         Store v p \<Rightarrow> Inr (case const_int v of Some c \<Rightarrow> ucast c | None \<Rightarrow> 0)
       | _ \<Rightarrow> Inl (BadCast ''StoreInst''))
    else Inr 0)"

definition getFirstInstStart :: "bblock \<Rightarrow> instr option res" where
  "getFirstInstStart b = (case find isInstStart (bins b) of
      None \<Rightarrow> Inr None
    | Some i \<Rightarrow> if is_store i then Inr (Some i) else Inl (BadCast ''StoreInst''))"

definition find_block :: "func \<Rightarrow> nat \<Rightarrow> bblock option" where
  "find_block F b = find (\<lambda>B. bid B = b) (fblocks F)"

definition block_succs :: "func \<Rightarrow> bblock \<Rightarrow> bblock list" where
  "block_succs F b = (case terminator b of None \<Rightarrow> []
     | Some t \<Rightarrow> List.map_filter (find_block F) (succ_ids (ikind t)))"

definition last_store_start :: "instr option \<Rightarrow> instr list \<Rightarrow> instr option res" where
  "last_store_start l is = rfold (\<lambda>i l. if isInstStart i
     then (if is_store i then Inr (Some i) else Inl (BadCast ''StoreInst'')) else Inr l) is l"

text \<open>The walk of \<open>getLastInstStart\<close> along first successors.\<close>

fun last_start_walk :: "nat \<Rightarrow> func \<Rightarrow> instr option \<Rightarrow> bblock \<Rightarrow> instr option res" where
  "last_start_walk 0 F l b = Inl OutOfFuel"
| "last_start_walk (Suc n) F l b = rbind (last_store_start l (bins b)) (\<lambda>l'.
     (case block_succs F b of [] \<Rightarrow> Inr l' | s # _ \<Rightarrow> last_start_walk n F l' s))"

definition getLastInstStart :: "func \<Rightarrow> bblock \<Rightarrow> instr option res" where
  "getLastInstStart F b = (if \<not> isRecoveredBlock b then Inr None
     else last_start_walk (Suc (length (fblocks F))) F None b)"

fun find_start_in :: "instr list \<Rightarrow> u32 \<Rightarrow> instr option res" where
  "find_start_in [] pc = Inr None"
| "find_start_in (i # is) pc = rbind (getConstPcOperand i) (\<lambda>c.
     if c = pc then (if is_store i then Inr (Some i) else Inl (BadCast ''StoreInst''))
     else find_start_in is pc)"

fun findInstStart :: "nat \<Rightarrow> func \<Rightarrow> bblock \<Rightarrow> u32 \<Rightarrow> instr option res"
  and findInstStart_succs :: "nat \<Rightarrow> func \<Rightarrow> bblock list \<Rightarrow> u32 \<Rightarrow> instr option res" where
  "findInstStart 0 F b pc = Inl OutOfFuel"
| "findInstStart (Suc n) F b pc = rbind (find_start_in (bins b) pc) (\<lambda>r.
     (case r of Some i \<Rightarrow> Inr (Some i) | None \<Rightarrow> findInstStart_succs n F (block_succs F b) pc))"
| "findInstStart_succs n F [] pc = Inr None"
| "findInstStart_succs n F (s # ss) pc = rbind (findInstStart n F s pc) (\<lambda>r.
     (case r of Some i \<Rightarrow> Inr (Some i) | None \<Rightarrow> findInstStart_succs n F ss pc))"

definition getLastPc :: "bblock \<Rightarrow> u32 res" where
  "getLastPc b = (case terminator b of None \<Rightarrow> Inl (NullDeref ''getTerminator'')
     | Some t \<Rightarrow> (case get_md t ''lastpc'' of
         None \<Rightarrow> Inl (AssertFailed ''expected lastpc in metadata node'')
       | Some node \<Rightarrow> (case node of
           MDInt c # _ \<Rightarrow> Inr (ucast c)
         | _ \<Rightarrow> Inl (BadCast ''ConstantInt''))))"

definition getFuncLastPc :: "func \<Rightarrow> u32 res" where
  "getFuncLastPc f = rbind (entry_block f) getLastPc"

definition last_start_pc :: "instr list \<Rightarrow> u32 res" where
  "last_start_pc is = rfold (\<lambda>i l. if isInstStart i then getConstPcOperand i else Inr l) is 0"

fun getLastInstStartPc :: "nat \<Rightarrow> func \<Rightarrow> bblock \<Rightarrow> bool \<Rightarrow> bool \<Rightarrow> u32 res"
  and last_start_succs :: "nat \<Rightarrow> func \<Rightarrow> bblock list \<Rightarrow> bool \<Rightarrow> u32 \<Rightarrow> u32 res" where
  "getLastInstStartPc 0 F b allowEmpty noRecovered = Inl OutOfFuel"
| "getLastInstStartPc (Suc n) F b allowEmpty noRecovered =
     (if noRecovered \<and> isRecoveredBlock b then Inr 0
      else rbind (last_start_pc (bins b)) (\<lambda>lastpc.
           rbind (last_start_succs n F (block_succs F b) allowEmpty lastpc) (\<lambda>lastpc'.
           rbind (require (noRecovered \<or> allowEmpty \<or> lastpc' \<noteq> 0) (AssertFailed ''lastpc'')) (\<lambda>_.
             Inr lastpc'))))"
| "last_start_succs n F [] allowEmpty lastpc = Inr lastpc"
| "last_start_succs n F (s # ss) allowEmpty lastpc =
     rbind (getLastInstStartPc n F s allowEmpty True) (\<lambda>p.
       last_start_succs n F ss allowEmpty (max p lastpc))"

definition blocksOverlap :: "func \<Rightarrow> func \<Rightarrow> bool res" where
  "blocksOverlap a b = rbind (getFuncLastPc a) (\<lambda>aEnd. rbind (getFuncLastPc b) (\<lambda>bEnd.
     Inr (getFuncAddress a < getFuncAddress b \<and> bEnd = aEnd)))"

definition haveSameEndAddress :: "func \<Rightarrow> func \<Rightarrow> bool res" where
  "haveSameEndAddress a b = rbind (getFuncLastPc a) (\<lambda>aEnd. rbind (getFuncLastPc b) (\<lambda>bEnd.
     Inr (aEnd = bEnd)))"

definition blockContains :: "func \<Rightarrow> u32 \<Rightarrow> bool res" where
  "blockContains f pc = rbind (getFuncLastPc f) (\<lambda>e. Inr (getFuncAddress f \<le> pc \<and> pc \<le> e))"

section \<open>TagInstPc\<close>

text \<open>The store before the instruction \<open>n\<close> in its block.\<close>

definition prev_store :: "nat \<Rightarrow> instr list \<Rightarrow> instr option" where
  "prev_store n is = (let pre = filter is_store (takeWhile (\<lambda>i. iid i \<noteq> n) is) in
      if pre = [] then None else Some (last pre))"

definition block_with :: "func \<Rightarrow> nat \<Rightarrow> bblock option" where
  "block_with F n = find (\<lambda>B. n \<in> set (map iid (bins B))) (fblocks F)"

definition pc_store_before :: "func \<Rightarrow> nat \<Rightarrow> instr option" where
  "pc_store_before F n = (case block_with F n of None \<Rightarrow> None | Some B \<Rightarrow> prev_store n (bins B))"

definition update_ins :: "nat \<Rightarrow> (instr \<Rightarrow> instr) \<Rightarrow> func \<Rightarrow> func" where
  "update_ins n g F = map_ins (\<lambda>i. if iid i = n then g i else i) F"

text \<open>
  The body for one use of \<open>s2e_icount\<close>: the store before it must write a constant to \<open>PC\<close>. Walking
  back past the start of the block is a fault.
\<close>

definition tag_use :: "nat \<Rightarrow> func \<Rightarrow> func res" where
  "tag_use icountStore f = (case pc_store_before f icountStore of
      None \<Rightarrow> Inl (NullDeref ''--it'')
    | Some pcStore \<Rightarrow> (case store_to ''PC'' pcStore of
        None \<Rightarrow> Inl (AssertFailed ''store before icount does not store to PC'')
      | Some v \<Rightarrow>
          let f1 = update_ins (iid pcStore) (\<lambda>i. set_md i ''inststart'' [MDNull]) f in
          (case const_int v of
             None \<Rightarrow> Inl (BadCast ''ConstantInt'')
           | Some c \<Rightarrow> let pc = ucast c :: u32 in
               rbind (getFuncMeta f1 ''lastpc'') (\<lambda>md. (case md of
                  None \<Rightarrow> setFuncMeta f1 ''lastpc'' [MDInt (ucast pc)]
                | Some node \<Rightarrow> (case node of
                    MDInt cur # _ \<Rightarrow> if pc \<le> ucast cur then Inr f1
                                   else setFuncMeta f1 ''lastpc'' [MDInt (ucast pc)]
                  | _ \<Rightarrow> Inl (BadCast ''ConstantInt'')))))))"

text \<open>
  The stores to \<open>s2e_icount\<close> come in use-list order, which the source does not determine: the order
  of those of each function is a parameter.
\<close>

definition tag_inst_pc :: "(func \<Rightarrow> nat list) \<Rightarrow> lmodule \<Rightarrow> (lmodule \<times> bool) res" where
  "tag_inst_pc icount_uses m =
     rbind (require (''PC'' \<in> set (mglobals m) \<and> ''s2e_icount'' \<in> set (mglobals m))
       (AssertFailed ''globals missing'')) (\<lambda>_.
     rbind (rmap (\<lambda>f. rfold tag_use (icount_uses f) f) (mfuncs m)) (\<lambda>fs.
       Inr (m\<lparr>mfuncs := fs\<rparr>, True)))"

section \<open>What one tag does\<close>

text \<open>The program counter a use of \<open>s2e_icount\<close> stands for.\<close>

definition use_pc :: "func \<Rightarrow> nat \<Rightarrow> u32 option" where
  "use_pc F n = Option.bind (map_option ikind (pc_store_before F n)) (\<lambda>k. (case k of
      Store v p \<Rightarrow> if p = GlobalVar ''PC'' then map_option ucast (const_int v) else None
    | _ \<Rightarrow> None))"

definition same_ins :: "instr \<Rightarrow> instr \<Rightarrow> bool" where
  "same_ins i j \<longleftrightarrow> iid j = iid i \<and> ikind j = ikind i"

lemma prev_store_rel:
  assumes "list_all2 same_ins is js"
  shows "map_option ikind (prev_store n js) = map_option ikind (prev_store n is)"
proof -
  have tw: "list_all2 same_ins (filter is_store (takeWhile (\<lambda>i. iid i \<noteq> n) is))
      (filter is_store (takeWhile (\<lambda>i. iid i \<noteq> n) js))"
    using assms by (induction rule: list_all2_induct) (auto simp: same_ins_def is_store_def)
  have lst: "ys \<noteq> [] \<and> ikind (last ys) = ikind (last xs)" if "list_all2 same_ins xs ys" "xs \<noteq> []" for xs ys
    using that by (cases "ys = []") (auto simp: list_all2_conv_all_nth last_conv_nth same_ins_def)
  show ?thesis
  proof (cases "filter is_store (takeWhile (\<lambda>i. iid i \<noteq> n) is) = []")
    case True
    then have "filter is_store (takeWhile (\<lambda>i. iid i \<noteq> n) js) = []" using tw by simp
    with True show ?thesis unfolding prev_store_def by simp
  next
    case False
    with lst [OF tw False] show ?thesis unfolding prev_store_def Let_def by simp
  qed
qed

lemma map_eq_rel: "map g xs = map g ys \<Longrightarrow> list_all2 (\<lambda>x y. g y = g x) xs ys"
  by (induction xs arbitrary: ys) (auto simp: Cons_eq_map_conv)

lemma skeleton_blocks:
  "skeleton f' = skeleton f \<Longrightarrow> list_all2 (\<lambda>B C. list_all2 same_ins (bins B) (bins C)) (fblocks f) (fblocks f')"
proof -
  assume "skeleton f' = skeleton f"
  from map_eq_rel [OF this [symmetric, unfolded skeleton_def]]
  show ?thesis
  proof (rule list_all2_mono)
    fix B C :: bblock
    assume "(bid C, map (\<lambda>i. (iid i, ikind i)) (bins C)) = (bid B, map (\<lambda>i. (iid i, ikind i)) (bins B))"
    then have "map (\<lambda>i. (iid i, ikind i)) (bins B) = map (\<lambda>i. (iid i, ikind i)) (bins C)" by simp
    from map_eq_rel [OF this] show "list_all2 same_ins (bins B) (bins C)"
      by (rule list_all2_mono) (simp add: same_ins_def)
  qed
qed

lemma use_pc_skeleton:
  assumes "skeleton f' = skeleton f"
  shows "use_pc f' n = use_pc f n"
proof -
  have ids: "map iid js = map iid is" if "list_all2 same_ins is js" for "is" js
    using that by (induction rule: list_all2_induct) (auto simp: same_ins_def)
  have "rel_option (\<lambda>B C. list_all2 same_ins (bins B) (bins C)) (block_with f n) (block_with f' n)"
    using skeleton_blocks [OF assms] unfolding block_with_def
  proof (induction rule: list_all2_induct)
    case Nil
    show ?case by simp
  next
    case (Cons B bs C cs)
    from ids [OF Cons(1)] have "iid ` set (bins C) = iid ` set (bins B)"
      by (metis list.set_map)
    with Cons show ?case by simp
  qed
  then have "map_option ikind (pc_store_before f' n) = map_option ikind (pc_store_before f n)"
    unfolding pc_store_before_def by (cases rule: option.rel_cases) (auto simp: prev_store_rel)
  then show ?thesis by (simp add: use_pc_def)
qed

lemma set_last_md_frame:
  assumes "is \<noteq> []"
  shows "map (\<lambda>i. (iid i, ikind i)) (set_last_md k md is) = map (\<lambda>i. (iid i, ikind i)) is"
proof -
  have "map (\<lambda>i. (iid i, ikind i)) is = map (\<lambda>i. (iid i, ikind i)) (butlast is @ [last is])"
    using assms by simp
  then show ?thesis by (simp add: set_last_md_def del: append_butlast_last_id)
qed

lemma setFuncMeta_Inr:
  assumes "setFuncMeta f k md = Inr f'"
  shows "skeleton f' = skeleton f" and "getFuncMeta f' k = Inr (Some md)"
proof -
  obtain b bs t where b: "fblocks f = b # bs" "bins b \<noteq> []" "terminator b = Some t"
    "f' = f\<lparr>fblocks := b\<lparr>bins := set_last_md k md (bins b)\<rparr> # bs\<rparr>"
    using assms by (auto simp: setFuncMeta_def setBlockMeta_def rbind_eq_Inr split: list.splits option.splits)
  show "skeleton f' = skeleton f"
    using b by (simp add: skeleton_def set_last_md_frame)
  have "is_term_kind (ikind (last (bins b)))" using b(2,3) by (auto simp: terminator_def split: if_splits)
  then show "getFuncMeta f' k = Inr (Some md)"
    using b by (simp add: getFuncMeta_def getBlockMeta_def terminator_def set_last_md_def)
qed

lemma update_ins_meta:
  assumes "k' \<noteq> k"
  shows "skeleton (update_ins n (\<lambda>i. set_md i k md) f) = skeleton f"
    and "getFuncMeta (update_ins n (\<lambda>i. set_md i k md) f) k' = getFuncMeta f k'"
proof -
  show "skeleton (update_ins n (\<lambda>i. set_md i k md) f) = skeleton f"
    by (simp add: skeleton_def update_ins_def map_ins_def map_blocks_def)
  show "getFuncMeta (update_ins n (\<lambda>i. set_md i k md) f) k' = getFuncMeta f k'"
  proof (cases "fblocks f")
    case Nil
    then show ?thesis by (simp add: getFuncMeta_def update_ins_def map_ins_def map_blocks_def)
  next
    case (Cons b bs)
    then show ?thesis
      using assms
      by (auto simp: getFuncMeta_def update_ins_def map_ins_def map_blocks_def getBlockMeta_def
          terminator_def last_map)
  qed
qed

lemma ucast_32_64 [simp]: "ucast (ucast (x :: u32) :: u64) = x"
  by (rule bit_word_eqI) (simp add: bit_ucast_iff)

lemma ucast_inj_32 [simp]: "(ucast (x :: u32) :: u64) = ucast y \<longleftrightarrow> x = y"
  by (metis ucast_32_64)

text \<open>The invariant: the recorded value is the greatest program counter seen so far, if any.\<close>

definition last_is :: "func \<Rightarrow> u32 set \<Rightarrow> bool" where
  "last_is f S \<longleftrightarrow> (if S = {} then getFuncMeta f ''lastpc'' = Inr None
     else getFuncMeta f ''lastpc'' = Inr (Some [MDInt (ucast (Max S))]))"

lemma tag_use_Inr:
  assumes "tag_use n f = Inr f'" and "finite S" and "last_is f S"
  shows "skeleton f' = skeleton f \<and> (\<exists>pc. use_pc f n = Some pc \<and> last_is f' (insert pc S))"
proof -
  obtain st v c where st: "pc_store_before f n = Some st" "store_to ''PC'' st = Some v" "const_int v = Some c"
    using assms(1) by (auto simp: tag_use_def Let_def split: option.splits)
  let ?pc = "ucast c :: u32"
  let ?f1 = "update_ins (iid st) (\<lambda>i. set_md i ''inststart'' [MDNull]) f"
  have k: "ikind st = Store v (GlobalVar ''PC'')" using st(2) by (simp add: store_to_iff)
  have pc: "use_pc f n = Some ?pc" using st k by (simp add: use_pc_def)
  have f1: "skeleton ?f1 = skeleton f" "getFuncMeta ?f1 ''lastpc'' = getFuncMeta f ''lastpc''"
    by (simp_all add: update_ins_meta(1) [of "''lastpc''"] update_ins_meta(2))
  show ?thesis
  proof (cases "S = {}")
    case True
    then have "setFuncMeta ?f1 ''lastpc'' [MDInt (ucast ?pc)] = Inr f'"
      using assms(1,3) st by (simp add: tag_use_def Let_def f1(2) last_is_def)
    from setFuncMeta_Inr [OF this] f1(1) pc True show ?thesis by (simp add: last_is_def)
  next
    case False
    then have old: "getFuncMeta ?f1 ''lastpc'' = Inr (Some [MDInt (ucast (Max S))])"
      using assms(3) by (simp add: f1(2) last_is_def)
    show ?thesis
    proof (cases "?pc \<le> Max S")
      case True
      then have "f' = ?f1" using assms(1) st old by (simp add: tag_use_def Let_def)
      moreover have "Max (insert ?pc S) = Max S" using True False assms(2) by (simp add: max_def)
      ultimately show ?thesis using f1 old pc by (auto simp: last_is_def)
    next
      case gt: False
      then have "setFuncMeta ?f1 ''lastpc'' [MDInt (ucast ?pc)] = Inr f'"
        using assms(1) st old by (simp add: tag_use_def Let_def)
      moreover have "Max (insert ?pc S) = ?pc" using gt False assms(2) by (simp add: max_def)
      ultimately show ?thesis using setFuncMeta_Inr [of ?f1] f1(1) pc by (simp add: last_is_def)
    qed
  qed
qed

lemma tag_uses_Inr:
  assumes "rfold tag_use ns f = Inr f'" and "finite S" and "last_is f S"
  shows "skeleton f' = skeleton f \<and> (\<forall>n \<in> set ns. use_pc f n \<noteq> None)
    \<and> last_is f' (S \<union> (\<lambda>n. the (use_pc f n)) ` set ns)"
  using assms
proof (induction ns arbitrary: f S)
  case Nil
  then show ?case by simp
next
  case (Cons n ns)
  then obtain f1 where f1: "tag_use n f = Inr f1" "rfold tag_use ns f1 = Inr f'"
    by (auto simp: rbind_eq_Inr)
  from tag_use_Inr [OF f1(1) Cons.prems(2,3)] obtain pc where
    s: "skeleton f1 = skeleton f" and pc: "use_pc f n = Some pc" "last_is f1 (insert pc S)" by blast
  from Cons.IH [OF f1(2) _ pc(2)] Cons.prems(2) have
    "skeleton f' = skeleton f1" "\<forall>n \<in> set ns. use_pc f1 n \<noteq> None"
    "last_is f' (insert pc S \<union> (\<lambda>n. the (use_pc f1 n)) ` set ns)" by simp_all
  with s pc(1) show ?case by (simp add: use_pc_skeleton [OF s])
qed

lemma lastpc_of_meta:
  "getFuncMeta f ''lastpc'' = Inr (Some [MDInt c]) \<Longrightarrow> getFuncLastPc f = Inr (ucast c)"
  by (auto simp: getFuncMeta_def getBlockMeta_def getFuncLastPc_def entry_block_def getLastPc_def
      rbind_eq_Inr split: list.splits option.splits)

lemma tag_uses_lastpc:
  assumes "rfold tag_use ns f = Inr f'" and "getFuncMeta f ''lastpc'' = Inr None" and "ns \<noteq> []"
  shows "getFuncLastPc f' = Inr (Max ((\<lambda>n. the (use_pc f n)) ` set ns))"
proof -
  have "last_is f' ((\<lambda>n. the (use_pc f n)) ` set ns)"
    using tag_uses_Inr [OF assms(1), of "{}"] assms(2) by (simp add: last_is_def)
  then show ?thesis using assms(3) by (simp add: last_is_def lastpc_of_meta)
qed

text \<open>
  \<open>TagInstPc.cpp\<close> has a \<open>getLastPc\<close> of its own, which reads the marked stores of a block instead of the metadata.
  It insists on constants where \<open>getConstPcOperand\<close> gives 0; where it returns, both read the same.
\<close>

definition tag_last_step :: "instr \<Rightarrow> u32 \<Rightarrow> u32 res" where
  "tag_last_step i lastpc = (if has_md i ''inststart'' then
      (case ikind i of
         Store v p \<Rightarrow> (case const_int v of Some c \<Rightarrow> Inr (ucast c) | None \<Rightarrow> Inl (BadCast ''ConstantInt''))
       | _ \<Rightarrow> Inl (BadCast ''StoreInst''))
    else Inr lastpc)"

definition TagInstPc_getLastPc :: "bblock \<Rightarrow> u32 res" where
  "TagInstPc_getLastPc bb = rbind (rfold tag_last_step (bins bb) 0) (\<lambda>lastpc.
     rbind (require (lastpc \<noteq> 0) (AssertFailed ''lastpc'')) (\<lambda>_. Inr lastpc))"

lemma tag_last_steps: "rfold tag_last_step is l = Inr l' \<Longrightarrow>
  rfold (\<lambda>i l. if isInstStart i then getConstPcOperand i else Inr l) is l = Inr l'"
  by (induction "is" arbitrary: l)
    (auto simp: rbind_eq_Inr tag_last_step_def isInstStart_def getConstPcOperand_def split: if_splits ikind.splits option.splits)

theorem TagInstPc_getLastPc_agrees:
  assumes "TagInstPc_getLastPc bb = Inr pc"
  shows "last_start_pc (bins bb) = Inr pc \<and> pc \<noteq> 0"
  using assms tag_last_steps by (auto simp: TagInstPc_getLastPc_def last_start_pc_def rbind_eq_Inr require_def split: if_splits)

section \<open>Properties\<close>

text \<open>
  C12. \<open>TagInstPc\<close> leaves on every function the greatest program counter stored before one of its
  stores to \<open>s2e_icount\<close>, read back by \<open>getLastPc\<close>; the order of the use list does not matter.
\<close>

theorem tag_inst_pc_lastpc:
  assumes "tag_inst_pc icount_uses m = Inr (m', changed)" and "k < length (mfuncs m)"
    and "icount_uses (mfuncs m ! k) \<noteq> []" and "getFuncMeta (mfuncs m ! k) ''lastpc'' = Inr None"
  shows "getFuncLastPc (mfuncs m' ! k) =
    Inr (Max ((\<lambda>n. the (use_pc (mfuncs m ! k) n)) ` set (icount_uses (mfuncs m ! k))))"
proof -
  have "rfold tag_use (icount_uses (mfuncs m ! k)) (mfuncs m ! k) = Inr (mfuncs m' ! k)"
    using assms(1,2) by (auto simp: tag_inst_pc_def rbind_eq_Inr dest: rmap_nth)
  then show ?thesis using assms(3,4) by (intro tag_uses_lastpc) auto
qed

text \<open>Two instructions at 4 and 8; the later one comes first in the use list.\<close>

definition tag_sample :: lmodule where
  "tag_sample = \<lparr>mfuncs = [\<lparr>fid = 1, fname = ''f'', fblocks = [\<lparr>bid = 1, bname = ''b'', bins =
     [mk_ins 1 (Store (ConstInt 32 4) (GlobalVar ''PC'')),
      mk_ins 2 (Store (OtherVal ''n'') (GlobalVar ''s2e_icount'')),
      mk_ins 3 (Store (ConstInt 32 8) (GlobalVar ''PC'')),
      mk_ins 4 (Store (OtherVal ''n'') (GlobalVar ''s2e_icount'')),
      mk_ins 5 (Ret None)]\<rparr>]\<rparr>], mglobals = [''PC'', ''s2e_icount'']\<rparr>"

lemma tag_sample_runs: "\<exists>m'. tag_inst_pc (\<lambda>_. [4, 2]) tag_sample = Inr (m', True)"
  by (simp add: tag_sample_def tag_inst_pc_def tag_use_def pc_store_before_def block_with_def
      prev_store_def is_store_def store_to_def update_ins_def map_ins_def map_blocks_def
      getFuncMeta_def getBlockMeta_def terminator_def setFuncMeta_def setBlockMeta_def
      set_last_md_def get_md_def set_md_def Let_def)

theorem tag_inst_pc_lastpc_witness:
  "\<exists>m'. tag_inst_pc (\<lambda>_. [4, 2]) tag_sample = Inr (m', True) \<and> getFuncLastPc (mfuncs m' ! 0) = Inr 8"
proof -
  obtain m' where m': "tag_inst_pc (\<lambda>_. [4, 2]) tag_sample = Inr (m', True)"
    using tag_sample_runs by blast
  have "getFuncMeta (mfuncs tag_sample ! 0) ''lastpc'' = Inr None"
    by (simp add: tag_sample_def getFuncMeta_def getBlockMeta_def terminator_def get_md_def)
  moreover have "use_pc (mfuncs tag_sample ! 0) 4 = Some 8" "use_pc (mfuncs tag_sample ! 0) 2 = Some 4"
    by (simp_all add: tag_sample_def use_pc_def pc_store_before_def block_with_def prev_store_def
        is_store_def Let_def)
  ultimately have "getFuncLastPc (mfuncs m' ! 0) = Inr 8"
    using tag_inst_pc_lastpc [OF m', of 0] by (simp add: tag_sample_def)
  with m' show ?thesis by blast
qed

end
