(* ===== verification/Fix_Overlap.thy ===== *)
theory Fix_Overlap
  imports Pc_Utils Save_BBs
begin

unbundle bit_operations_syntax

text \<open>
  \<open>FixOverlappedBBs\<close>: translated basic blocks that end at the same program counter overlap, since the
  translator starts a block wherever control enters. In every class of blocks with a common end, each
  is cut where the next one (by start address) begins, and jumps there.
  The abstract view is the partition of an address interval: every block of a class keeps the
  instructions below the start of its successor.
\<close>

section \<open>Cutting one function\<close>

text \<open>
  The search for the alignment: the first instruction in layout order whose \<open>INS_currPC\<close> is \<open>pcB\<close>. The
  program counter of every instruction before it is read too.
\<close>

fun align_ins :: "u64 \<Rightarrow> instr list \<Rightarrow> (instr list \<times> instr list) option res" where
  "align_ins pcB [] = Inr None"
| "align_ins pcB (i # is) = rbind (getCurrentPCOfIns i) (\<lambda>pc.
     if pc = pcB then Inr (Some ([i], is))
     else rbind (align_ins pcB is) (\<lambda>r. Inr (map_option (\<lambda>(p, q). (i # p, q)) r)))"

record alignment =
  al_before :: "bblock list"
  al_block :: bblock
  al_kept :: "instr list"
  al_tail :: "instr list"
  al_after :: "bblock list"

fun align_blocks :: "u64 \<Rightarrow> bblock list \<Rightarrow> alignment option res" where
  "align_blocks pcB [] = Inr None"
| "align_blocks pcB (b # bs) = rbind (align_ins pcB (bins b)) (\<lambda>r. (case r of
      Some (p, q) \<Rightarrow> Inr (Some \<lparr>al_before = [], al_block = b, al_kept = p, al_tail = q, al_after = bs\<rparr>)
    | None \<Rightarrow> rbind (align_blocks pcB bs) (\<lambda>r.
        Inr (map_option (\<lambda>a. a\<lparr>al_before := b # al_before a\<rparr>) r))))"

text \<open>The instructions \<open>linkWith\<close> appends: a store of the target to \<open>PC\<close> and a fake return.\<close>

definition link_ins :: "nat \<Rightarrow> u64 \<Rightarrow> instr list" where
  "link_ins n target =
     [set_md (mk_ins n (Store (ConstInt 32 (target AND 0xFFFFFFFF)) (GlobalVar ''PC''))) ''INS_splitCall'' true_node,
      set_md (mk_ins (Suc n) (Ret None)) ''INS_fakeReturn'' true_node]"

text \<open>
  \<open>splitBasicBlock\<close> needs a terminator and an instruction to split before; its branch to the tail is
  erased at once. \<open>DeleteDeadBlock\<close> removes the tail and replaces what is left of its values by
  \<open>undef\<close>.
\<close>

definition undef_uses :: "instr list \<Rightarrow> func \<Rightarrow> func" where
  "undef_uses dead F = fold (\<lambda>i. rauw (InsRef (iid i)) (OtherVal ''undef'')) dead F"

definition linkWith :: "func \<Rightarrow> alignment \<Rightarrow> u64 \<Rightarrow> func" where
  "linkWith a al target = a\<lparr>fname := fname a @ ''-split-to-'' @ hex target,
     fblocks := al_before al @ (al_block al)\<lparr>bins := al_kept al @ link_ins (fresh_iid a) target\<rparr> # al_after al\<rparr>"

definition truncateFuncAndLinkWith :: "func \<Rightarrow> func \<Rightarrow> func res" where
  "truncateFuncAndLinkWith a b =
     rbind (getPCStartOfFunc a) (\<lambda>pcA.
     rbind (getPCStartOfFunc b) (\<lambda>pcB.
     rbind (require (pcA < pcB) (AssertFailed ''pcA < pcB'')) (\<lambda>_.
     rbind (align_blocks pcB (fblocks a)) (\<lambda>r. (case r of
        None \<Rightarrow> Inl (AssertFailed ''found'')
      | Some al \<Rightarrow>
          rbind (require (al_tail al \<noteq> [] \<and> terminator (al_block al) \<noteq> None)
            (AssertFailed ''splitBasicBlock'')) (\<lambda>_.
          Inr (undef_uses (al_tail al) (linkWith a al pcB))))))))"

section \<open>The pass\<close>

definition is_tb :: "func \<Rightarrow> bool" where
  "is_tb f \<longleftrightarrow> strstr (fname f) ''void-tcg-llvm-tb''"

text \<open>\<open>endings\<close> and \<open>overlaps\<close>: a list enters \<open>overlaps\<close> when its length reaches two.\<close>

definition add_ending :: "func \<Rightarrow> (u64 \<Rightarrow> func list) \<times> u64 list \<Rightarrow> ((u64 \<Rightarrow> func list) \<times> u64 list) res" where
  "add_ending f st = (case st of (endings, overlaps) \<Rightarrow>
     if \<not> is_tb f then Inr st
     else rbind (getFuncLastPc f) (\<lambda>e.
       let pcEnd = ucast e; l = endings pcEnd @ [f] in
       Inr (endings(pcEnd := l), if length l = 2 then overlaps @ [pcEnd] else overlaps)))"

text \<open>
  \<open>std::list::sort\<close> is stable; the comparison reads the start of both functions, and every element of
  a list of two or more is compared.
\<close>

definition start_key :: "func \<Rightarrow> u64" where
  "start_key f = (case getPCStartOfFunc f of Inl e \<Rightarrow> 0 | Inr pc \<Rightarrow> pc)"

definition sort_funcs :: "func list \<Rightarrow> func list res" where
  "sort_funcs fs = rbind (rmap getPCStartOfFunc fs) (\<lambda>_. Inr (sort_key start_key fs))"

definition pairs :: "'a list \<Rightarrow> ('a \<times> 'a) list" where
  "pairs xs = zip xs (tl xs)"

text \<open>The functions are looked up again: a pointer denotes the current state of its function.\<close>

definition trunc_pair :: "func \<times> func \<Rightarrow> func list \<Rightarrow> func list res" where
  "trunc_pair p M = (case (find (\<lambda>f. fid f = fid (fst p)) M, find (\<lambda>f. fid f = fid (snd p)) M) of
      (Some a, Some b) \<Rightarrow> rbind (truncateFuncAndLinkWith a b) (\<lambda>a'.
         Inr (map (\<lambda>f. if fid f = fid a then a' else f) M))
    | _ \<Rightarrow> Inl (NullDeref ''curr''))"

definition fix_overlapped_bbs :: "func list \<Rightarrow> (func list \<times> bool) res" where
  "fix_overlapped_bbs M =
     rbind (rfold add_ending M (\<lambda>_. [], [])) (\<lambda>(endings, overlaps).
     rbind (rmap (\<lambda>pc. sort_funcs (endings pc)) overlaps) (\<lambda>ls.
     rbind (rfold trunc_pair (concat (map pairs ls)) M) (\<lambda>M'.
       Inr (M', overlaps \<noteq> []))))"

section \<open>What a cut does\<close>

text \<open>An instruction that carries a program counter other than \<open>pc\<close>.\<close>

definition off_pc :: "u64 \<Rightarrow> instr \<Rightarrow> bool" where
  "off_pc pc i \<longleftrightarrow> (\<exists>c. getCurrentPCOfIns i = Inr c \<and> c \<noteq> pc)"

lemma align_ins_Some:
  "align_ins pc is = Inr (Some (p, q)) \<Longrightarrow> \<exists>p' i. p = p' @ [i] \<and> is = p @ q \<and> getCurrentPCOfIns i = Inr pc
     \<and> (\<forall>j \<in> set p'. off_pc pc j)"
proof (induction "is" arbitrary: p)
  case Nil
  then show ?case by simp
next
  case (Cons i "is")
  from Cons.prems obtain c where c: "getCurrentPCOfIns i = Inr c" by (auto simp: rbind_eq_Inr)
  show ?case
  proof (cases "c = pc")
    case True
    with Cons.prems c show ?thesis by auto
  next
    case False
    with Cons.prems c obtain p1 where p1: "align_ins pc is = Inr (Some (p1, q))" "p = i # p1"
      by (auto simp: rbind_eq_Inr)
    from Cons.IH [OF p1(1)] obtain p' j where "p1 = p' @ [j]" "is = p1 @ q" "getCurrentPCOfIns j = Inr pc"
      "\<forall>j \<in> set p'. off_pc pc j" by blast
    with p1(2) c False show ?thesis by (intro exI [of _ "i # p'"] exI [of _ j]) (auto simp: off_pc_def)
  qed
qed

lemma align_ins_None:
  "align_ins pc is = Inr None \<Longrightarrow> \<forall>j \<in> set is. off_pc pc j"
  by (induction "is") (auto simp: rbind_eq_Inr off_pc_def split: if_splits)

lemma align_blocks_Some:
  "align_blocks pc bs = Inr (Some al) \<Longrightarrow>
   bs = al_before al @ al_block al # al_after al \<and> bins (al_block al) = al_kept al @ al_tail al
   \<and> (\<exists>p' i. al_kept al = p' @ [i] \<and> getCurrentPCOfIns i = Inr pc
       \<and> (\<forall>j \<in> set (concat (map bins (al_before al)) @ p'). off_pc pc j))"
proof (induction bs arbitrary: al)
  case Nil
  then show ?case by simp
next
  case (Cons b bs)
  from Cons.prems obtain r where r: "align_ins pc (bins b) = Inr r" by (auto simp: rbind_eq_Inr)
  show ?case
  proof (cases r)
    case (Some pq)
    then obtain p q where pq: "r = Some (p, q)" by (cases pq) auto
    from align_ins_Some [OF r [unfolded pq]] Cons.prems r pq show ?thesis by auto
  next
    case None
    with Cons.prems r obtain al1 where al1: "align_blocks pc bs = Inr (Some al1)"
      "al = al1\<lparr>al_before := b # al_before al1\<rparr>"
      by (auto simp: rbind_eq_Inr)
    from Cons.IH [OF al1(1)] obtain p' i where IH: "bs = al_before al1 @ al_block al1 # al_after al1"
      "bins (al_block al1) = al_kept al1 @ al_tail al1" "al_kept al1 = p' @ [i]"
      "getCurrentPCOfIns i = Inr pc" "\<forall>j \<in> set (concat (map bins (al_before al1)) @ p'). off_pc pc j"
      by blast
    with align_ins_None [OF r [unfolded None]]
    have "\<forall>j \<in> set (concat (map bins (b # al_before al1)) @ p'). off_pc pc j"
      by (simp add: ball_Un)
    with IH show ?thesis by (simp add: al1(2))
  qed
qed

lemma undef_uses_frame:
  "fid (undef_uses d F) = fid F" "fname (undef_uses d F) = fname F"
  "map (\<lambda>B. (bid B, bname B, map (\<lambda>i. (iid i, imeta i)) (bins B))) (fblocks (undef_uses d F))
     = map (\<lambda>B. (bid B, bname B, map (\<lambda>i. (iid i, imeta i)) (bins B))) (fblocks F)"
proof -
  have r: "fid (rauw a b G) = fid G \<and> fname (rauw a b G) = fname G \<and>
      map (\<lambda>B. (bid B, bname B, map (\<lambda>i. (iid i, imeta i)) (bins B))) (fblocks (rauw a b G))
      = map (\<lambda>B. (bid B, bname B, map (\<lambda>i. (iid i, imeta i)) (bins B))) (fblocks G)" for a b G
    by (simp add: rauw_def map_ins_def map_blocks_def)
  have "fid (undef_uses d F) = fid F \<and> fname (undef_uses d F) = fname F \<and>
      map (\<lambda>B. (bid B, bname B, map (\<lambda>i. (iid i, imeta i)) (bins B))) (fblocks (undef_uses d F))
      = map (\<lambda>B. (bid B, bname B, map (\<lambda>i. (iid i, imeta i)) (bins B))) (fblocks F)"
    unfolding undef_uses_def
    by (induction d arbitrary: F) (use r in \<open>auto simp del: map_map\<close>)
  then show "fid (undef_uses d F) = fid F" "fname (undef_uses d F) = fname F"
    "map (\<lambda>B. (bid B, bname B, map (\<lambda>i. (iid i, imeta i)) (bins B))) (fblocks (undef_uses d F))
     = map (\<lambda>B. (bid B, bname B, map (\<lambda>i. (iid i, imeta i)) (bins B))) (fblocks F)" by blast+
qed

text \<open>
  The specification of a cut: the instruction \<open>i\<close> is the first whose program counter is \<open>pc\<close>; it stays,
  everything after it in its block is replaced by the jump to \<open>pc\<close>.
\<close>

definition cut_at :: "u64 \<Rightarrow> func \<Rightarrow> func \<Rightarrow> bool" where
  "cut_at pc a a' \<longleftrightarrow> (\<exists>pre B p i q post.
     fblocks a = pre @ B # post \<and> bins B = p @ i # q \<and> q \<noteq> []
     \<and> getCurrentPCOfIns i = Inr pc \<and> (\<forall>j \<in> set (concat (map bins pre) @ p). off_pc pc j)
     \<and> a' = undef_uses q (a\<lparr>fname := fname a @ ''-split-to-'' @ hex pc,
         fblocks := pre @ B\<lparr>bins := p @ i # link_ins (fresh_iid a) pc\<rparr> # post\<rparr>))"

lemma truncate_cut:
  assumes "truncateFuncAndLinkWith a b = Inr a'"
  shows "\<exists>pcA pcB. getPCStartOfFunc a = Inr pcA \<and> getPCStartOfFunc b = Inr pcB \<and> pcA < pcB \<and> cut_at pcB a a'"
proof -
  obtain pcA pcB al where st: "getPCStartOfFunc a = Inr pcA" "getPCStartOfFunc b = Inr pcB" "pcA < pcB"
    and al: "align_blocks pcB (fblocks a) = Inr (Some al)" and t: "al_tail al \<noteq> []"
    and a': "a' = undef_uses (al_tail al) (linkWith a al pcB)"
    using assms by (auto simp: truncateFuncAndLinkWith_def rbind_eq_Inr split: option.splits)
  obtain p i where "al_kept al = p @ [i]" "getCurrentPCOfIns i = Inr pcB"
    "\<forall>j \<in> set (concat (map bins (al_before al)) @ p). off_pc pcB j"
    "fblocks a = al_before al @ al_block al # al_after al" "bins (al_block al) = p @ i # al_tail al"
    using align_blocks_Some [OF al] by auto
  then have "cut_at pcB a a'"
    unfolding cut_at_def using t a'
    by (intro exI [of _ "al_before al"] exI [of _ "al_block al"] exI [of _ p] exI [of _ i]
        exI [of _ "al_tail al"] exI [of _ "al_after al"]) (simp add: linkWith_def)
  with st show ?thesis by blast
qed

definition first_meta :: "func \<Rightarrow> (string \<rightharpoonup> mdnode) option option" where
  "first_meta F = (case map (\<lambda>B. map imeta (bins B)) (fblocks F) of
      [] \<Rightarrow> None | ms # _ \<Rightarrow> (case ms of [] \<Rightarrow> Some None | m # _ \<Rightarrow> Some (Some m)))"

lemma first_meta_start: "first_meta F = first_meta G \<Longrightarrow> getPCStartOfFunc F = getPCStartOfFunc G"
  by (auto simp: first_meta_def getPCStartOfFunc_def getHexMetadataFromFunc_def entry_block_def
      front_ins_def getHexMetadataFromIns_def get_md_def split: list.splits)

lemma first_meta_undef: "first_meta (undef_uses d F) = first_meta F"
proof -
  have "map (\<lambda>B. map imeta (bins B)) (fblocks (undef_uses d F)) = map (\<lambda>B. map imeta (bins B)) (fblocks F)"
    using arg_cong [OF undef_uses_frame(3) [of d F], of "map (\<lambda>(b, n, is). map snd is)"]
    by (simp add: comp_def)
  then show ?thesis by (simp add: first_meta_def)
qed

lemma truncate_frame:
  assumes "truncateFuncAndLinkWith a b = Inr a'"
  shows "fid a' = fid a" and "getPCStartOfFunc a' = getPCStartOfFunc a"
proof -
  obtain pc pre B p i q post where c: "fblocks a = pre @ B # post" "bins B = p @ i # q"
    "a' = undef_uses q (a\<lparr>fname := fname a @ ''-split-to-'' @ hex pc,
         fblocks := pre @ B\<lparr>bins := p @ i # link_ins (fresh_iid a) pc\<rparr> # post\<rparr>)"
    using truncate_cut [OF assms] unfolding cut_at_def by auto
  show "fid a' = fid a" by (simp add: c(3) undef_uses_frame)
  have "first_meta a' = first_meta a"
    unfolding c(3) first_meta_undef
    using c(1,2) by (cases pre; cases p) (simp_all add: first_meta_def)
  then show "getPCStartOfFunc a' = getPCStartOfFunc a" by (rule first_meta_start)
qed

lemma truncate_cong:
  "getPCStartOfFunc b = getPCStartOfFunc c \<Longrightarrow> truncateFuncAndLinkWith a b = truncateFuncAndLinkWith a c"
  by (simp add: truncateFuncAndLinkWith_def)

section \<open>The classes\<close>

definition last_pc :: "func \<Rightarrow> u64 option" where
  "last_pc f = (if is_tb f then (case getFuncLastPc f of Inl e \<Rightarrow> None | Inr e \<Rightarrow> Some (ucast e)) else None)"

definition ending_class :: "func list \<Rightarrow> u64 \<Rightarrow> func list" where
  "ending_class M e = filter (\<lambda>f. last_pc f = Some e) M"

lemma ending_class_snoc:
  "ending_class (M @ [f]) e = ending_class M e @ (if last_pc f = Some e then [f] else [])"
  by (simp add: ending_class_def)

lemma endings_fold:
  "rfold add_ending M (\<lambda>_. [], []) = Inr (endings, overlaps) \<Longrightarrow>
   endings = ending_class M \<and> distinct overlaps \<and> set overlaps = {e. 2 \<le> length (ending_class M e)}"
proof (induction M arbitrary: endings overlaps rule: rev_induct)
  case Nil
  then show ?case by (auto simp: ending_class_def fun_eq_iff)
next
  case (snoc f M)
  then obtain en ov where r: "rfold add_ending M (\<lambda>_. [], []) = Inr (en, ov)"
    and s: "add_ending f (en, ov) = Inr (endings, overlaps)"
    by (auto simp: rfold_append rbind_eq_Inr)
  from snoc.IH [OF r] have IH: "en = ending_class M" "distinct ov"
    "set ov = {e. 2 \<le> length (ending_class M e)}" by simp_all
  show ?case
  proof (cases "is_tb f")
    case False
    then have "ending_class (M @ [f]) = ending_class M" by (simp add: fun_eq_iff ending_class_snoc last_pc_def)
    with s False IH show ?thesis by (simp add: add_ending_def)
  next
    case True
    with s obtain e where e: "getFuncLastPc f = Inr e" by (auto simp: add_ending_def rbind_eq_Inr)
    let ?e = "ucast e :: u64"
    have lp: "last_pc f = Some ?e" using True e by (simp add: last_pc_def)
    have "endings = (ending_class M)(?e := ending_class M ?e @ [f])"
      using s True e IH(1) by (auto simp: add_ending_def Let_def)
    then have en: "endings = ending_class (M @ [f])"
      using lp by (simp add: fun_eq_iff ending_class_snoc)
    have ov: "overlaps = (if length (ending_class M ?e) = 1 then ov @ [?e] else ov)"
      using s True e IH(1) by (auto simp: add_ending_def Let_def)
    have len: "length (ending_class (M @ [f]) x) = length (ending_class M x) + (if x = ?e then 1 else 0)" for x
      using lp by (simp add: ending_class_snoc)
    have "?e \<notin> set ov" if "length (ending_class M ?e) = 1" using that IH(3) by simp
    then have "distinct overlaps" using IH(2) by (simp add: ov)
    moreover have "set overlaps = {e. 2 \<le> length (ending_class (M @ [f]) e)}"
      unfolding len by (auto simp: ov IH(3))
    ultimately show ?thesis using en by blast
  qed
qed

section \<open>The cuts of all pairs\<close>

text \<open>What the list \<open>ps\<close> of pairs makes of one function.\<close>

definition after_pairs :: "(func \<times> func) list \<Rightarrow> func \<Rightarrow> func \<Rightarrow> bool" where
  "after_pairs ps f f' \<longleftrightarrow> fid f' = fid f \<and> getPCStartOfFunc f' = getPCStartOfFunc f
     \<and> (case find (\<lambda>p. fid (fst p) = fid f) ps of
          None \<Rightarrow> f' = f | Some p \<Rightarrow> truncateFuncAndLinkWith f (snd p) = Inr f')"

lemma find_append: "find P (xs @ ys) = (case find P xs of None \<Rightarrow> find P ys | Some x \<Rightarrow> Some x)"
  by (induction xs) auto

lemma rmap_map_eq: "rmap g xs = Inr ys \<Longrightarrow> (\<And>x y. g x = Inr y \<Longrightarrow> y = h x) \<Longrightarrow> ys = map h xs"
  by (induction xs arbitrary: ys) (auto simp: rbind_eq_Inr)

lemma find_fid:
  assumes "distinct (map fid M)" and "k < length M"
  shows "find (\<lambda>f. fid f = fid (M ! k)) M = Some (M ! k)"
proof -
  have "fid (M ! j) \<noteq> fid (M ! k)" if "j < k" for j
    using assms that by (auto simp: distinct_conv_nth)
  with assms(2) show ?thesis by (auto simp: find_Some_iff)
qed

lemma trunc_pair_step:
  assumes dis: "distinct (map fid M)" and rel: "list_all2 (after_pairs ps) M M1"
    and p: "fst p \<in> set M" "snd p \<in> set M" "fid (fst p) \<notin> fid ` fst ` set ps"
    and run: "trunc_pair p M1 = Inr M2"
  shows "list_all2 (after_pairs (ps @ [p])) M M2"
proof -
  have len: "length M1 = length M" using rel by (simp add: list_all2_lengthD)
  have ids: "map fid M1 = map fid M"
    using rel by (auto simp: list_all2_conv_all_nth after_pairs_def intro: nth_equalityI)
  have dis1: "distinct (map fid M1)" using dis ids by simp
  obtain ka kb where ka: "ka < length M" "fst p = M ! ka" and kb: "kb < length M" "snd p = M ! kb"
    using p(1,2) by (auto simp: in_set_conv_nth)
  have fid1: "fid (M1 ! k) = fid (M ! k)" if "k < length M" for k
    using ids that len by (metis nth_map)
  have none: "find (\<lambda>q. fid (fst q) = fid (M ! ka)) ps = None"
    unfolding find_None_iff using p(3) ka(2) by (metis imageI)
  then have a: "M1 ! ka = M ! ka"
    using rel ka(1) by (auto simp: list_all2_conv_all_nth after_pairs_def)
  have fa: "find (\<lambda>f. fid f = fid (fst p)) M1 = Some (M ! ka)"
    using find_fid [OF dis1, of ka] ka len a by simp
  have fb: "find (\<lambda>f. fid f = fid (snd p)) M1 = Some (M1 ! kb)"
    using find_fid [OF dis1, of kb] kb len fid1 by simp
  have "getPCStartOfFunc (M1 ! kb) = getPCStartOfFunc (snd p)"
    using rel kb by (auto simp: list_all2_conv_all_nth after_pairs_def)
  then have tc: "truncateFuncAndLinkWith (M ! ka) (M1 ! kb) = truncateFuncAndLinkWith (M ! ka) (snd p)"
    by (rule truncate_cong)
  obtain a' where a': "truncateFuncAndLinkWith (M ! ka) (snd p) = Inr a'"
    and M2: "M2 = map (\<lambda>f. if fid f = fid (M ! ka) then a' else f) M1"
    using run by (auto simp: trunc_pair_def fa fb tc rbind_eq_Inr)
  show ?thesis
  proof (rule list_all2_all_nthI)
    show "length M = length M2" by (simp add: M2 len)
  next
    fix k assume k: "k < length M"
    show "after_pairs (ps @ [p]) (M ! k) (M2 ! k)"
    proof (cases "k = ka")
      case True
      have "find (\<lambda>q. fid (fst q) = fid (M ! ka)) (ps @ [p]) = Some p"
        using none ka(2) by (simp add: find_append)
      with True k show ?thesis
        using a' truncate_frame [OF a'] by (simp add: after_pairs_def M2 len a)
    next
      case False
      then have ne: "fid (M ! k) \<noteq> fid (M ! ka)" using dis k ka(1) by (auto simp: distinct_conv_nth)
      then have "M2 ! k = M1 ! k" using k len fid1 by (simp add: M2)
      moreover have "find (\<lambda>q. fid (fst q) = fid (M ! k)) (ps @ [p]) = find (\<lambda>q. fid (fst q) = fid (M ! k)) ps"
        using ne ka(2) by (cases "find (\<lambda>q. fid (fst q) = fid (M ! k)) ps") (auto simp: find_append)
      ultimately show ?thesis
        using rel k by (simp add: list_all2_conv_all_nth after_pairs_def)
    qed
  qed
qed

lemma trunc_pairs:
  assumes "rfold trunc_pair ps M = Inr M'" and "distinct (map fid M)"
    and "distinct (map (fid \<circ> fst) ps)" and "\<forall>p \<in> set ps. fst p \<in> set M \<and> snd p \<in> set M"
  shows "list_all2 (after_pairs ps) M M'"
  using assms(1,3,4)
proof (induction ps arbitrary: M' rule: rev_induct)
  case Nil
  then show ?case by (simp add: list_all2_same after_pairs_def)
next
  case (snoc p ps)
  then obtain M1 where m: "rfold trunc_pair ps M = Inr M1" "trunc_pair p M1 = Inr M'"
    by (auto simp: rfold_append rbind_eq_Inr)
  have "list_all2 (after_pairs ps) M M1" using snoc.IH [OF m(1)] snoc.prems by simp
  then show ?case
    by (rule trunc_pair_step [OF assms(2) _ _ _ _ m(2)]) (use snoc.prems in \<open>auto simp: image_comp\<close>)
qed

section \<open>Consecutive pairs of a sorted class\<close>

lemma pairs_simps [simp]:
  "pairs [] = []" "pairs [x] = []" "pairs (x # y # zs) = (x, y) # pairs (y # zs)"
  by (simp_all add: pairs_def)

lemma map_fst_pairs: "map fst (pairs xs) = butlast xs"
  by (induction xs rule: induct_list012) simp_all

lemma pairs_mem: "(a, b) \<in> set (pairs xs) \<Longrightarrow> a \<in> set xs \<and> b \<in> set xs"
  by (induction xs rule: induct_list012) auto

lemma pairs_up:
  "\<forall>p \<in> set (pairs (y # zs)). k (fst p) < (k (snd p) :: u64) \<Longrightarrow> \<forall>z \<in> set zs. k y < k z"
proof (induction zs arbitrary: y)
  case Nil
  then show ?case by simp
next
  case (Cons z zs)
  then have "k y < k z" "\<forall>x \<in> set zs. k z < k x" by simp_all
  then show ?case by auto
qed

text \<open>
  In a list whose keys go up strictly from each element to the next, the partner of an element in
  \<open>pairs\<close> is the one with the least greater key.
\<close>

lemma pairs_next:
  assumes "\<forall>p \<in> set (pairs xs). k (fst p) < (k (snd p) :: u64)" and "f \<in> set xs"
  shows "(filter (\<lambda>g. k f < k g) xs = [] \<and> f \<notin> fst ` set (pairs xs)) \<or>
    (\<exists>g. (f, g) \<in> set (pairs xs) \<and> k g = Min (k ` set (filter (\<lambda>g. k f < k g) xs)))"
  using assms
proof (induction xs rule: induct_list012)
  case 1
  then show ?case by simp
next
  case (2 x)
  then show ?case by simp
next
  case (3 x y zs)
  have inc: "k x < k y" "\<forall>p \<in> set (pairs (y # zs)). k (fst p) < k (snd p)" using 3(3) by simp_all
  have ge: "k y \<le> k z" if "z \<in> set (y # zs)" for z
    using pairs_up [OF inc(2)] that by (auto intro: less_imp_le)
  have gt: "k x < k z" if "z \<in> set (y # zs)" for z
    using order_less_le_trans [OF inc(1) ge [OF that]] .
  show ?case
  proof (cases "f = x")
    case True
    have "filter (\<lambda>g. k x < k g) (x # y # zs) = y # zs" using gt by (auto simp: filter_id_conv)
    moreover have "Min (k ` set (y # zs)) = k y" using ge by (intro Min_eqI) auto
    ultimately show ?thesis using True by auto
  next
    case False
    then have f: "f \<in> set (y # zs)" using 3(4) by simp
    then have "filter (\<lambda>g. k f < k g) (x # y # zs) = filter (\<lambda>g. k f < k g) (y # zs)"
      using gt [OF f] by simp
    with 3(2) [OF inc(2) f] False show ?thesis by auto
  qed
qed

lemma pairs_inj:
  "\<forall>p \<in> set (pairs xs). k (fst p) < (k (snd p) :: u64) \<Longrightarrow> f \<in> set xs \<Longrightarrow> g \<in> set xs \<Longrightarrow> k f = k g \<Longrightarrow> f = g"
proof (induction xs)
  case Nil
  then show ?case by simp
next
  case (Cons x xs)
  have up: "\<forall>z \<in> set xs. k x < k z" using pairs_up [OF Cons.prems(1)] .
  have p: "\<forall>p \<in> set (pairs xs). k (fst p) < k (snd p)" using Cons.prems(1) by (cases xs) simp_all
  consider "f = x" "g = x" | "f = x" "g \<in> set xs" | "f \<in> set xs" "g = x" | "f \<in> set xs" "g \<in> set xs"
    using Cons.prems(2,3) by auto
  then show ?case
  proof cases
    case 4
    then show ?thesis using Cons.IH [OF p] Cons.prems(4) by blast
  qed (use up Cons.prems(4) in fastforce)+
qed

lemma find_distinct_key:
  "distinct (map (key \<circ> fst) ps) \<Longrightarrow> p \<in> set ps \<Longrightarrow> find (\<lambda>q. key (fst q) = key (fst p)) ps = Some p"
  by (induction ps) force+

section \<open>The pass is the partition of the classes\<close>

definition later_starts :: "func list \<Rightarrow> func \<Rightarrow> func list" where
  "later_starts M f = filter (\<lambda>g. last_pc f \<noteq> None \<and> last_pc g = last_pc f \<and> start_key f < start_key g) M"

definition class_pairs :: "func list \<Rightarrow> u64 list \<Rightarrow> (func \<times> func) list" where
  "class_pairs M es = concat (map (\<lambda>e. pairs (sort_key start_key (ending_class M e))) es)"

lemma fix_overlapped_run:
  assumes "fix_overlapped_bbs M = Inr (M', ch)"
  obtains es where "distinct es" "set es = {e. 2 \<le> length (ending_class M e)}" "ch = (es \<noteq> [])"
    "rfold trunc_pair (class_pairs M es) M = Inr M'"
proof -
  obtain en es ls where e: "rfold add_ending M (\<lambda>_. [], []) = Inr (en, es)"
    and ls: "rmap (\<lambda>pc. sort_funcs (en pc)) es = Inr ls"
    and t: "rfold trunc_pair (concat (map pairs ls)) M = Inr M'" and c: "ch = (es \<noteq> [])"
    using assms by (auto simp: fix_overlapped_bbs_def rbind_eq_Inr)
  note f = endings_fold [OF e]
  have "ls = map (\<lambda>e. sort_key start_key (ending_class M e)) es"
    by (rule rmap_map_eq [OF ls]) (auto simp: sort_funcs_def rbind_eq_Inr f)
  then have "concat (map pairs ls) = class_pairs M es" by (simp add: class_pairs_def comp_def)
  with that f c t show ?thesis by auto
qed

lemma class_pairs_distinct:
  assumes "distinct (map fid M)" and "distinct es"
  shows "distinct (map (fid \<circ> fst) (class_pairs M es))"
  using assms(2)
proof (induction es)
  case Nil
  show ?case by (simp add: class_pairs_def)
next
  case (Cons e es)
  let ?s = "\<lambda>e. sort_key start_key (ending_class M e)"
  have inj: "f = g" if "f \<in> set M" "g \<in> set M" "fid f = fid g" for f g
    using assms(1) that by (auto simp: distinct_map inj_on_def)
  have sub: "f \<in> set M \<and> last_pc f = Some c" if "p \<in> set (pairs (?s c))" "f = fst p" for p f c
    using pairs_mem [of "fst p" "snd p" "?s c"] that by (auto simp: ending_class_def)
  have "distinct (map fid (?s e))"
    using assms(1) by (simp add: ending_class_def distinct_map inj_on_def)
  then have "distinct (map (fid \<circ> fst) (pairs (?s e)))"
    unfolding map_map [symmetric] map_fst_pairs by (simp add: map_butlast distinct_butlast)
  moreover have "fid (fst p) \<noteq> fid (fst q)" if "p \<in> set (pairs (?s e))" "q \<in> set (class_pairs M es)" for p q
  proof
    note pq = that
    assume eq: "fid (fst p) = fid (fst q)"
    obtain c where c: "c \<in> set es" "q \<in> set (pairs (?s c))" using pq(2) by (auto simp: class_pairs_def)
    have "fst p = fst q" using inj sub pq(1) c(2) eq by blast
    then have "Some e = Some c" using sub [OF pq(1)] sub [OF c(2)] by simp
    with c(1) Cons.prems show False by simp
  qed
  then have "set (map (fid \<circ> fst) (pairs (?s e))) \<inter> set (map (fid \<circ> fst) (class_pairs M es)) = {}"
    by fastforce
  moreover have "class_pairs M (e # es) = pairs (?s e) @ class_pairs M es"
    by (simp add: class_pairs_def)
  moreover have "distinct (map (fid \<circ> fst) (class_pairs M es))"
    by (rule Cons.IH) (use Cons.prems in simp)
  ultimately show ?case by (simp only: map_append distinct_append)
qed

lemma class_pairs_mem: "p \<in> set (class_pairs M es) \<Longrightarrow> fst p \<in> set M \<and> snd p \<in> set M"
proof -
  assume "p \<in> set (class_pairs M es)"
  then obtain e where "(fst p, snd p) \<in> set (pairs (sort_key start_key (ending_class M e)))"
    by (auto simp: class_pairs_def)
  from pairs_mem [OF this] show ?thesis by (simp add: ending_class_def)
qed

text \<open>The functions with one end, in the order of their starts.\<close>

abbreviation by_start :: "func list \<Rightarrow> u64 \<Rightarrow> func list" where
  "by_start M e \<equiv> sort_key start_key (ending_class M e)"

lemma class_pairs_increase:
  assumes "list_all2 (after_pairs (class_pairs M es)) M M'" and "distinct (map (fid \<circ> fst) (class_pairs M es))"
    and p: "p \<in> set (class_pairs M es)"
  shows "start_key (fst p) < start_key (snd p)"
proof -
  obtain j where j: "j < length M" "fst p = M ! j" using class_pairs_mem [OF p] by (auto simp: in_set_conv_nth)
  have "find (\<lambda>q. fid (fst q) = fid (fst p)) (class_pairs M es) = Some p"
    using assms(2) p by (rule find_distinct_key)
  with assms(1) j have "\<exists>h'. truncateFuncAndLinkWith (fst p) (snd p) = Inr h'"
    by (auto simp: list_all2_conv_all_nth after_pairs_def)
  then show ?thesis using truncate_cut by (fastforce simp: start_key_def)
qed

text \<open>What one run does to one function: it is cut at its successor in the order of its class, if it has one.\<close>

lemma fix_overlapped_class:
  assumes "fix_overlapped_bbs M = Inr (M', ch)" and "distinct (map fid M)" and "f \<in> set M"
  obtains es f' where "set es = {e. 2 \<le> length (ending_class M e)}" "(f, f') \<in> set (zip M M')"
    "\<And>e g. e \<in> set es \<Longrightarrow> (f, g) \<in> set (pairs (by_start M e)) \<Longrightarrow> cut_at (start_key g) f f'"
    "(\<And>e. e \<in> set es \<Longrightarrow> last_pc f = Some e \<Longrightarrow> f \<notin> fst ` set (pairs (by_start M e))) \<Longrightarrow> f' = f"
    "\<And>e. e \<in> set es \<Longrightarrow> \<forall>p \<in> set (pairs (by_start M e)). start_key (fst p) < start_key (snd p)"
proof -
  obtain es where es: "distinct es" "set es = {e. 2 \<le> length (ending_class M e)}"
    and run: "rfold trunc_pair (class_pairs M es) M = Inr M'"
    using fix_overlapped_run [OF assms(1)] by metis
  note cp = class_pairs_distinct [OF assms(2) es(1)]
  have rel: "list_all2 (after_pairs (class_pairs M es)) M M'"
    by (rule trunc_pairs [OF run assms(2) cp]) (use class_pairs_mem in blast)
  obtain k where k: "k < length M" "f = M ! k" using assms(3) by (auto simp: in_set_conv_nth)
  let ?f' = "M' ! k"
  have af: "after_pairs (class_pairs M es) f ?f'" using rel k by (simp add: list_all2_conv_all_nth)
  have zip: "(f, ?f') \<in> set (zip M M')" using k rel by (auto simp: set_zip list_all2_lengthD)
  have none: "?f' = f" if nf: "\<And>e. e \<in> set es \<Longrightarrow> last_pc f = Some e \<Longrightarrow> f \<notin> fst ` set (pairs (by_start M e))"
  proof -
    have "fid (fst q) \<noteq> fid f" if q: "q \<in> set (class_pairs M es)" for q
    proof
      assume "fid (fst q) = fid f"
      then have "fst q = f" using class_pairs_mem [OF q] assms(2,3) by (auto simp: distinct_map inj_on_def)
      moreover obtain e where e: "e \<in> set es" "(fst q, snd q) \<in> set (pairs (by_start M e))" using q by (auto simp: class_pairs_def)
      ultimately show False using nf [OF e(1)] pairs_mem [OF e(2)] by (force simp: ending_class_def)
    qed
    then have "find (\<lambda>q. fid (fst q) = fid f) (class_pairs M es) = None"
      unfolding find_None_iff by blast
    with af show ?thesis by (simp add: after_pairs_def)
  qed
  have some: "cut_at (start_key g) f ?f'" if e: "e \<in> set es" "(f, g) \<in> set (pairs (by_start M e))" for e g
  proof -
    have p: "(f, g) \<in> set (class_pairs M es)" using e by (auto simp: class_pairs_def)
    have "find (\<lambda>q. fid (fst q) = fid f) (class_pairs M es) = Some (f, g)"
      using find_distinct_key [OF cp p] by simp
    with af have "truncateFuncAndLinkWith f g = Inr ?f'" by (simp add: after_pairs_def)
    from truncate_cut [OF this] show ?thesis by (auto simp: start_key_def)
  qed
  show thesis
    by (rule that [OF es(2) zip some none]) (use class_pairs_increase [OF rel cp] in \<open>auto simp: class_pairs_def\<close>)
qed

lemma lone_ending:
  assumes "\<not> 2 \<le> length (ending_class M e)" and "f \<in> set M" "last_pc f = Some e" and "g \<in> set M" "last_pc g = Some e"
  shows "g = f"
proof -
  have "f \<in> set (ending_class M e)" "g \<in> set (ending_class M e)" using assms by (simp_all add: ending_class_def)
  with assms(1) show ?thesis by (cases "ending_class M e" rule: remdups_adj.cases) auto
qed

lemma fix_overlapped_cuts:
  assumes "fix_overlapped_bbs M = Inr (M', ch)" and "distinct (map fid M)" and "f \<in> set M"
  obtains f' where "(f, f') \<in> set (zip M M')"
    "later_starts M f = [] \<Longrightarrow> f' = f"
    "later_starts M f \<noteq> [] \<Longrightarrow> cut_at (Min (start_key ` set (later_starts M f))) f f'"
    "\<And>g. g \<in> set M \<Longrightarrow> last_pc f \<noteq> None \<Longrightarrow> last_pc g = last_pc f \<Longrightarrow> start_key g = start_key f \<Longrightarrow> g = f"
proof (rule fix_overlapped_class [OF assms])
  fix es f'
  assume es: "set es = {e. 2 \<le> length (ending_class M e)}" and zip: "(f, f') \<in> set (zip M M')"
    and some: "\<And>e g. e \<in> set es \<Longrightarrow> (f, g) \<in> set (pairs (by_start M e)) \<Longrightarrow> cut_at (start_key g) f f'"
    and none: "(\<And>e. e \<in> set es \<Longrightarrow> last_pc f = Some e \<Longrightarrow> f \<notin> fst ` set (pairs (by_start M e))) \<Longrightarrow> f' = f"
    and incs: "\<And>e. e \<in> set es \<Longrightarrow> \<forall>p \<in> set (pairs (by_start M e)). start_key (fst p) < start_key (snd p)"
  have single: "g = f" if "last_pc f = Some e" "e \<notin> set es" "g \<in> set M" "last_pc g = Some e" for e g
    using lone_ending [of M e f g] that es assms(3) by simp
  show thesis
  proof (cases "\<exists>e \<in> set es. last_pc f = Some e")
    case False
    then have "later_starts M f = []"
      using single by (cases "last_pc f") (force simp: later_starts_def filter_empty_conv)+
    moreover have "f' = f" using False by (intro none) blast
    moreover have "g = f" if "g \<in> set M" "last_pc f \<noteq> None" "last_pc g = last_pc f" for g
      using single [of "the (last_pc f)" g] that False by auto
    ultimately show thesis using that [OF zip] by blast
  next
    case True
    then obtain e where e: "e \<in> set es" "last_pc f = Some e" by blast
    have fm: "f \<in> set (by_start M e)" using e(2) assms(3) by (simp add: ending_class_def)
    have late: "set (later_starts M f) = set (filter (\<lambda>g. start_key f < start_key g) (by_start M e))"
      using e(2) by (auto simp: later_starts_def ending_class_def)
    have uniq: "g = f" if "g \<in> set M" "last_pc g = last_pc f" "start_key g = start_key f" for g
    proof -
      have "g \<in> set (by_start M e)" using e that by (simp add: ending_class_def)
      then show ?thesis using pairs_inj [OF incs [OF e(1)]] fm that(3) by metis
    qed
    from pairs_next [OF incs [OF e(1)] fm] show thesis
    proof
      assume a: "filter (\<lambda>g. start_key f < start_key g) (by_start M e) = [] \<and> f \<notin> fst ` set (pairs (by_start M e))"
      then have "later_starts M f = []" using late by simp
      moreover have "f' = f" using a e(2) by (intro none) simp
      ultimately show thesis using that [OF zip] uniq by blast
    next
      assume "\<exists>g. (f, g) \<in> set (pairs (by_start M e)) \<and>
          start_key g = Min (start_key ` set (filter (\<lambda>g. start_key f < start_key g) (by_start M e)))"
      then obtain g where g: "(f, g) \<in> set (pairs (by_start M e))" "start_key g = Min (start_key ` set (later_starts M f))"
        using late by auto
      have "g \<in> set (later_starts M f)" using g(1) pairs_mem [OF g(1)] incs [OF e(1)] late by fastforce
      then have "later_starts M f \<noteq> []" by auto
      moreover have "cut_at (Min (start_key ` set (later_starts M f))) f f'" using some [OF e(1) g(1)] g(2) by simp
      ultimately show thesis using that [OF zip] uniq by blast
    qed
  qed
qed

lemma fix_overlapped_changed:
  assumes "fix_overlapped_bbs M = Inr (M', ch)"
  shows "ch \<longleftrightarrow> (\<exists>e. 2 \<le> length (ending_class M e))"
  using fix_overlapped_run [OF assms] by (metis empty_iff equals0I list.set(1) mem_Collect_eq set_empty)

section \<open>Properties\<close>

text \<open>
  C13. Cutting one function: when \<open>truncateFuncAndLinkWith a b\<close> returns, \<open>a\<close> starts before \<open>b\<close>, and the
  result keeps of \<open>a\<close> exactly the code up to and including the first instruction that belongs to the
  start of \<open>b\<close>, then jumps there; its identity and its start address are unchanged.
\<close>

theorem truncate_is_cut:
  assumes "truncateFuncAndLinkWith a b = Inr a'"
  shows "fid a' = fid a \<and> getPCStartOfFunc a' = getPCStartOfFunc a
    \<and> (\<exists>pcA pcB. getPCStartOfFunc a = Inr pcA \<and> getPCStartOfFunc b = Inr pcB \<and> pcA < pcB \<and> cut_at pcB a a')"
  using truncate_frame [OF assms] truncate_cut [OF assms] by blast

text \<open>
  C14. \<open>FixOverlappedBBs\<close> on a module: a translated function is left alone when no function with the
  same end starts after it, and is cut at the least of the later starts otherwise, so that the
  functions of a class become consecutive pieces; the pass reports a change exactly when two translated
  functions share their end.
\<close>

theorem fix_overlapped_partition:
  assumes "fix_overlapped_bbs M = Inr (M', changed)" and "distinct (map fid M)" and "f \<in> set M"
  shows "(\<exists>f'. (f, f') \<in> set (zip M M')
      \<and> (if later_starts M f = [] then f' = f
         else cut_at (Min (start_key ` set (later_starts M f))) f f'))
    \<and> (changed \<longleftrightarrow> (\<exists>e. 2 \<le> length (ending_class M e)))"
  using fix_overlapped_cuts [OF assms] fix_overlapped_changed [OF assms(1)] by metis

text \<open>
  Two translated functions with the same end and the same start stop the pass: it never returns
  when a class has two members that begin at one address.
\<close>

theorem fix_overlapped_no_duplicates:
  assumes "distinct (map fid M)" and "f \<in> set M" "g \<in> set M" "f \<noteq> g"
    and "last_pc f \<noteq> None" "last_pc g = last_pc f" "start_key g = start_key f"
  shows "\<exists>e. fix_overlapped_bbs M = Inl e"
proof (cases "fix_overlapped_bbs M")
  case (Inr r)
  then obtain M' ch where r: "fix_overlapped_bbs M = Inr (M', ch)" by (cases r) auto
  have "g = f" by (rule fix_overlapped_cuts [OF r assms(1,2)]) (use assms(3,5,6,7) in blast)
  with assms(4) show ?thesis by simp
qed simp

text \<open>Two blocks that end at 8: one starts at 0, the other at 4.\<close>

definition tb_ins :: "nat \<Rightarrow> u64 \<Rightarrow> ikind \<Rightarrow> u64 \<Rightarrow> instr" where
  "tb_ins n start k pc = \<lparr>iid = n, ikind = k, imeta = [''BB_pcStart'' \<mapsto> hex_node start,
     ''INS_currPC'' \<mapsto> hex_node pc, ''lastpc'' \<mapsto> [MDInt 8]]\<rparr>"

definition tb_long :: func where
  "tb_long = \<lparr>fid = 1, fname = ''void-tcg-llvm-tb-0'', fblocks = [\<lparr>bid = 1, bname = ''e'', bins =
     [tb_ins 1 0 (Load (GlobalVar ''R0'')) 0, tb_ins 2 0 (Load (GlobalVar ''R1'')) 4,
      tb_ins 3 0 (Ret None) 8]\<rparr>]\<rparr>"

definition tb_short :: func where
  "tb_short = \<lparr>fid = 2, fname = ''void-tcg-llvm-tb-1'', fblocks = [\<lparr>bid = 2, bname = ''e'', bins =
     [tb_ins 4 4 (Load (GlobalVar ''R1'')) 4, tb_ins 5 4 (Ret None) 8]\<rparr>]\<rparr>"

lemma tb_facts:
  "getPCStartOfFunc tb_long = Inr 0" "getPCStartOfFunc tb_short = Inr 4"
  "getFuncLastPc tb_long = Inr 8" "getFuncLastPc tb_short = Inr 8" "is_tb tb_long" "is_tb tb_short"
  "getCurrentPCOfIns (tb_ins n s k pc) = Inr (if unat pc < 2 ^ 63 then pc else 2 ^ 63 - 1)"
  by (simp_all add: tb_long_def tb_short_def tb_ins_def getPCStartOfFunc_def getHexMetadataFromFunc_def
      entry_block_def front_ins_def getHexMetadataFromIns_def get_md_def hex_node_def strtoll16_hex_gen
      getFuncLastPc_def getLastPc_def terminator_def is_tb_def startswith_def getCurrentPCOfIns_def)

lemma tb_cut: "\<exists>a'. truncateFuncAndLinkWith tb_long tb_short = Inr a'"
  unfolding truncateFuncAndLinkWith_def tb_facts(1,2)
  by (simp add: tb_long_def tb_facts(7) terminator_def) (simp add: tb_ins_def)

theorem truncate_is_cut_witness:
  "\<exists>a'. truncateFuncAndLinkWith tb_long tb_short = Inr a' \<and> cut_at 4 tb_long a'"
proof -
  obtain a' where a': "truncateFuncAndLinkWith tb_long tb_short = Inr a'" using tb_cut by blast
  with truncate_is_cut [OF a'] tb_facts(2) show ?thesis by auto
qed

lemma tb_module_runs: "\<exists>M'. fix_overlapped_bbs [tb_long, tb_short] = Inr (M', True)"
proof -
  obtain a' where a': "truncateFuncAndLinkWith tb_long tb_short = Inr a'" using tb_cut by blast
  have ids: "fid tb_long = 1" "fid tb_short = 2" by (simp_all add: tb_long_def tb_short_def)
  have key: "start_key tb_long = 0" "start_key tb_short = 4" by (simp_all add: start_key_def tb_facts)
  have "trunc_pair (tb_long, tb_short) [tb_long, tb_short] = Inr [a', tb_short]"
    by (simp add: trunc_pair_def ids a')
  then show ?thesis
    by (simp add: fix_overlapped_bbs_def add_ending_def tb_facts sort_funcs_def key Let_def)
qed

lemma tb_module_distinct: "distinct (map fid [tb_long, tb_short])"
  by (simp add: tb_long_def tb_short_def)

lemma tb_later: "later_starts [tb_long, tb_short] tb_long = [tb_short]"
  by (simp add: later_starts_def last_pc_def tb_facts start_key_def)

theorem fix_overlapped_partition_witness:
  "\<exists>M' f'. fix_overlapped_bbs [tb_long, tb_short] = Inr (M', True) \<and> (tb_long, f') \<in> set (zip [tb_long, tb_short] M')
     \<and> cut_at 4 tb_long f'"
proof -
  obtain M' where M': "fix_overlapped_bbs [tb_long, tb_short] = Inr (M', True)" using tb_module_runs by blast
  have "start_key tb_short = 4" by (simp add: start_key_def tb_facts)
  with fix_overlapped_partition [OF M' tb_module_distinct, of tb_long] M' show ?thesis
    by (auto simp: tb_later)
qed

theorem fix_overlapped_no_duplicates_witness:
  "\<exists>e. fix_overlapped_bbs [tb_long, tb_long\<lparr>fid := 3\<rparr>] = Inl e"
proof -
  have s: "getPCStartOfFunc (tb_long\<lparr>fid := 3\<rparr>) = getPCStartOfFunc tb_long"
    "last_pc (tb_long\<lparr>fid := 3\<rparr>) = last_pc tb_long" "last_pc tb_long = Some 8"
    "start_key (tb_long\<lparr>fid := 3\<rparr>) = start_key tb_long"
    using tb_facts by (simp_all add: getPCStartOfFunc_def getHexMetadataFromFunc_def entry_block_def
        last_pc_def is_tb_def getFuncLastPc_def start_key_def)
  show ?thesis
    by (rule fix_overlapped_no_duplicates [of _ tb_long "tb_long\<lparr>fid := 3\<rparr>"])
       (use s in \<open>auto simp: tb_long_def\<close>)
qed

end
