(* ===== verification/Value_Subst.thy ===== *)
theory Value_Subst
  imports Pass_Kit
begin

text \<open>
  Replacing the operands of an instruction all at once. \<open>replaceAllUsesWith\<close> is the case of one value, and several of
  them in a row, each putting a constant in, are one substitution.
\<close>

fun map_vals :: "(val \<Rightarrow> val) \<Rightarrow> ikind \<Rightarrow> ikind" where
  "map_vals h (Store v p) = Store (h v) (h p)"
| "map_vals h (Load p) = Load (h p)"
| "map_vals h (Call c xs) = Call (h c) (map h xs)"
| "map_vals h (BinOp oper v w) = BinOp oper (h v) (h w)"
| "map_vals h (IntToPtr v) = IntToPtr (h v)"
| "map_vals h (CastI s v) = CastI s (h v)"
| "map_vals h (Ret v) = Ret (map_option h v)"
| "map_vals h (Br t) = Br t"
| "map_vals h (CondBr v t e) = CondBr (h v) t e"
| "map_vals h (SwitchI v d cs) = SwitchI (h v) d cs"
| "map_vals h Unreachable = Unreachable"
| "map_vals h (OtherIns s vs) = OtherIns s (map h vs)"

lemma subst_kind_map_vals: "subst_kind a b k = map_vals (subst_val a b) k"
  by (cases k) simp_all

lemma map_vals_comp: "map_vals g (map_vals h k) = map_vals (\<lambda>v. g (h v)) k"
  by (cases k) (simp_all add: option.map_comp comp_def)

lemma map_vals_id [simp]: "map_vals (\<lambda>v. v) k = k"
  by (cases k) (simp_all add: option.map_ident)

lemma operands_map_vals: "operands (map_vals h k) = map h (operands k)"
  by (cases k) (auto split: option.split)

text \<open>The constants put in so far, by instruction.\<close>

definition const_env :: "(nat \<rightharpoonup> val) \<Rightarrow> val \<Rightarrow> val" where
  "const_env \<sigma> v = (case v of InsRef n \<Rightarrow> (case \<sigma> n of Some c \<Rightarrow> c | None \<Rightarrow> v) | _ \<Rightarrow> v)"

lemma const_env_empty [simp]: "const_env Map.empty = (\<lambda>v. v)"
  by (simp add: const_env_def fun_eq_iff split: val.split)

lemma const_env_update:
  assumes "\<forall>m. \<sigma> m \<noteq> Some (InsRef n)" and "\<sigma> n = None"
  shows "subst_val (InsRef n) v (const_env \<sigma> x) = const_env (\<sigma>(n \<mapsto> v)) x"
  using assms by (cases x) (auto simp: const_env_def split: option.splits)

lemma rauw_const_env:
  assumes "\<forall>m. \<sigma> m \<noteq> Some (InsRef n)" and "\<sigma> n = None"
  shows "rauw (InsRef n) v (map_ins (\<lambda>i. i\<lparr>ikind := map_vals (const_env \<sigma>) (ikind i)\<rparr>) F)
    = map_ins (\<lambda>i. i\<lparr>ikind := map_vals (const_env (\<sigma>(n \<mapsto> v))) (ikind i)\<rparr>) F"
  by (simp add: rauw_def map_ins_def map_blocks_def comp_def subst_kind_map_vals map_vals_comp const_env_update [OF assms]
      del: subst_val.simps)

text \<open>The constants put in so far, by value.\<close>

definition val_env :: "(val \<rightharpoonup> val) \<Rightarrow> val \<Rightarrow> val" where
  "val_env \<sigma> v = (case \<sigma> v of Some c \<Rightarrow> c | None \<Rightarrow> v)"

lemma val_env_empty [simp]: "val_env Map.empty = (\<lambda>v. v)"
  by (simp add: val_env_def fun_eq_iff)

lemma val_env_update:
  assumes "\<forall>x. \<sigma> x \<noteq> Some v" and "\<sigma> v = None"
  shows "subst_val v c (val_env \<sigma> x) = val_env (\<sigma>(v \<mapsto> c)) x"
  using assms by (auto simp: val_env_def split: option.splits)

lemma rauw_map_ins:
  "rauw a b (map_ins h F) = map_ins (\<lambda>i. (h i)\<lparr>ikind := map_vals (subst_val a b) (ikind (h i))\<rparr>) F"
  by (simp add: rauw_def map_ins_def map_blocks_def comp_def subst_kind_map_vals)

lemma map_ins_comp: "map_ins g (map_ins h F) = map_ins (\<lambda>i. g (h i)) F"
  by (simp add: map_ins_def map_blocks_def comp_def)

lemma find_map_ins: "(\<And>i. iid (h i) = iid i) \<Longrightarrow> find_ins (map_ins h F) n = map_option h (find_ins F n)"
proof -
  assume h: "\<And>i. iid (h i) = iid i"
  have "find (\<lambda>i. iid i = n) (map h js) = map_option h (find (\<lambda>i. iid i = n) js)" for js
    by (induction js) (simp_all add: h)
  then show "find_ins (map_ins h F) n = map_option h (find_ins F n)" by (simp add: find_ins_def)
qed

end
