(* ===== verification/Const_Loads.thy ===== *)
theory Const_Loads
  imports Explore_BBs Value_Subst
begin

unbundle bit_operations_syntax

text \<open>
  \<open>ReplaceConstantLoads\<close> and the \<open>JumpTableInfo\<close> records it consumes: loads from constant addresses
  are replaced by the bytes of a memory image, and a store to \<open>PC\<close> that ends a known jump table gets
  the targets, read from the image, as metadata. The image files and the JSON reader are outside
  the repository's code: a file is its list of bytes, given by a parameter, and the jump tables are a
  list of records.
\<close>

section \<open>MemoryPool\<close>

type_synonym byte = "8 word"

record memory_pool =
  mp_file :: "byte list"
  mp_start :: u64
  mp_end :: u64

definition new_pool :: "(string \<Rightarrow> byte list option) \<Rightarrow> string \<Rightarrow> u64 \<Rightarrow> memory_pool res" where
  "new_pool files path start = (case files path of
      None \<Rightarrow> Inl (AssertFailed ''mp_file.good'')
    | Some bytes \<Rightarrow> Inr \<lparr>mp_file = bytes, mp_start = start, mp_end = start + of_nat (length bytes)\<rparr>)"

definition inside :: "memory_pool \<Rightarrow> u64 \<Rightarrow> bool" where
  "inside mp addr \<longleftrightarrow> mp_start mp \<le> addr \<and> addr < mp_end mp"

definition read_pos :: "memory_pool \<Rightarrow> u64 \<Rightarrow> byte \<Rightarrow> bool \<Rightarrow> nat \<Rightarrow> u64" where
  "read_pos mp addr byteCnt isBigEndian i =
     (if isBigEndian then addr + of_nat i - mp_start mp
      else addr + ucast byteCnt - of_nat i - 1 - mp_start mp)"

text \<open>One turn of the loop: seek, read a byte (a fault past the end of the file), shift it in.\<close>

definition read_step :: "memory_pool \<Rightarrow> u64 \<Rightarrow> byte \<Rightarrow> bool \<Rightarrow> nat \<Rightarrow> u64 \<Rightarrow> u64 res" where
  "read_step mp addr byteCnt isBigEndian i ret =
     (let pos = unat (read_pos mp addr byteCnt isBigEndian i) in
      rbind (require (pos < length (mp_file mp)) (AssertFailed ''mp_file.good'')) (\<lambda>_.
        Inr (push_bit 8 ret OR ucast (mp_file mp ! pos))))"

definition pool_read :: "memory_pool \<Rightarrow> u64 \<Rightarrow> byte \<Rightarrow> bool \<Rightarrow> u64 res" where
  "pool_read mp addr byteCnt isBigEndian =
     rbind (require (inside mp addr) (AssertFailed ''inside(addr)'')) (\<lambda>_.
     rbind (require (byteCnt \<noteq> 0) (AssertFailed ''byteCnt'')) (\<lambda>_.
     rbind (require (byteCnt \<le> 8) (AssertFailed ''byteCnt <= 8'')) (\<lambda>_.
     rbind (require (inside mp (addr + ucast byteCnt - 1)) (AssertFailed ''inside(addr+byteCnt-1)'')) (\<lambda>_.
       rfold (read_step mp addr byteCnt isBigEndian) [0..<unat byteCnt] 0))))"

text \<open>\<open>rfind('@')\<close> and the two \<open>substr\<close>.\<close>

fun split_last :: "char \<Rightarrow> string \<Rightarrow> (string \<times> string) option" where
  "split_last c [] = None"
| "split_last c (x # xs) = (case split_last c xs of
      Some (a, b) \<Rightarrow> Some (x # a, b)
    | None \<Rightarrow> if x = c then Some ([], xs) else None)"

definition getMemoryPool :: "(string \<Rightarrow> byte list option) \<Rightarrow> string \<Rightarrow> memory_pool res" where
  "getMemoryPool files desc = (case split_last CHR ''@'' desc of
      None \<Rightarrow> Inl (AssertFailed ''atPos != npos'')
    | Some (path, addr) \<Rightarrow> new_pool files path (strtoll16 addr))"

text \<open>The first pool that contains the address, in both overloads; \<open>read\<close> takes 8 bits of the size.\<close>

definition getMemoryBytes :: "memory_pool list \<Rightarrow> u64 \<Rightarrow> u64 \<Rightarrow> bool \<Rightarrow> u64 res" where
  "getMemoryBytes pools address sz isBigEndian = (case find (\<lambda>mp. inside mp address) pools of
      None \<Rightarrow> Inr 0xdeadbeef
    | Some mp \<Rightarrow> pool_read mp address (ucast sz) isBigEndian)"

definition getMemoryValue :: "memory_pool list \<Rightarrow> u64 \<Rightarrow> nat \<Rightarrow> bool \<Rightarrow> val option res" where
  "getMemoryValue pools address width isBigEndian = (case find (\<lambda>mp. inside mp address) pools of
      None \<Rightarrow> Inr None
    | Some mp \<Rightarrow> rbind (pool_read mp address (of_nat (width div 8)) isBigEndian) (\<lambda>value.
        Inr (Some (ConstInt width (take_bit width value)))))"

section \<open>JumpTableInfo\<close>

record jump_table_info =
  jt_bb_start :: u64
  jt_bb_end :: u64
  indirect_jmp_pc :: u64
  default_case_pc :: u64
  base_table :: u64
  idx_start :: u64
  idx_stop :: u64

definition jump_table_map :: "jump_table_info list \<Rightarrow> (u64 \<rightharpoonup> jump_table_info)" where
  "jump_table_map infos = fold (\<lambda>info m. m(indirect_jmp_pc info \<mapsto> info)) infos Map.empty"

record pools_state =
  memory_pools :: "memory_pool list"
  jump_tables :: "u64 \<rightharpoonup> jump_table_info"

text \<open>\<open>initialize\<close>: one pool per \<open>-memory\<close> option, and the tables of the \<open>-jump-table-info\<close> file.\<close>

definition initialize_loads :: "(string \<Rightarrow> byte list option) \<Rightarrow> string list \<Rightarrow> jump_table_info list \<Rightarrow> pools_state res" where
  "initialize_loads files descriptors infos =
     rbind (rmap (getMemoryPool files) descriptors) (\<lambda>pools.
       Inr \<lparr>memory_pools = pools, jump_tables = jump_table_map infos\<rparr>)"

section \<open>runOnFunction\<close>

definition load_width :: "string \<Rightarrow> nat option" where
  "load_width nm = (if nm = ''__ldl_mmu'' then Some 32
     else if nm = ''__lds_mmu'' then Some 16
     else if nm = ''__ldb_mmu'' then Some 8 else None)"

text \<open>
  One instruction of the first loop. The function is rewritten while it is walked, so the current form
  of the instruction is looked up: a load whose address was itself just loaded is seen as constant.
\<close>

definition load_call :: "ikind \<Rightarrow> (val \<times> u64) option" where
  "load_call k = (case k of
      Call callee args \<Rightarrow> if length args \<noteq> 2 then None
        else (case const_int (args ! 0) of None \<Rightarrow> None | Some address \<Rightarrow> Some (callee, address))
    | _ \<Rightarrow> None)"

definition replace_load :: "memory_pool list \<Rightarrow> bool \<Rightarrow> nat \<Rightarrow> func \<times> nat list \<Rightarrow> (func \<times> nat list) res" where
  "replace_load pools isBigEndian n st = (case st of (F, eraseIns) \<Rightarrow>
     (case Option.bind (map_option ikind (find_ins F n)) load_call of
        None \<Rightarrow> Inr st
      | Some (callee, address) \<Rightarrow> (case callee of
          FuncRef nm \<Rightarrow> (case load_width nm of
              None \<Rightarrow> Inr st
            | Some w \<Rightarrow> rbind (getMemoryValue pools address w isBigEndian) (\<lambda>value.
                (case value of
                   None \<Rightarrow> Inr st
                 | Some v \<Rightarrow> Inr (rauw (InsRef n) v F, eraseIns @ [n]))))
        | _ \<Rightarrow> Inl (NullDeref ''getCalledFunction''))))"

text \<open>\<open>int cnt_entries = 1+info->idx_stop-info->idx_start\<close>: the low 32 bits, read as signed.\<close>

definition entry_count :: "jump_table_info \<Rightarrow> int" where
  "entry_count info = sint (ucast (1 + idx_stop info - idx_start info) :: 32 word)"

definition table_entries :: "memory_pool list \<Rightarrow> bool \<Rightarrow> jump_table_info \<Rightarrow> u64 list res" where
  "table_entries pools isBigEndian info =
     rmap (\<lambda>i. getMemoryBytes pools (base_table info + 4 * of_nat i) 4 isBigEndian)
       [0..<nat (entry_count info)]"

definition annotate_table :: "memory_pool list \<Rightarrow> bool \<Rightarrow> jump_table_info \<Rightarrow> instr \<Rightarrow> instr res" where
  "annotate_table pools isBigEndian info i =
     rbind (require (1 \<le> entry_count info) (AssertFailed ''cnt_entries >= 1'')) (\<lambda>_.
     rbind (table_entries pools isBigEndian info) (\<lambda>loadedPCs.
       let i1 = set_md i ''INS_switch_cnt'' (hex_node (of_int (entry_count info)));
           i2 = set_md i1 ''INS_switch_default'' (hex_node (default_case_pc info));
           i3 = set_md i2 ''INS_switch_idx_start'' (hex_node (idx_start info)) in
       Inr (write_cases loadedPCs i3)))"

definition annotate_ins :: "pools_state \<Rightarrow> bool \<Rightarrow> instr \<Rightarrow> instr res" where
  "annotate_ins ps isBigEndian i =
     (if store_to ''PC'' i = None \<or> \<not> has_md i ''INS_currPC'' then Inr i
      else rbind (getHexMetadataFromIns i ''INS_currPC'') (\<lambda>currPC.
        (case jump_tables ps currPC of
           None \<Rightarrow> Inr i
         | Some info \<Rightarrow> annotate_table (memory_pools ps) isBigEndian info i)))"

definition annotate_func :: "pools_state \<Rightarrow> bool \<Rightarrow> func \<Rightarrow> func res" where
  "annotate_func ps isBigEndian F =
     rbind (rmap (\<lambda>b. rbind (rmap (annotate_ins ps isBigEndian) (bins b)) (\<lambda>is. Inr (b\<lparr>bins := is\<rparr>)))
       (fblocks F)) (\<lambda>bs. Inr (F\<lparr>fblocks := bs\<rparr>))"

definition replace_constant_loads :: "pools_state \<Rightarrow> bool \<Rightarrow> func \<Rightarrow> (func \<times> bool) res" where
  "replace_constant_loads ps isBigEndian F =
     rbind (rfold (replace_load (memory_pools ps) isBigEndian) (ins_ids F) (F, [])) (\<lambda>(F1, eraseIns).
     rbind (annotate_func ps isBigEndian F1) (\<lambda>F2.
     rbind (erase_all eraseIns F2) (\<lambda>F3. Inr (F3, eraseIns \<noteq> []))))"

section \<open>The value of a read\<close>

text \<open>The number a list of bytes denotes, most significant first.\<close>

definition be_value :: "byte list \<Rightarrow> nat" where
  "be_value bs = foldl (\<lambda>a b. 256 * a + unat b) 0 bs"

text \<open>A pool that does not wrap: what a file of a real size mapped below the top of memory is.\<close>

definition pool_ok :: "memory_pool \<Rightarrow> bool" where
  "pool_ok mp \<longleftrightarrow> mp_end mp = mp_start mp + of_nat (length (mp_file mp))
     \<and> unat (mp_start mp) + length (mp_file mp) < 2 ^ 64 \<and> length (mp_file mp) < 2 ^ 63"

definition pool_slice :: "memory_pool \<Rightarrow> u64 \<Rightarrow> byte \<Rightarrow> byte list" where
  "pool_slice mp addr byteCnt = take (unat byteCnt) (drop (unat addr - unat (mp_start mp)) (mp_file mp))"

lemma be_value_snoc [simp]: "be_value (bs @ [b]) = 256 * be_value bs + unat b"
  by (simp add: be_value_def)

lemma be_value_Nil [simp]: "be_value [] = 0"
  by (simp add: be_value_def)

lemma be_value_bound: "be_value bs < 256 ^ length bs"
proof (induction bs rule: rev_induct)
  case Nil
  show ?case by simp
next
  case (snoc b bs)
  have "unat b < 256" using unsigned_less [of b] by simp
  moreover have "256 * be_value bs + 256 \<le> 256 * 256 ^ length bs"
    using snoc by simp
  ultimately show ?case by simp
qed

lemma shift_in: "push_bit 8 r OR ucast (b :: byte) = (256 * r + ucast b :: u64)"
proof -
  have "push_bit 8 r OR ucast b = push_bit 8 r + (ucast b :: u64)"
    by (rule disjunctive_add [symmetric]) (auto simp: bit_simps dest: bit_imp_le_length)
  then show ?thesis by (simp add: push_bit_eq_mult mult.commute)
qed

lemma unat_le_iff: "(x :: u64) \<le> y \<longleftrightarrow> unat x \<le> unat y"
  by (simp add: word_le_nat_alt)

lemma inside_bounds:
  assumes "pool_ok mp"
  shows "inside mp a \<longleftrightarrow> unat (mp_start mp) \<le> unat a \<and> unat a < unat (mp_start mp) + length (mp_file mp)"
proof -
  have "unat (mp_end mp) = unat (mp_start mp) + length (mp_file mp)"
    using assms by (simp add: pool_ok_def unat_word_ariths unat_of_nat)
  then show ?thesis by (simp add: inside_def word_le_nat_alt word_less_nat_alt)
qed

lemma read_pos_nat:
  assumes "pool_ok mp" and "inside mp addr" and "unat byteCnt \<le> 8" and "i < unat byteCnt"
    and "unat addr + unat byteCnt \<le> unat (mp_start mp) + length (mp_file mp)"
  shows "unat (read_pos mp addr byteCnt big i) = unat addr - unat (mp_start mp)
     + (if big then i else unat byteCnt - 1 - i)"
proof -
  let ?s = "unat (mp_start mp)" and ?a = "unat addr" and ?c = "unat byteCnt"
  have b: "?s \<le> ?a" "?s + length (mp_file mp) < 2 ^ 64"
    using assms(1,2) by (simp_all add: inside_bounds pool_ok_def)
  define d where "d = ?a - ?s + (if big then i else ?c - 1 - i)"
  have "read_pos mp addr byteCnt big i = of_nat d"
  proof (cases big)
    case True
    have "(of_nat d :: u64) = of_nat ?a - of_nat ?s + of_nat i"
      using True b(1) by (simp add: d_def)
    with True show ?thesis by (simp add: read_pos_def algebra_simps)
  next
    case False
    have "(of_nat d :: u64) = of_nat ?a - of_nat ?s + (of_nat ?c - 1 - of_nat i)"
      using False b(1) assms(4) by (simp add: d_def)
    moreover have "(of_nat ?c :: u64) = ucast byteCnt" by (simp add: unsigned_ucast_eq)
    ultimately show ?thesis using False by (simp add: read_pos_def algebra_simps)
  qed
  moreover have "d < 2 ^ 64" using b assms(4,5) by (auto simp: d_def)
  ultimately show ?thesis by (simp add: d_def [symmetric] unat_of_nat)
qed

lemma read_fold:
  assumes "\<And>i. i < n \<Longrightarrow> unat (read_pos mp addr byteCnt big i) < length (mp_file mp)"
  shows "rfold (read_step mp addr byteCnt big) [0..<n] 0 =
    Inr (of_nat (be_value (map (\<lambda>i. mp_file mp ! unat (read_pos mp addr byteCnt big i)) [0..<n])))"
  using assms
proof (induction n)
  case 0
  show ?case by simp
next
  case (Suc n)
  then show ?case
    by (simp add: rfold_append read_step_def Let_def shift_in)
qed

lemma pool_read_eq:
  assumes ok: "pool_ok mp" and run: "pool_read mp addr byteCnt big = Inr v"
  shows "v = of_nat (be_value ((if big then id else rev) (pool_slice mp addr byteCnt)))
    \<and> length (pool_slice mp addr byteCnt) = unat byteCnt"
proof -
  let ?c = "unat byteCnt" and ?o = "unat addr - unat (mp_start mp)"
  have ins: "inside mp addr" "inside mp (addr + ucast byteCnt - 1)" and c: "byteCnt \<noteq> 0" "byteCnt \<le> 8"
    and fold: "rfold (read_step mp addr byteCnt big) [0..<?c] 0 = Inr v"
    using run by (auto simp: pool_read_def rbind_eq_Inr)
  have c8: "?c \<le> 8" "0 < ?c" using c by (simp_all add: word_le_nat_alt unat_gt_0)
  note b = ins [unfolded inside_bounds [OF ok]]
  have top: "unat (mp_start mp) + length (mp_file mp) < 2 ^ 64" "length (mp_file mp) < 2 ^ 63"
    using ok by (simp_all add: pool_ok_def)
  let ?x = "unat addr + ?c - 1"
  have "addr + ucast byteCnt - 1 = of_nat ?x"
    using c8(2) by (simp add: unsigned_ucast_eq)
  then have last: "unat (addr + ucast byteCnt - 1) = ?x mod 2 ^ 64"
    by (simp add: unat_of_nat)
  have "?x < 2 ^ 64"
  proof (rule ccontr)
    assume w: "\<not> ?x < 2 ^ 64"
    have "unat addr < 2 ^ 64" using b(1) top(1) by simp
    then have "?x - 2 ^ 64 < 2 ^ 64" using c8(1) by simp
    then have "?x mod 2 ^ 64 = ?x - 2 ^ 64" using w by (metis le_mod_geq mod_less not_less)
    then have "?x mod 2 ^ 64 < 8" using c8 \<open>unat addr < 2 ^ 64\<close> by simp
    moreover have "2 ^ 64 \<le> unat addr + 7" using w c8 by simp
    then have "8 \<le> unat (mp_start mp)" using b(1) [THEN conjunct2] top(2) by simp
    ultimately show False using b(2) last by simp
  qed
  then have fits: "unat addr + ?c \<le> unat (mp_start mp) + length (mp_file mp)"
  proof -
    have "?x < unat (mp_start mp) + length (mp_file mp)" using b(2) last \<open>?x < 2 ^ 64\<close> by simp
    then show ?thesis using c8(2) by linarith
  qed
  have pos: "unat (read_pos mp addr byteCnt big i) = ?o + (if big then i else ?c - 1 - i)" if "i < ?c" for i
    using read_pos_nat [OF ok ins(1) c8(1) that fits] .
  have off: "?o + ?c \<le> length (mp_file mp)" using fits b(1) by linarith
  have v: "v = of_nat (be_value (map (\<lambda>i. mp_file mp ! (?o + (if big then i else ?c - 1 - i))) [0..<?c]))"
  proof -
    have "unat (read_pos mp addr byteCnt big i) < length (mp_file mp)" if "i < ?c" for i
      using pos [OF that] off that by auto
    from read_fold [OF this] fold have
      "v = of_nat (be_value (map (\<lambda>i. mp_file mp ! unat (read_pos mp addr byteCnt big i)) [0..<?c]))"
      by simp
    moreover have "map (\<lambda>i. mp_file mp ! unat (read_pos mp addr byteCnt big i)) [0..<?c]
        = map (\<lambda>i. mp_file mp ! (?o + (if big then i else ?c - 1 - i))) [0..<?c]"
      by (rule map_cong [OF refl]) (simp only: set_upt atLeastLessThan_iff pos)
    ultimately show ?thesis by (simp only:)
  qed
  have len: "length (pool_slice mp addr byteCnt) = ?c" using off by (simp add: pool_slice_def)
  have "map (\<lambda>i. mp_file mp ! (?o + (if big then i else ?c - 1 - i))) [0..<?c]
      = (if big then id else rev) (pool_slice mp addr byteCnt)"
    using off len by (intro nth_equalityI) (auto simp: pool_slice_def rev_nth)
  with v len show ?thesis by simp
qed

lemma pool_read_value:
  assumes "pool_ok mp" and "pool_read mp addr byteCnt big = Inr v"
  shows "unat v = be_value ((if big then id else rev) (pool_slice mp addr byteCnt))"
    and "unat v < 256 ^ unat byteCnt"
proof -
  let ?bs = "(if big then id else rev) (pool_slice mp addr byteCnt)"
  note e = pool_read_eq [OF assms]
  have "unat byteCnt \<le> 8"
    using assms(2) by (auto simp: pool_read_def rbind_eq_Inr word_le_nat_alt)
  then have "(256::nat) ^ unat byteCnt \<le> 256 ^ 8" by (rule power_increasing) simp
  moreover have bd: "be_value ?bs < 256 ^ unat byteCnt"
    using be_value_bound [of ?bs] e by (cases big) simp_all
  ultimately have "be_value ?bs < 2 ^ 64" by simp
  then show "unat v = be_value ?bs" using e by (simp add: unat_of_nat)
  with bd show "unat v < 256 ^ unat byteCnt" by simp
qed

section \<open>Pool descriptors\<close>

lemma split_last_none: "c \<notin> set s \<Longrightarrow> split_last c s = None"
  by (induction s) auto

lemma split_last_append: "c \<notin> set t \<Longrightarrow> split_last c (s @ c # t) = Some (s, t)"
  by (induction s) (simp_all add: split_last_none)

lemma hex_no_at: "CHR ''@'' \<notin> set (hex v)"
proof
  assume "CHR ''@'' \<in> set (hex v)"
  then have "CHR ''@'' \<in> set (zero_fill 8 (hex_digits (unat v)))" by (simp add: hex_def)
  then have "hex_value CHR ''@'' \<noteq> None" by (rule zero_fill_valid)
  then show False by (simp add: hex_value.simps)
qed

lemma getMemoryPool_desc:
  "getMemoryPool files (path @ ''@'' @ hex v) =
     new_pool files path (if unat v < 2 ^ 63 then v else 2 ^ 63 - 1)"
  using split_last_append [OF hex_no_at, of path v] by (simp add: getMemoryPool_def strtoll16_hex_gen)

section \<open>The annotations\<close>

lemma entry_count_pos: "1 \<le> entry_count info \<Longrightarrow> unat (of_int (entry_count info) :: u64) = nat (entry_count info)"
proof -
  assume p: "1 \<le> entry_count info"
  have "entry_count info < 2 ^ 31"
    using sint_lt [of "ucast (1 + idx_stop info - idx_start info) :: 32 word"]
    by (simp add: entry_count_def)
  with p show ?thesis by (simp add: unat_eq_nat_uint uint_word_of_int)
qed

lemma entry_count_small: "1 \<le> entry_count info \<Longrightarrow> unat (of_int (entry_count info) :: u64) < 2 ^ 63"
proof -
  assume p: "1 \<le> entry_count info"
  have "entry_count info < 2 ^ 31"
    using sint_lt [of "ucast (1 + idx_stop info - idx_start info) :: 32 word"]
    by (simp add: entry_count_def)
  then show ?thesis unfolding entry_count_pos [OF p] by simp
qed

lemma read_small:
  assumes "\<forall>mp \<in> set pools. pool_ok mp" and "getMemoryBytes pools a 4 big = Inr v"
  shows "unat v < 2 ^ 32"
proof (cases "find (\<lambda>mp. inside mp a) pools")
  case None
  then have "v = 0xdeadbeef" using assms(2) by (simp add: getMemoryBytes_def)
  then show ?thesis by simp
next
  case (Some mp)
  then have "mp \<in> set pools" by (auto simp: find_Some_iff)
  then have "unat v < 256 ^ unat (ucast (4 :: u64) :: byte)"
    using assms Some pool_read_value(2) [of mp a "ucast (4 :: u64)" big v]
    by (simp add: getMemoryBytes_def)
  then show ?thesis by simp
qed

lemma annotate_reads_back:
  assumes "annotate_table pools big info i = Inr i'"
    and "\<forall>mp \<in> set pools. pool_ok mp"
    and "unat (default_case_pc info) < 2 ^ 63" and "unat (idx_start info) < 2 ^ 63"
  obtains pcs where "table_entries pools big info = Inr pcs" and "length pcs = nat (entry_count info)"
    and "getHexMetadataFromIns i' ''INS_switch_cnt'' = Inr (of_int (entry_count info))"
    and "getHexMetadataFromIns i' ''INS_switch_default'' = Inr (default_case_pc info)"
    and "getHexMetadataFromIns i' ''INS_switch_idx_start'' = Inr (idx_start info)"
    and "read_cases i' (nat (entry_count info)) = Inr pcs"
    and "\<And>k. take 10 k \<noteq> ''INS_switch'' \<Longrightarrow> get_md i' k = get_md i k"
proof -
  obtain pcs where p: "1 \<le> entry_count info" "table_entries pools big info = Inr pcs"
    "i' = write_cases pcs (set_md (set_md (set_md i ''INS_switch_cnt'' (hex_node (of_int (entry_count info))))
       ''INS_switch_default'' (hex_node (default_case_pc info))) ''INS_switch_idx_start'' (hex_node (idx_start info)))"
    using assms(1) by (auto simp: annotate_table_def rbind_eq_Inr Let_def)
  have len: "length pcs = nat (entry_count info)"
    using p(2) rmap_length unfolding table_entries_def by fastforce
  have small: "unat pc < 2 ^ 63" if "pc \<in> set pcs" for pc
    using p(2) that rmap_set read_small [OF assms(2)] unfolding table_entries_def by fastforce
  have rd: "getHexMetadataFromIns i' k = Inr v"
    if "get_md i' k = Some (hex_node v)" "unat v < 2 ^ 63" for k v
    using getHex_hex_node [OF that(1)] that(2) by simp
  show thesis
  proof (rule that [OF p(2) len])
    show "getHexMetadataFromIns i' ''INS_switch_cnt'' = Inr (of_int (entry_count info))"
    proof (rule rd)
      show "get_md i' ''INS_switch_cnt'' = Some (hex_node (of_int (entry_count info)))"
        by (simp add: p(3) write_cases_other)
    qed (rule entry_count_small [OF p(1)])
    show "getHexMetadataFromIns i' ''INS_switch_default'' = Inr (default_case_pc info)"
      by (rule rd [OF _ assms(3)]) (simp add: p(3) write_cases_other)
    show "getHexMetadataFromIns i' ''INS_switch_idx_start'' = Inr (idx_start info)"
      by (rule rd [OF _ assms(4)]) (simp add: p(3) write_cases_other)
    show "read_cases i' (nat (entry_count info)) = Inr pcs"
      using read_write_cases [of pcs] small len p(3) by simp
    show "get_md i' k = get_md i k" if "take 10 k \<noteq> ''INS_switch''" for k
    proof -
      have "take 15 k \<noteq> ''INS_switch_case''"
      proof
        assume "take 15 k = ''INS_switch_case''"
        then have "take 10 (take 15 k) = take 10 ''INS_switch_case''" by simp
        with that show False by simp
      qed
      moreover have "k \<noteq> ''INS_switch_cnt''" "k \<noteq> ''INS_switch_default''" "k \<noteq> ''INS_switch_idx_start''"
        using that by auto
      ultimately show ?thesis by (simp add: p(3) write_cases_other)
    qed
  qed
qed

lemma annotate_next_pcs:
  assumes "annotate_table pools big info i = Inr i'"
    and "\<forall>mp \<in> set pools. pool_ok mp"
    and "unat (default_case_pc info) < 2 ^ 63" and "unat (idx_start info) < 2 ^ 63"
    and "\<not> has_md i ''INS_directCall''" "\<not> has_md i ''INS_indirectCall''" "\<not> has_md i ''INS_directJump''"
    and "has_md i ''INS_indirectJump''"
  shows "\<exists>pcs. table_entries pools big info = Inr pcs \<and> next_pcs i' = Inr (pcs @ [default_case_pc info], True)"
proof -
  obtain pcs where p: "table_entries pools big info = Inr pcs"
    "getHexMetadataFromIns i' ''INS_switch_cnt'' = Inr (of_int (entry_count info))"
    "getHexMetadataFromIns i' ''INS_switch_default'' = Inr (default_case_pc info)"
    "read_cases i' (nat (entry_count info)) = Inr pcs"
    and keep: "\<And>k. take 10 k \<noteq> ''INS_switch'' \<Longrightarrow> get_md i' k = get_md i k"
    using annotate_reads_back [OF assms(1-4)] by metis
  have one: "1 \<le> entry_count info" using assms(1) by (auto simp: annotate_table_def rbind_eq_Inr)
  have same: "has_md i' k \<longleftrightarrow> has_md i k" if "take 10 k \<noteq> ''INS_switch''" for k
    using keep [OF that] by (simp add: has_md_def get_md_def)
  have "next_pcs i' = Inr (pcs @ [default_case_pc info], True)"
    unfolding next_pcs_def using assms(5-8) getHex_Inr_has [OF p(2)] p(2-4)
    by (simp add: same entry_count_pos [OF one, simplified])
  with p(1) show ?thesis by blast
qed

section \<open>No dangling reference\<close>

text \<open>Every load that was collected for removal has no use left.\<close>

lemma operands_subst:
  "InsRef m \<in> set (operands (subst_kind (InsRef n) (ConstInt w c) k)) \<longleftrightarrow>
   m \<noteq> n \<and> InsRef m \<in> set (operands k)"
  by (cases k) (auto split: option.split)

lemma unused_rauw: "unused (rauw (InsRef n) (ConstInt w c) F) m \<longleftrightarrow> m = n \<or> unused F m"
  by (auto simp: unused_def rauw_def operands_subst)

lemma replace_load_step:
  assumes "replace_load pools big n (F, es) = Inr (F', es')" and "\<forall>m \<in> set es. unused F m"
  shows "(\<forall>m \<in> set es'. unused F' m) \<and> ins_ids F' = ins_ids F \<and> (es' = es \<or> es' = es @ [n])"
proof (cases "Option.bind (map_option ikind (find_ins F n)) load_call")
  case None
  then show ?thesis using assms by (simp add: replace_load_def)
next
  case (Some r)
  obtain callee address where r: "r = (callee, address)" by (cases r)
  show ?thesis
  proof (cases "(F', es') = (F, es)")
    case True
    then show ?thesis using assms(2) by simp
  next
    case False
    then obtain w v where v: "getMemoryValue pools address w big = Inr (Some v)"
      "F' = rauw (InsRef n) v F" "es' = es @ [n]"
      using assms(1) Some r
      by (auto simp: replace_load_def rbind_eq_Inr split: val.splits option.splits)
    then obtain c where "v = ConstInt w c"
      by (auto simp: getMemoryValue_def rbind_eq_Inr split: option.splits)
    with v assms(2) show ?thesis by (auto simp: unused_rauw)
  qed
qed

lemma replace_loads_fold:
  assumes "rfold (replace_load pools big) ns (F, es) = Inr (F', es')" and "\<forall>m \<in> set es. unused F m"
  shows "(\<forall>m \<in> set es'. unused F' m) \<and> ins_ids F' = ins_ids F \<and> set es' \<subseteq> set es \<union> set ns"
  using assms
proof (induction ns arbitrary: F es)
  case Nil
  then show ?case by simp
next
  case (Cons n ns)
  then obtain F1 es1 where s: "replace_load pools big n (F, es) = Inr (F1, es1)"
    "rfold (replace_load pools big) ns (F1, es1) = Inr (F', es')"
    by (auto simp: rbind_eq_Inr)
  note st = replace_load_step [OF s(1) Cons.prems(2)]
  from Cons.IH [OF s(2)] st show ?case by auto
qed

lemma annotate_func_skeleton:
  assumes "annotate_func ps big F = Inr F'"
  shows "skeleton F' = skeleton F"
proof -
  have one: "iid i' = iid i \<and> ikind i' = ikind i" if "annotate_ins ps big i = Inr i'" for i i'
    using that by (auto simp: annotate_ins_def annotate_table_def rbind_eq_Inr Let_def
        split: if_splits option.splits)
  have ins: "map (\<lambda>i. (iid i, ikind i)) js = map (\<lambda>i. (iid i, ikind i)) is"
    if "rmap (annotate_ins ps big) is = Inr js" for "is" js
    using that by (induction "is" arbitrary: js) (auto simp: rbind_eq_Inr one)
  have "map (\<lambda>b. (bid b, map (\<lambda>i. (iid i, ikind i)) (bins b))) cs = map (\<lambda>b. (bid b, map (\<lambda>i. (iid i, ikind i)) (bins b))) ds"
    if "rmap (\<lambda>b. rbind (rmap (annotate_ins ps big) (bins b)) (\<lambda>is. Inr (b\<lparr>bins := is\<rparr>))) ds = Inr cs" for cs ds :: "bblock list"
    using that by (induction ds arbitrary: cs) (auto simp: rbind_eq_Inr ins)
  with assms show ?thesis by (auto simp: annotate_func_def rbind_eq_Inr skeleton_def)
qed

section \<open>What is replaced\<close>

text \<open>A call of a memory operation at a constant address inside a pool, and the constant it loads.\<close>

definition constant_load :: "memory_pool list \<Rightarrow> bool \<Rightarrow> ikind \<Rightarrow> val option" where
  "constant_load pools big k = (case k of
      Call (FuncRef nm) [ConstInt _ address, _] \<Rightarrow> (case load_width nm of
          None \<Rightarrow> None
        | Some w \<Rightarrow> (case getMemoryValue pools address w big of Inr r \<Rightarrow> r | Inl e \<Rightarrow> None))
    | _ \<Rightarrow> None)"

text \<open>
  Constant propagation through the function in layout order: the constants that the loads so far yield are put into the
  operands of the next instruction before it is looked at.
\<close>

fun load_values :: "memory_pool list \<Rightarrow> bool \<Rightarrow> (nat \<rightharpoonup> val) \<Rightarrow> instr list \<Rightarrow> (nat \<rightharpoonup> val)" where
  "load_values pools big \<sigma> [] = \<sigma>"
| "load_values pools big \<sigma> (i # is) = (case constant_load pools big (map_vals (const_env \<sigma>) (ikind i)) of
     None \<Rightarrow> load_values pools big \<sigma> is
   | Some v \<Rightarrow> load_values pools big (\<sigma>(iid i \<mapsto> v)) is)"

definition put_consts :: "(nat \<rightharpoonup> val) \<Rightarrow> func \<Rightarrow> func" where
  "put_consts \<sigma> F = map_ins (\<lambda>i. i\<lparr>ikind := map_vals (const_env \<sigma>) (ikind i)\<rparr>) F"

definition loaded :: "(nat \<rightharpoonup> val) \<Rightarrow> func \<Rightarrow> bool" where
  "loaded \<sigma> F \<longleftrightarrow> (\<forall>n v. \<sigma> n = Some v \<longrightarrow> (\<exists>i \<in> set (func_ins F). \<exists>nm args w c. iid i = n
     \<and> ikind i = Call (FuncRef nm) args \<and> load_width nm = Some w \<and> v = ConstInt w c))"

lemma constant_load_call:
  assumes "constant_load pools big (map_vals (const_env \<sigma>) k) = Some v" and "\<forall>n v. \<sigma> n = Some v \<longrightarrow> (\<exists>w c. v = ConstInt w c)"
  shows "\<exists>nm args w c. k = Call (FuncRef nm) args \<and> load_width nm = Some w \<and> v = ConstInt w c"
proof -
  obtain nm w' a x w where k: "map_vals (const_env \<sigma>) k = Call (FuncRef nm) [ConstInt w' a, x]"
    and v: "load_width nm = Some w" "getMemoryValue pools a w big = Inr (Some v)"
    using assms(1) by (auto simp: constant_load_def split: ikind.splits val.splits list.splits option.splits sum.splits)
  obtain c args where c: "k = Call c args" "const_env \<sigma> c = FuncRef nm" using k by (cases k) auto
  then have "c = FuncRef nm" using assms(2) by (cases c) (auto simp: const_env_def split: option.splits)
  moreover obtain u where "v = ConstInt w u" using v(2) by (auto simp: getMemoryValue_def rbind_eq_Inr split: option.splits)
  ultimately show ?thesis using c v(1) by blast
qed

lemma replace_load_cases:
  assumes "replace_load pools big n (G, es) = Inr (G', es')" and "map_option ikind (find_ins G n) = Some k"
  shows "(G', es') = (case constant_load pools big k of None \<Rightarrow> (G, es) | Some v \<Rightarrow> (rauw (InsRef n) v G, es @ [n]))"
proof (cases "load_call k")
  case None
  then have "constant_load pools big k = None"
    by (auto simp: load_call_def constant_load_def split: ikind.splits val.splits list.splits option.splits)
  then show ?thesis using assms None by (simp add: replace_load_def)
next
  case (Some r)
  then obtain c w a x where k: "k = Call c [ConstInt w a, x]" "r = (c, a)"
    by (auto simp: load_call_def length_Suc_conv numeral_2_eq_2 elim: const_int.elims
        split: ikind.splits option.splits if_splits)
  then show ?thesis using assms Some
    by (cases c) (auto simp: replace_load_def constant_load_def rbind_eq_Inr split: option.splits)
qed

lemma find_put_consts: "find_ins (put_consts \<sigma> F) n = map_option (\<lambda>i. i\<lparr>ikind := map_vals (const_env \<sigma>) (ikind i)\<rparr>) (find_ins F n)"
  unfolding put_consts_def by (rule find_map_ins) simp

lemma replace_loads:
  assumes "rfold (replace_load pools big) (map iid is) (put_consts \<sigma> F, es) = Inr (F1, es1)" and "wf_func F"
    and "set is \<subseteq> set (func_ins F)" and "distinct (map iid is)" and "dom \<sigma> \<inter> iid ` set is = {}"
    and "loaded \<sigma> F" and "set es = dom \<sigma>"
  shows "F1 = put_consts (load_values pools big \<sigma> is) F \<and> set es1 = dom (load_values pools big \<sigma> is)
    \<and> loaded (load_values pools big \<sigma> is) F"
  using assms
proof (induction "is" arbitrary: \<sigma> es)
  case (Cons i "is")
  let ?k = "map_vals (const_env \<sigma>) (ikind i)"
  obtain F2 es2 where s: "replace_load pools big (iid i) (put_consts \<sigma> F, es) = Inr (F2, es2)"
    "rfold (replace_load pools big) (map iid is) (F2, es2) = Inr (F1, es1)"
    using Cons.prems(1) by (auto simp: rbind_eq_Inr)
  have "find_ins F (iid i) = Some i" using find_ins_unique [OF Cons.prems(2)] Cons.prems(3) by simp
  then have "map_option ikind (find_ins (put_consts \<sigma> F) (iid i)) = Some ?k" by (simp add: find_put_consts)
  note step = replace_load_cases [OF s(1) this]
  have sub: "set is \<subseteq> set (func_ins F)" "distinct (map iid is)" using Cons.prems(3,4) by auto
  show ?case
  proof (cases "constant_load pools big ?k")
    case None
    have "F2 = put_consts \<sigma> F" "es2 = es" using step None by simp_all
    with Cons.IH [OF _ Cons.prems(2) sub _ Cons.prems(6,7)] s(2) Cons.prems(5) None show ?thesis by auto
  next
    case (Some v)
    have cst: "\<forall>n v. \<sigma> n = Some v \<longrightarrow> (\<exists>w c. v = ConstInt w c)" using Cons.prems(6) unfolding loaded_def by blast
    obtain nm args w c where i: "ikind i = Call (FuncRef nm) args" "load_width nm = Some w" "v = ConstInt w c"
      using constant_load_call [OF Some cst] by blast
    have new: "\<sigma> (iid i) = None" using Cons.prems(5) by auto
    have "\<forall>m. \<sigma> m \<noteq> Some (InsRef (iid i))" using cst by auto
    then have F2: "F2 = put_consts (\<sigma>(iid i \<mapsto> v)) F"
      using step Some rauw_const_env [of \<sigma> "iid i" v F] new by (simp add: put_consts_def)
    have ld: "loaded (\<sigma>(iid i \<mapsto> v)) F" using Cons.prems(3,6) i by (auto simp: loaded_def)
    have st: "set es2 = dom (\<sigma>(iid i \<mapsto> v))" using step Some Cons.prems(7) by auto
    have dm: "dom (\<sigma>(iid i \<mapsto> v)) \<inter> iid ` set is = {}" using Cons.prems(4,5) by auto
    show ?thesis using Cons.IH [OF s(2) [unfolded F2] Cons.prems(2) sub dm ld st] Some by (simp del: fun_upd_apply)
  qed
qed simp

lemma skeleton_drop: "skeleton F = skeleton G \<Longrightarrow> skeleton (drop_ids X F) = skeleton (drop_ids X G)"
proof -
  assume s: "skeleton F = skeleton G"
  have "skeleton (drop_ids X H) = map (\<lambda>(b, is). (b, filter (\<lambda>(n, k). n \<notin> X) is)) (skeleton H)" for H
    by (simp add: skeleton_def drop_ids_def map_blocks_def filter_map comp_def)
  with s show ?thesis by simp
qed

lemma replaced_loads:
  assumes "replace_constant_loads ps big F = Inr (F', changed)" and "wf_func F"
    and \<sigma>: "\<sigma> = load_values (memory_pools ps) big Map.empty (func_ins F)"
  shows "skeleton F' = skeleton (drop_ids (dom \<sigma>) (put_consts \<sigma> F))" and "loaded \<sigma> F" and "changed \<longleftrightarrow> dom \<sigma> \<noteq> {}"
    and "\<forall>n \<in> dom \<sigma>. unused F' n"
proof -
  obtain F1 es F2 where f: "rfold (replace_load (memory_pools ps) big) (ins_ids F) (F, []) = Inr (F1, es)"
    and a: "annotate_func ps big F1 = Inr F2" and e: "erase_all es F2 = Inr F'" and ch: "changed = (es \<noteq> [])"
    using assms(1) by (auto simp: replace_constant_loads_def rbind_eq_Inr)
  have "put_consts Map.empty F = F" by (simp add: put_consts_def map_ins_def map_blocks_def)
  then have r: "F1 = put_consts \<sigma> F" "set es = dom \<sigma>" "loaded \<sigma> F"
    using replace_loads [of "memory_pools ps" big "func_ins F" Map.empty F "[]" F1 es] f assms(2)
    by (simp_all add: \<sigma> ins_ids_def wf_func_def loaded_def)
  show "loaded \<sigma> F" by (rule r(3))
  show "skeleton F' = skeleton (drop_ids (dom \<sigma>) (put_consts \<sigma> F))"
    using erase_all_Inr [OF e] skeleton_drop [OF annotate_func_skeleton [OF a]] r by simp
  show "changed \<longleftrightarrow> dom \<sigma> \<noteq> {}" unfolding ch r(2) [symmetric] by simp
  have un: "unused G n \<longleftrightarrow> (\<forall>(m, k) \<in> set (map (\<lambda>i. (iid i, ikind i)) (func_ins G)). InsRef n \<notin> set (operands k))" for G n
    by (auto simp: unused_def)
  have "\<forall>n \<in> dom \<sigma>. unused F2 n"
    using replace_loads_fold [OF f] r(2) unfolding un skeleton_func_ins [OF annotate_func_skeleton [OF a]] by simp
  then show "\<forall>n \<in> dom \<sigma>. unused F' n" using erase_all_Inr [OF e] by (auto simp: unused_def)
qed

section \<open>Properties\<close>

text \<open>
  A read of a memory pool returns the bytes of the file at the address as one number, most
  significant first when big endian and least significant first otherwise, however the pool lies in
  memory; the value fits in the bytes asked for.
\<close>

theorem pool_read_correct:
  assumes "pool_ok mp" and "pool_read mp addr byteCnt big = Inr v"
  shows "length (pool_slice mp addr byteCnt) = unat byteCnt \<and>
    unat v = be_value ((if big then id else rev) (pool_slice mp addr byteCnt)) \<and>
    unat v < 256 ^ unat byteCnt"
  using pool_read_eq [OF assms] pool_read_value [OF assms] by blast

definition demo_pool :: memory_pool where
  "demo_pool = \<lparr>mp_file = [0x78, 0x56, 0x34, 0x12, 0xff], mp_start = 0x1000, mp_end = 0x1005\<rparr>"

lemma demo_pool_ok: "pool_ok demo_pool"
  by (simp add: pool_ok_def demo_pool_def)

theorem pool_read_correct_witness:
  "unat (0x12345678 :: u64) = be_value (rev (pool_slice demo_pool 0x1000 4))"
proof -
  have "pool_read demo_pool 0x1000 4 False = Inr 0x12345678"
    by code_simp
  from pool_read_correct [OF demo_pool_ok this] show ?thesis by simp
qed

text \<open>
  A memory descriptor, a path and a hexadecimal address joined by the last \<open>@\<close>, opens the pool
  of that path at that address; an address of \<open>2 ^ 63\<close> or more is clamped by the parser.
\<close>

theorem getMemoryPool_descriptor:
  "getMemoryPool files (path @ ''@'' @ hex v) =
     new_pool files path (if unat v < 2 ^ 63 then v else 2 ^ 63 - 1)"
  by (rule getMemoryPool_desc)

text \<open>
  C16. The jump table written as metadata is the one function recovery follows: after the annotation of
  an indirect jump the successors read back are the entries of the table in the image, in order, and
  then the default target.
\<close>

theorem annotate_table_followed:
  assumes "annotate_table pools big info i = Inr i'"
    and "\<forall>mp \<in> set pools. pool_ok mp"
    and "unat (default_case_pc info) < 2 ^ 63" and "unat (idx_start info) < 2 ^ 63"
    and "\<not> has_md i ''INS_directCall''" "\<not> has_md i ''INS_indirectCall''" "\<not> has_md i ''INS_directJump''"
    and "has_md i ''INS_indirectJump''"
  shows "\<exists>pcs. table_entries pools big info = Inr pcs \<and> next_pcs i' = Inr (pcs @ [default_case_pc info], True)"
  by (rule annotate_next_pcs [OF assms])

definition demo_table :: jump_table_info where
  "demo_table = \<lparr>jt_bb_start = 0x100, jt_bb_end = 0x10c, indirect_jmp_pc = 0x10a, default_case_pc = 0x200,
     base_table = 0x1000, idx_start = 0, idx_stop = 0\<rparr>"

definition demo_jump :: instr where
  "demo_jump = set_md (mk_ins 1 (Store (InsRef 0) (GlobalVar ''PC''))) ''INS_indirectJump'' []"

theorem annotate_table_followed_witness:
  "\<exists>i' pcs. annotate_table [demo_pool] False demo_table demo_jump = Inr i' \<and>
     next_pcs i' = Inr (pcs @ [0x200], True)"
proof -
  have c: "entry_count demo_table = 1" by code_simp
  have "table_entries [demo_pool] False demo_table = Inr [0x12345678]"
    by code_simp
  then obtain i' where i': "annotate_table [demo_pool] False demo_table demo_jump = Inr i'"
    by (simp add: annotate_table_def c Let_def)
  have "\<exists>pcs. table_entries [demo_pool] False demo_table = Inr pcs \<and>
      next_pcs i' = Inr (pcs @ [default_case_pc demo_table], True)"
    by (rule annotate_table_followed [OF i'])
       (simp_all add: demo_pool_ok demo_table_def demo_jump_def has_md_def)
  with i' show ?thesis by (auto simp: demo_table_def)
qed

text \<open>
  C17. \<open>ReplaceConstantLoads\<close> is constant propagation through the loads: it removes exactly the calls of memory
  operations whose address is a constant inside a pool, by itself or once the loads before it are replaced, and puts the
  constant loaded in place of every use. Every other instruction stays where it was, changed in those operands only; no
  use of a removed call is left, and a change is reported exactly when one was removed.
\<close>

theorem replace_constant_loads_no_dangling:
  assumes "replace_constant_loads ps big F = Inr (F', changed)" and "wf_func F"
  shows "let \<sigma> = load_values (memory_pools ps) big Map.empty (func_ins F) in
    skeleton F' = skeleton (drop_ids (dom \<sigma>) (put_consts \<sigma> F)) \<and> loaded \<sigma> F
    \<and> (\<forall>n \<in> dom \<sigma>. unused F' n) \<and> (changed \<longleftrightarrow> dom \<sigma> \<noteq> {})"
  unfolding Let_def using replaced_loads [OF assms refl] by blast

text \<open>A load whose address is the constant another one loads, and a load outside the pool.\<close>

definition chain_pool :: memory_pool where
  "chain_pool = \<lparr>mp_file = [0x04, 0x10, 0x00, 0x00, 0x2a, 0x00, 0x00, 0x00], mp_start = 0x1000, mp_end = 0x1008\<rparr>"

definition demo_loads :: func where
  "demo_loads = \<lparr>fid = 0, fname = ''tb'', fblocks = [\<lparr>bid = 0, bname = ''entry'', bins =
     [mk_ins 1 (Call (FuncRef ''__ldl_mmu'') [ConstInt 32 0x1000, ConstInt 32 0]),
      mk_ins 2 (Call (FuncRef ''__ldb_mmu'') [InsRef 1, ConstInt 32 0]),
      mk_ins 3 (Call (FuncRef ''__ldl_mmu'') [ConstInt 32 0x2000, ConstInt 32 0]),
      mk_ins 4 (Store (InsRef 2) (GlobalVar ''R0'')),
      mk_ins 5 (Ret None)]\<rparr>]\<rparr>"

lemma demo_load_values: "getMemoryValue [chain_pool] 0x1000 32 False = Inr (Some (ConstInt 32 0x1004))"
  "getMemoryValue [chain_pool] 0x1004 8 False = Inr (Some (ConstInt 8 0x2a))"
  "getMemoryValue [chain_pool] 0x2000 32 False = Inr None"
  by code_simp+

lemma demo_loads_run: "\<exists>F'. replace_constant_loads \<lparr>memory_pools = [chain_pool], jump_tables = Map.empty\<rparr> False demo_loads = Inr (F', True)"
  by (simp add: replace_constant_loads_def demo_loads_def demo_load_values replace_load_def load_call_def load_width_def
      find_ins_def ins_ids_def func_ins_def annotate_func_def annotate_ins_def store_to_def mk_ins_def
      rauw_def map_ins_def map_blocks_def erase_all_def erase_from_parent_def drop_ids_def)

theorem replace_constant_loads_no_dangling_witness:
  "\<exists>F'. replace_constant_loads \<lparr>memory_pools = [chain_pool], jump_tables = Map.empty\<rparr> False demo_loads = Inr (F', True)
    \<and> map (\<lambda>i. (iid i, ikind i)) (func_ins F') = [(3, Call (FuncRef ''__ldl_mmu'') [ConstInt 32 0x2000, ConstInt 32 0]),
        (4, Store (ConstInt 8 0x2a) (GlobalVar ''R0'')), (5, Ret None)]"
proof -
  let ?ps = "\<lparr>memory_pools = [chain_pool], jump_tables = Map.empty\<rparr>" and ?\<sigma> = "[1 \<mapsto> ConstInt 32 0x1004, 2 \<mapsto> ConstInt 8 0x2a]"
  obtain F' where r: "replace_constant_loads ?ps False demo_loads = Inr (F', True)" using demo_loads_run by blast
  have "wf_func demo_loads" by (simp add: wf_func_def demo_loads_def ins_ids_def func_ins_def)
  moreover have "load_values (memory_pools ?ps) False Map.empty (func_ins demo_loads) = ?\<sigma>"
    by (simp add: demo_loads_def func_ins_def constant_load_def const_env_def load_width_def demo_load_values)
  ultimately have "skeleton F' = skeleton (drop_ids (dom ?\<sigma>) (put_consts ?\<sigma> demo_loads))"
    using replace_constant_loads_no_dangling [OF r] by (simp add: Let_def)
  from skeleton_func_ins [OF this] r show ?thesis
    by (simp add: demo_loads_def put_consts_def func_ins_def map_ins_def map_blocks_def drop_ids_def const_env_def)
qed

end
