(* ===== verification/Extract_Targets.thy ===== *)
theory Extract_Targets
  imports Pass_Kit
begin

unbundle bit_operations_syntax

text \<open>
  What the disassembler reads off one translated block: \<open>ExtractPossibleTargetsPass\<close> (before the
  registers get names: a register is an offset into the CPU state) and \<open>ARMGetThumbBit\<close> (after).
  Both look at the last constant stored in each returning LLVM block. The ARM build is modelled.
  The name of a value (\<open>Value::getName\<close>) is a parameter of the first pass.
\<close>

section \<open>Stores to a register of the CPU state\<close>

definition pc_offset :: u32 where
  "pc_offset = 0xc0"

definition lr_offset :: u32 where
  "lr_offset = 0xbc"

text \<open>\<open>unsigned int envOffset = idx->getSExtValue()\<close>.\<close>

definition env_offset :: "nat \<Rightarrow> u64 \<Rightarrow> u32" where
  "env_offset w c = ucast (signed_take_bit (w - 1) c)"

text \<open>
  The chain of casts: the pointer is an \<open>inttoptr\<close> of an instruction whose first operand is named
  \<open>env_v...\<close>; \<open>getOperand\<close> past the last operand is an assertion of LLVM.
\<close>

definition env_store :: "(val \<Rightarrow> string) \<Rightarrow> u32 \<Rightarrow> func \<Rightarrow> val \<Rightarrow> val \<Rightarrow> u64 option res" where
  "env_store getName off F v ptr = (case def_of F ptr of
     Some (IntToPtr (InsRef m)) \<Rightarrow> (case find_ins F m of
         None \<Rightarrow> Inr None
       | Some add \<Rightarrow> (case operands (ikind add) of
           [] \<Rightarrow> Inl (AssertFailed ''getOperand(0)'')
         | a # rest \<Rightarrow>
             if \<not> startswith (getName a) ''env_v'' then Inr None
             else (case rest of
                 [] \<Rightarrow> Inl (AssertFailed ''getOperand(1)'')
               | ConstInt w c # _ \<Rightarrow> if env_offset w c \<noteq> off then Inr None else Inr (const_int v)
               | _ # _ \<Rightarrow> Inr None)))
   | _ \<Rightarrow> Inr None)"

definition isStoreToPC :: "(val \<Rightarrow> string) \<Rightarrow> func \<Rightarrow> val \<Rightarrow> val \<Rightarrow> u64 option res" where
  "isStoreToPC getName F v ptr = env_store getName pc_offset F v ptr"

definition isStoreToLR :: "(val \<Rightarrow> string) \<Rightarrow> func \<Rightarrow> val \<Rightarrow> val \<Rightarrow> u64 option res" where
  "isStoreToLR getName F v ptr = env_store getName lr_offset F v ptr"

section \<open>ExtractPossibleTargetsPass\<close>

text \<open>\<open>implicitTarget\<close> is \<open>hasImplicit\<close> with \<open>implicitTargetPC\<close>.\<close>

record targets =
  targetPCs :: "u64 list"
  implicitTarget :: "u64 option"

definition reset_targets :: targets where
  "reset_targets = \<lparr>targetPCs = [], implicitTarget = None\<rparr>"

text \<open>One instruction: \<open>gotConstStoreToPC\<close> with \<open>lastStoreToPCValue\<close>, and the same for \<open>LR\<close>.\<close>

definition last_stores_ins :: "(val \<Rightarrow> string) \<Rightarrow> func \<Rightarrow> instr \<Rightarrow> u64 option \<times> u64 option
    \<Rightarrow> (u64 option \<times> u64 option) res" where
  "last_stores_ins getName F i st = (case ikind i of
     Store v ptr \<Rightarrow>
       rbind (isStoreToPC getName F v ptr) (\<lambda>constStoreToPC.
       rbind (isStoreToLR getName F v ptr) (\<lambda>constStoreToLR.
         Inr (case constStoreToPC of Some c \<Rightarrow> Some c | None \<Rightarrow> fst st,
              case constStoreToLR of Some c \<Rightarrow> Some c | None \<Rightarrow> snd st)))
   | _ \<Rightarrow> Inr st)"

definition extract_block :: "(val \<Rightarrow> string) \<Rightarrow> func \<Rightarrow> bblock \<Rightarrow> targets \<Rightarrow> targets res" where
  "extract_block getName F ibb s =
     rbind (is_exit ibb) (\<lambda>returning.
     if \<not> returning then Inr s
     else rbind (rfold (last_stores_ins getName F) (bins ibb) (None, None)) (\<lambda>(pc, lr).
       let s1 = (case pc of None \<Rightarrow> s | Some c \<Rightarrow> s\<lparr>targetPCs := targetPCs s @ [c]\<rparr>) in
       (case lr of
          None \<Rightarrow> Inr s1
        | Some c \<Rightarrow> rbind (require (implicitTarget s1 = None) (AssertFailed ''!hasImplicit'')) (\<lambda>_.
            Inr \<lparr>targetPCs = targetPCs s1 @ [c], implicitTarget = Some c\<rparr>))))"

definition extract_possible_targets :: "(val \<Rightarrow> string) \<Rightarrow> func \<Rightarrow> targets res" where
  "extract_possible_targets getName F = rfold (extract_block getName F) (fblocks F) reset_targets"

section \<open>ARMGetThumbBit\<close>

datatype thumb_bit_t = THUMB_BIT_UNDEFINED | THUMB_BIT_SET | THUMB_BIT_UNSET

definition thumb_step :: "instr \<Rightarrow> thumb_bit_t option \<Rightarrow> thumb_bit_t option" where
  "thumb_step i got = (case store_to ''thumb'' i of
     None \<Rightarrow> got
   | Some v \<Rightarrow> (case const_int v of
       None \<Rightarrow> got
     | Some c \<Rightarrow> Some (if c = 1 then THUMB_BIT_SET else THUMB_BIT_UNSET)))"

definition thumb_block :: "bblock \<Rightarrow> thumb_bit_t list \<Rightarrow> thumb_bit_t list res" where
  "thumb_block ibb thumbBits =
     rbind (is_exit ibb) (\<lambda>returning.
     if \<not> returning then Inr thumbBits
     else (case fold thumb_step (bins ibb) None of
        None \<Rightarrow> Inr thumbBits
      | Some t \<Rightarrow> Inr (thumbBits @ [t])))"

text \<open>The aggregate is the first value; a disagreement is only reported.\<close>

definition getThumbBit :: "func \<Rightarrow> thumb_bit_t res" where
  "getThumbBit F = rbind (rfold thumb_block (fblocks F) []) (\<lambda>thumbBits.
     Inr (case thumbBits of [] \<Rightarrow> THUMB_BIT_UNDEFINED | t # _ \<Rightarrow> t))"

section \<open>The last store of a block\<close>

text \<open>The constants a block stores into a register, in order.\<close>

definition const_stores :: "(val \<Rightarrow> string) \<Rightarrow> u32 \<Rightarrow> func \<Rightarrow> bblock \<Rightarrow> u64 list" where
  "const_stores getName off F b = List.map_filter (\<lambda>i. case ikind i of
     Store v ptr \<Rightarrow> (case env_store getName off F v ptr of Inl e \<Rightarrow> None | Inr r \<Rightarrow> r)
   | _ \<Rightarrow> None) (bins b)"

definition last_of :: "'a list \<Rightarrow> 'a option" where
  "last_of xs = (if xs = [] then None else Some (last xs))"

lemma last_of_simps [simp]: "last_of [] = None" "last_of (xs @ [x]) = Some x"
  by (simp_all add: last_of_def)

lemma last_of_append: "last_of (xs @ ys) = (case last_of ys of None \<Rightarrow> last_of xs | Some y \<Rightarrow> Some y)"
  by (simp add: last_of_def)

lemma last_stores_fold:
  assumes "rfold (last_stores_ins getName F) is st = Inr (pc, lr)"
  shows "pc = (case last_of (const_stores getName pc_offset F (b\<lparr>bins := is\<rparr>)) of None \<Rightarrow> fst st | Some c \<Rightarrow> Some c)
    \<and> lr = (case last_of (const_stores getName lr_offset F (b\<lparr>bins := is\<rparr>)) of None \<Rightarrow> snd st | Some c \<Rightarrow> Some c)"
  using assms
proof (induction "is" arbitrary: st)
  case Nil
  then show ?case by (auto simp: const_stores_def map_filter_def)
next
  case (Cons i "is")
  then obtain st' where s: "last_stores_ins getName F i st = Inr st'"
    "rfold (last_stores_ins getName F) is st' = Inr (pc, lr)"
    by (auto simp: rbind_eq_Inr)
  have hd: "const_stores getName off F (b\<lparr>bins := i # is\<rparr>) =
      (case ikind i of Store v ptr \<Rightarrow> (case env_store getName off F v ptr of Inr (Some c) \<Rightarrow> [c] | _ \<Rightarrow> []) | _ \<Rightarrow> [])
      @ const_stores getName off F (b\<lparr>bins := is\<rparr>)" for off
    by (simp add: const_stores_def map_filter_def split: ikind.split sum.split option.split)
  show ?case
    unfolding hd last_of_append using s(1) Cons.IH [OF s(2)]
    by (auto simp: last_stores_ins_def isStoreToPC_def isStoreToLR_def rbind_eq_Inr last_of_def
        split: ikind.splits option.splits)
qed

definition returning :: "bblock \<Rightarrow> bool" where
  "returning b \<longleftrightarrow> is_exit b = Inr True"

definition opt_list :: "'a option \<Rightarrow> 'a list" where
  "opt_list x = (case x of None \<Rightarrow> [] | Some y \<Rightarrow> [y])"

definition last_lr :: "(val \<Rightarrow> string) \<Rightarrow> func \<Rightarrow> bblock \<Rightarrow> u64 list" where
  "last_lr getName F b = opt_list (last_of (const_stores getName lr_offset F b))"

definition block_targets :: "(val \<Rightarrow> string) \<Rightarrow> func \<Rightarrow> bblock \<Rightarrow> u64 list" where
  "block_targets getName F b =
     opt_list (last_of (const_stores getName pc_offset F b)) @ last_lr getName F b"

lemma extract_block_step:
  assumes "extract_block getName F b s = Inr t"
  shows "targetPCs t = targetPCs s @ (if returning b then block_targets getName F b else [])
    \<and> opt_list (implicitTarget t) = opt_list (implicitTarget s) @ (if returning b then last_lr getName F b else [])"
proof -
  obtain r where r: "is_exit b = Inr r" using assms by (cases "is_exit b") (auto simp: extract_block_def)
  show ?thesis
  proof (cases r)
    case False
    with r assms show ?thesis by (simp add: extract_block_def returning_def)
  next
    case True
    obtain pc lr where f: "rfold (last_stores_ins getName F) (bins b) (None, None) = Inr (pc, lr)"
      using assms r True by (auto simp: extract_block_def rbind_eq_Inr)
    have "pc = last_of (const_stores getName pc_offset F b)" "lr = last_of (const_stores getName lr_offset F b)"
      using last_stores_fold [OF f, of b] by (auto split: option.splits)
    with assms r True f show ?thesis
      by (auto simp: extract_block_def returning_def block_targets_def last_lr_def opt_list_def Let_def
          rbind_eq_Inr split: option.splits)
  qed
qed

lemma extract_fold:
  "rfold (extract_block getName F) bs s = Inr t \<Longrightarrow>
     targetPCs t = targetPCs s @ concat (map (block_targets getName F) (filter returning bs))
     \<and> opt_list (implicitTarget t) = opt_list (implicitTarget s) @ concat (map (last_lr getName F) (filter returning bs))"
proof (induction bs arbitrary: s)
  case Nil
  then show ?case by simp
next
  case (Cons b bs)
  then obtain s1 where b: "extract_block getName F b s = Inr s1" and bs: "rfold (extract_block getName F) bs s1 = Inr t"
    by (auto simp: rbind_eq_Inr)
  from extract_block_step [OF b] Cons.IH [OF bs] show ?case by simp
qed

definition thumb_values :: "bblock \<Rightarrow> thumb_bit_t list" where
  "thumb_values b = map (\<lambda>c. if c = 1 then THUMB_BIT_SET else THUMB_BIT_UNSET)
     (List.map_filter (\<lambda>i. Option.bind (store_to ''thumb'' i) const_int) (bins b))"

lemma thumb_step_fold:
  "fold thumb_step (bins b) got = (case last_of (thumb_values b) of None \<Rightarrow> got | Some t \<Rightarrow> Some t)"
proof -
  have "fold thumb_step is got = (case last_of (thumb_values (b\<lparr>bins := is\<rparr>)) of None \<Rightarrow> got | Some t \<Rightarrow> Some t)" for "is"
  proof (induction "is" arbitrary: got)
    case Nil
    show ?case by (simp add: thumb_values_def map_filter_def)
  next
    case (Cons i "is")
    then show ?case
      by (simp add: thumb_values_def map_filter_def thumb_step_def last_of_def split: option.split)
  qed
  from this [of "bins b"] show ?thesis by simp
qed

lemma thumb_blocks_fold:
  "rfold thumb_block bs ts = Inr ts' \<Longrightarrow>
     ts' = ts @ List.map_filter (\<lambda>b. last_of (thumb_values b)) (filter returning bs)"
proof (induction bs arbitrary: ts)
  case Nil
  then show ?case by (simp add: map_filter_def)
next
  case (Cons b bs)
  then obtain us where b: "thumb_block b ts = Inr us" and bs: "rfold thumb_block bs us = Inr ts'"
    by (auto simp: rbind_eq_Inr)
  have "us = ts @ (if returning b then opt_list (last_of (thumb_values b)) else [])"
    using b by (auto simp: thumb_block_def rbind_eq_Inr thumb_step_fold returning_def opt_list_def
        split: if_splits option.splits)
  with Cons.IH [OF bs] show ?case by (simp add: map_filter_def opt_list_def split: option.split)
qed

section \<open>Properties\<close>

text \<open>
  C18. The possible targets of a block are, for each LLVM block that returns and in layout order, the
  last constant stored to \<open>PC\<close> and then the last one stored to \<open>LR\<close>; the implicit target is the one
  stored to \<open>LR\<close>, and there is at most one in the whole function.
\<close>

theorem extract_possible_targets_spec:
  assumes "extract_possible_targets getName F = Inr t"
  shows "targetPCs t = concat (map (block_targets getName F) (filter returning (fblocks F)))
    \<and> opt_list (implicitTarget t) = concat (map (last_lr getName F) (filter returning (fblocks F)))"
  using assms extract_fold [of getName F "fblocks F" reset_targets t]
  by (simp add: extract_possible_targets_def reset_targets_def opt_list_def)

text \<open>
  C19. The thumb bit of a function is the one stored last by the first returning block that stores a
  constant to \<open>thumb\<close>, and undefined when no returning block does.
\<close>

theorem getThumbBit_spec:
  assumes "getThumbBit F = Inr t"
  shows "t = (case List.map_filter (\<lambda>b. last_of (thumb_values b)) (filter returning (fblocks F)) of
      [] \<Rightarrow> THUMB_BIT_UNDEFINED | b # _ \<Rightarrow> b)"
  using assms thumb_blocks_fold [of "fblocks F" "[]"] by (auto simp: getThumbBit_def rbind_eq_Inr)

text \<open>A call: the target goes to \<open>PC\<close>, the return address to \<open>LR\<close>, and the callee is thumb code.\<close>

definition call_tb :: func where
  "call_tb = \<lparr>fid = 1, fname = ''tcg-llvm-tb-0'', fblocks = [\<lparr>bid = 1, bname = ''entry'', bins =
     [mk_ins 1 (OtherIns ''load'' []),
      mk_ins 2 (BinOp AddOp (InsRef 1) (ConstInt 64 0xc0)),
      mk_ins 3 (IntToPtr (InsRef 2)),
      mk_ins 4 (BinOp AddOp (InsRef 1) (ConstInt 64 0xbc)),
      mk_ins 5 (IntToPtr (InsRef 4)),
      mk_ins 6 (Store (ConstInt 32 0x8004) (InsRef 5)),
      mk_ins 7 (Store (ConstInt 32 0x9001) (InsRef 3)),
      mk_ins 8 (Store (ConstInt 32 1) (GlobalVar ''thumb'')),
      mk_ins 9 (Ret None)]\<rparr>]\<rparr>"

definition call_names :: "val \<Rightarrow> string" where
  "call_names v = (if v = InsRef 1 then ''env_v'' else [])"

lemma call_tb_targets:
  "extract_possible_targets call_names call_tb = Inr \<lparr>targetPCs = [0x9001, 0x8004], implicitTarget = Some 0x8004\<rparr>"
  by code_simp

theorem extract_possible_targets_spec_witness:
  "[0x9001, 0x8004] = concat (map (block_targets call_names call_tb) (filter returning (fblocks call_tb)))"
  using extract_possible_targets_spec [OF call_tb_targets] by simp

theorem getThumbBit_spec_witness:
  "getThumbBit call_tb = Inr THUMB_BIT_SET \<and>
   THUMB_BIT_SET = (case List.map_filter (\<lambda>b. last_of (thumb_values b)) (filter returning (fblocks call_tb)) of
      [] \<Rightarrow> THUMB_BIT_UNDEFINED | b # _ \<Rightarrow> b)"
proof -
  have t: "getThumbBit call_tb = Inr THUMB_BIT_SET" by code_simp
  from getThumbBit_spec [OF this] t show ?thesis by simp
qed

end
