(* ===== verification/Env_Transform.thy ===== *)
theory Env_Transform
  imports Extract_Targets Save_BBs
begin

unbundle bit_operations_syntax

text \<open>
  \<open>S2ETransformPass\<close>: accesses to the CPU state through the \<open>env\<close> pointer become accesses to global
  variables named after the registers. The pass follows the uses of the function's argument and of
  the loads of \<open>env\<close>, adding up constant offsets, and replaces each load and store it reaches.
  LLVM's use lists, value names and type layouts are parameters; the types of the globals and the
  offsets held in a constant vector are not modelled. The ARM register table is the one used.
\<close>

section \<open>Register names\<close>

definition cpu_offset_names_arm :: "(u32 \<times> string) list" where
  "cpu_offset_names_arm =
    [(0xcc, ''thumb''), (0x80, ''ZF''), (0x74, ''CF''), (0x78, ''VF''), (0x7c, ''NF''), (0xc0, ''PC''),
     (0xbc, ''LR''), (0xb8, ''SP''), (0xb4, ''R12''), (0xb0, ''R11''), (0xac, ''R10''), (0xa8, ''R9''),
     (0xa4, ''R8''), (0xa0, ''R7''), (0x9c, ''R6''), (0x98, ''R5''), (0x94, ''R4''), (0x90, ''R3''),
     (0x8c, ''R2''), (0x88, ''R1''), (0x84, ''R0''), (0x1e8d8, ''s2e_icount''), (0x4a8, ''current_tb''),
     (0x4b0, ''s2e_icount_before_tb'')]"

text \<open>\<open>std::map::insert\<close> keeps the first entry of a key.\<close>

definition setRegisterName :: "u32 \<times> string \<Rightarrow> (u32 \<rightharpoonup> string) \<Rightarrow> (u32 \<rightharpoonup> string)" where
  "setRegisterName r nameMap = (if nameMap (fst r) = None then nameMap(fst r \<mapsto> snd r) else nameMap)"

definition initRegisterNames :: "(u32 \<times> string) list \<Rightarrow> (u32 \<rightharpoonup> string)" where
  "initRegisterNames regs = fold setRegisterName regs Map.empty"

definition getGlobalName :: "u32 \<Rightarrow> string" where
  "getGlobalName off = (case initRegisterNames cpu_offset_names_arm off of
      Some nm \<Rightarrow> nm
    | None \<Rightarrow> ''GLOBAL_@'' @ hex_digits (unat off))"

section \<open>What LLVM says about the function\<close>

text \<open>
  A step of a \<open>getelementptr\<close> goes into a structure with the given field offsets, or scales its index
  by the size of an element.
\<close>

datatype gep_ty = StructStep "u64 \<Rightarrow> u64" | SeqStep u64

record llvm_view =
  getName :: "val \<Rightarrow> string"
  use_list :: "func \<Rightarrow> val \<Rightarrow> nat list"
  gep_types :: "nat \<Rightarrow> gep_ty list"

text \<open>What these are: a user uses the value, and a \<open>getelementptr\<close> has a type for every index.\<close>

definition view_ok :: "llvm_view \<Rightarrow> func \<Rightarrow> bool" where
  "view_ok X F \<longleftrightarrow>
     (\<forall>v n. n \<in> set (use_list X F v) \<longrightarrow> (\<exists>i. find_ins F n = Some i \<and> v \<in> set (operands (ikind i)))) \<and>
     (\<forall>n i ops. find_ins F n = Some i \<and> ikind i = OtherIns ''getelementptr'' ops \<longrightarrow>
        length (gep_types X n) = length (tl ops))"

section \<open>getGetElementPtrOffset\<close>

definition is_constant :: "val \<Rightarrow> bool" where
  "is_constant v = (case v of ArgRef n \<Rightarrow> False | InsRef n \<Rightarrow> False | _ \<Rightarrow> True)"

definition is_null_value :: "val \<Rightarrow> bool" where
  "is_null_value v = (case v of ConstInt w c \<Rightarrow> c = 0 | ConstNull t \<Rightarrow> True | _ \<Rightarrow> False)"

text \<open>\<open>getSExtValue\<close> as 64 bits.\<close>

definition sext_value :: "nat \<Rightarrow> u64 \<Rightarrow> u64" where
  "sext_value w c = signed_take_bit (w - 1) c"

definition gep_step :: "val \<times> gep_ty \<Rightarrow> u32 option \<Rightarrow> u32 option res" where
  "gep_step st acc = (case acc of None \<Rightarrow> Inr None | Some elementOffset \<Rightarrow>
     (case st of (oper, t) \<Rightarrow>
       if \<not> is_constant oper then Inr None
       else if is_null_value oper then Inr acc
       else (case oper of
           ConstInt w c \<Rightarrow> (case t of
               StructStep layout \<Rightarrow> Inr (Some (elementOffset + ucast (layout c)))
             | SeqStep scale \<Rightarrow> Inr (Some (elementOffset + ucast (scale * sext_value w c))))
         | _ \<Rightarrow> Inl (NullDeref ''dyn_cast<ConstantInt>''))))"

text \<open>The sum is kept in an \<open>int\<close> and returned as 64 bits; \<open>-1\<close> when an index is not constant.\<close>

definition getGetElementPtrOffset :: "(val \<times> gep_ty) list \<Rightarrow> u64 res" where
  "getGetElementPtrOffset steps = rbind (rfold gep_step steps (Some 0)) (\<lambda>r.
     Inr (case r of None \<Rightarrow> - 1 | Some elementOffset \<Rightarrow> scast elementOffset))"

section \<open>processEnvUse\<close>

text \<open>
  \<open>x_new\<close> is \<open>replaceMap\<close> together with the new instructions: the old instruction, the identity of
  its replacement and the name of the global.
\<close>

record xstate =
  x_erase :: "nat list"
  x_new :: "(nat \<times> nat \<times> string) list"
  x_module :: lmodule

definition erase_later :: "nat \<Rightarrow> bool \<Rightarrow> xstate \<Rightarrow> bool \<times> xstate" where
  "erase_later n ok s = (ok, if ok then s\<lparr>x_erase := x_erase s @ [n]\<rparr> else s)"

text \<open>A load or store of the CPU state: a sink of the analysis.\<close>

definition replace_access :: "func \<Rightarrow> nat \<Rightarrow> u32 \<Rightarrow> xstate \<Rightarrow> bool \<times> xstate" where
  "replace_access F n currentOffset s =
     (True, s\<lparr>x_module := getOrInsertGlobal (getGlobalName currentOffset) (x_module s),
       x_new := x_new s @ [(n, fresh_iid F + length (x_new s), getGlobalName currentOffset)],
       x_erase := x_erase s @ [n]\<rparr>)"

fun is_cast :: "ikind \<Rightarrow> bool" where
  "is_cast (IntToPtr v) = True"
| "is_cast (CastI s v) = True"
| "is_cast _ = False"

text \<open>
  \<open>recursiveSuccess &= processEnvUse(...)\<close> runs the callee for every use. The recursion follows a
  chain of distinct instructions; the fuel is one more than the number of instructions.
\<close>

fun process_env_use :: "llvm_view \<Rightarrow> nat \<Rightarrow> func \<Rightarrow> val \<Rightarrow> nat \<Rightarrow> u32 \<Rightarrow> xstate \<Rightarrow> (bool \<times> xstate) res"
  and process_env_uses :: "llvm_view \<Rightarrow> nat \<Rightarrow> func \<Rightarrow> val \<Rightarrow> nat list \<Rightarrow> u32 \<Rightarrow> bool \<times> xstate \<Rightarrow> (bool \<times> xstate) res" where
  "process_env_use X 0 F envPointer n currentOffset s = Inl OutOfFuel"
| "process_env_use X (Suc k) F envPointer n currentOffset s = (case find_ins F n of
     None \<Rightarrow> Inr (False, s)
   | Some useInstruction \<Rightarrow>
       if is_cast (ikind useInstruction) then
         rbind (process_env_uses X k F (InsRef n) (use_list X F (InsRef n)) currentOffset (True, s)) (\<lambda>(ok, s').
           Inr (erase_later n ok s'))
       else (case ikind useInstruction of
         BinOp AddOp a b \<Rightarrow> (case b of
             ConstInt w c \<Rightarrow>
               rbind (process_env_uses X k F (InsRef n) (use_list X F (InsRef n))
                   (currentOffset + env_offset w c) (True, s)) (\<lambda>(ok, s').
                 Inr (erase_later n ok s'))
           | _ \<Rightarrow> Inr (False, s))
       | OtherIns nm ops \<Rightarrow>
           if nm \<noteq> ''getelementptr'' then Inr (False, s)
           else rbind (getGetElementPtrOffset (zip (tl ops) (gep_types X n))) (\<lambda>offset.
             if offset = - 1 then Inr (False, s)
             else rbind (process_env_uses X k F (InsRef n) (use_list X F (InsRef n))
                 (currentOffset + ucast offset) (True, s)) (\<lambda>(ok, s').
               Inr (erase_later n ok s')))
       | Load p \<Rightarrow> Inr (replace_access F n currentOffset s)
       | Store v p \<Rightarrow> if p \<noteq> envPointer then Inr (False, s) else Inr (replace_access F n currentOffset s)
       | _ \<Rightarrow> Inr (False, s)))"
| "process_env_uses X k F envPointer [] currentOffset st = Inr st"
| "process_env_uses X k F envPointer (n # ns) currentOffset st =
     rbind (process_env_use X k F envPointer n currentOffset (snd st)) (\<lambda>(ok, s').
       process_env_uses X k F envPointer ns currentOffset (fst st \<and> ok, s'))"

section \<open>processArgUse\<close>

fun process_arg_use :: "llvm_view \<Rightarrow> nat \<Rightarrow> func \<Rightarrow> nat \<Rightarrow> xstate \<Rightarrow> (bool \<times> xstate) res"
  and process_arg_uses :: "llvm_view \<Rightarrow> nat \<Rightarrow> func \<Rightarrow> nat list \<Rightarrow> bool \<times> xstate \<Rightarrow> (bool \<times> xstate) res" where
  "process_arg_use X 0 F n s = Inl OutOfFuel"
| "process_arg_use X (Suc k) F n s = (case find_ins F n of
     None \<Rightarrow> Inr (False, s)
   | Some useInstruction \<Rightarrow>
       if is_cast (ikind useInstruction) then
         rbind (process_arg_uses X k F (use_list X F (InsRef n)) (True, s)) (\<lambda>(ok, s').
           Inr (erase_later n ok s'))
       else (case ikind useInstruction of
         OtherIns nm ops \<Rightarrow>
           if nm = ''getelementptr'' \<and> (case tl ops of [ConstInt w c] \<Rightarrow> sext_value w c = 0 | _ \<Rightarrow> False) then
             rbind (process_arg_uses X k F (use_list X F (InsRef n)) (True, s)) (\<lambda>(ok, s').
               Inr (erase_later n ok s'))
           else Inr (False, s)
       | Load p \<Rightarrow>
           rbind (process_env_uses X k F (InsRef n) (use_list X F (InsRef n)) 0 (True, s)) (\<lambda>(ok, s').
             Inr (erase_later n ok s'))
       | _ \<Rightarrow> Inr (False, s)))"
| "process_arg_uses X k F [] st = Inr st"
| "process_arg_uses X k F (n # ns) st =
     rbind (process_arg_use X k F n (snd st)) (\<lambda>(ok, s').
       process_arg_uses X k F ns (fst st \<and> ok, s'))"

section \<open>runOnFunction\<close>

fun is_env_load :: "(val \<Rightarrow> string) \<Rightarrow> ikind \<Rightarrow> bool" where
  "is_env_load nm (Load p) = (nm p = ''env'')"
| "is_env_load nm _ = False"

definition env_loads :: "llvm_view \<Rightarrow> func \<Rightarrow> nat list" where
  "env_loads X F = map iid (filter (\<lambda>i. is_env_load (getName X) (ikind i)) (func_ins F))"

definition collect_accesses :: "llvm_view \<Rightarrow> func \<Rightarrow> lmodule \<Rightarrow> (bool \<times> xstate) res" where
  "collect_accesses X F m =
     (let fuel = Suc (length (func_ins F)) in
      rbind (process_arg_uses X fuel F (use_list X F (ArgRef 0)) (True, \<lparr>x_erase = [], x_new = [], x_module = m\<rparr>))
        (process_arg_uses X fuel F (env_loads X F)))"

text \<open>The replacement of a load or a store, in front of it.\<close>

definition new_access :: "instr \<Rightarrow> nat \<times> nat \<times> string \<Rightarrow> instr list" where
  "new_access i r = (case r of (old, new, g) \<Rightarrow>
     if iid i \<noteq> old then []
     else (case ikind i of
         Load p \<Rightarrow> [mk_ins new (Load (GlobalVar g))]
       | Store v p \<Rightarrow> [mk_ins new (Store v (GlobalVar g))]
       | _ \<Rightarrow> []))"

definition insert_accesses :: "(nat \<times> nat \<times> string) list \<Rightarrow> func \<Rightarrow> func" where
  "insert_accesses rs F =
     map_blocks (\<lambda>b. b\<lparr>bins := concat (map (\<lambda>i. concat (map (new_access i) rs) @ [i]) (bins b))\<rparr>) F"

definition is_phi :: "instr \<Rightarrow> bool" where
  "is_phi i = (case ikind i of OtherIns nm vs \<Rightarrow> nm = ''phi'' | _ \<Rightarrow> False)"

definition insert_first :: "instr \<Rightarrow> func \<Rightarrow> func res" where
  "insert_first i F = (case fblocks F of
      [] \<Rightarrow> Inl (NullDeref ''getEntryBlock'')
    | entry # rest \<Rightarrow> Inr (F\<lparr>fblocks :=
        entry\<lparr>bins := takeWhile is_phi (bins entry) @ i # dropWhile is_phi (bins entry)\<rparr> # rest\<rparr>))"

text \<open>\<open>replaceMap\<close> keeps the first replacement of an instruction.\<close>

definition replace_uses :: "(nat \<times> nat \<times> string) list \<Rightarrow> func \<Rightarrow> func" where
  "replace_uses rs F = fold (\<lambda>(old, new, g). rauw (InsRef old) (InsRef new)) rs F"

text \<open>\<open>cleanup\<close> and the end of \<open>runOnFunction\<close>; the result it reports is always false.\<close>

definition transform_pass :: "llvm_view \<Rightarrow> func \<Rightarrow> lmodule \<Rightarrow> (func \<times> lmodule) res" where
  "transform_pass X F m =
     rbind (collect_accesses X F m) (\<lambda>(recursiveSuccess, s).
     let loadEnv = fresh_iid F + length (x_new s);
         m' = getOrInsertGlobal ''CPUSTATE'' (x_module s) in
     rbind (insert_first (mk_ins loadEnv (Load (GlobalVar ''CPUSTATE''))) (insert_accesses (x_new s) F)) (\<lambda>F1.
     rbind (erase_all (x_erase s) (replace_uses (x_new s) (rauw (ArgRef 0) (InsRef loadEnv) F1))) (\<lambda>F2.
     if recursiveSuccess then rbind (erase_from_parent loadEnv F2) (\<lambda>F3. Inr (F3, m'))
     else Inr (F2, m'))))"

section \<open>The address of an access\<close>

text \<open>
  The abstract specification: a value points to the argument, or into the CPU state at an offset.
\<close>

inductive arg_ptr :: "func \<Rightarrow> val \<Rightarrow> bool" for F where
  arg: "arg_ptr F (ArgRef 0)"
| cast: "arg_ptr F v \<Longrightarrow> find_ins F n = Some i \<Longrightarrow> is_cast (ikind i) \<Longrightarrow> operands (ikind i) = [v] \<Longrightarrow>
     arg_ptr F (InsRef n)"
| gep: "arg_ptr F v \<Longrightarrow> find_ins F n = Some i \<Longrightarrow> ikind i = OtherIns ''getelementptr'' [v, ConstInt w c] \<Longrightarrow>
     sext_value w c = 0 \<Longrightarrow> arg_ptr F (InsRef n)"

inductive env_at :: "llvm_view \<Rightarrow> func \<Rightarrow> val \<Rightarrow> u32 \<Rightarrow> bool" for X F where
  base: "find_ins F n = Some i \<Longrightarrow> ikind i = Load p \<Longrightarrow> arg_ptr F p \<or> getName X p = ''env'' \<Longrightarrow>
     env_at X F (InsRef n) 0"
| ecast: "env_at X F v off \<Longrightarrow> find_ins F n = Some i \<Longrightarrow> is_cast (ikind i) \<Longrightarrow> operands (ikind i) = [v] \<Longrightarrow>
     env_at X F (InsRef n) off"
| add: "env_at X F v off \<Longrightarrow> find_ins F n = Some i \<Longrightarrow> ikind i = BinOp AddOp v (ConstInt w c) \<Longrightarrow>
     env_at X F (InsRef n) (off + env_offset w c)"
| egep: "env_at X F v off \<Longrightarrow> find_ins F n = Some i \<Longrightarrow> ikind i = OtherIns ''getelementptr'' (v # idxs) \<Longrightarrow>
     getGetElementPtrOffset (zip idxs (gep_types X n)) = Inr d \<Longrightarrow> d \<noteq> - 1 \<Longrightarrow>
     env_at X F (InsRef n) (off + ucast d)"

inductive_cases env_at_const: "env_at X F (ConstInt w c) off"
inductive_cases arg_ptr_const: "arg_ptr F (ConstInt w c)"

lemma env_at_nonconstant: "env_at X F v off \<Longrightarrow> \<not> is_constant v"
  by (induction rule: env_at.induct) (simp_all add: is_constant_def)

lemma arg_ptr_nonconstant: "arg_ptr F v \<Longrightarrow> \<not> is_constant v"
  by (induction rule: arg_ptr.induct) (simp_all add: is_constant_def)

text \<open>A replaced access is a load or store through a pointer to the register it is named after.\<close>

definition access_ok :: "llvm_view \<Rightarrow> func \<Rightarrow> nat \<times> nat \<times> string \<Rightarrow> bool" where
  "access_ok X F r = (case r of (old, new, g) \<Rightarrow> new \<ge> fresh_iid F \<and>
     (\<exists>i off p. find_ins F old = Some i \<and> g = getGlobalName off \<and> env_at X F p off \<and>
       (ikind i = Load p \<or> (\<exists>v. ikind i = Store v p))))"

definition xsound :: "llvm_view \<Rightarrow> func \<Rightarrow> xstate \<Rightarrow> bool" where
  "xsound X F s \<longleftrightarrow> (\<forall>r \<in> set (x_new s). access_ok X F r)"

lemma erase_later_simps [simp]:
  "fst (erase_later n ok s) = ok" "x_new (snd (erase_later n ok s)) = x_new s"
  by (simp_all add: erase_later_def)

lemma xsound_erase_later [simp]: "xsound X F (snd (erase_later n ok s)) \<longleftrightarrow> xsound X F s"
  by (simp add: xsound_def)

lemma gep_nonconst:
  "rfold gep_step steps acc = Inr r \<Longrightarrow> (v, t) \<in> set steps \<Longrightarrow> \<not> is_constant v \<Longrightarrow> r = None"
proof (induction steps arbitrary: acc)
  case Nil
  then show ?case by simp
next
  case (Cons st steps)
  obtain acc' where a: "gep_step st acc = Inr acc'" "rfold gep_step steps acc' = Inr r"
    using Cons.prems(1) by (auto simp: rbind_eq_Inr)
  have stay: "rfold gep_step xs None = Inr q \<Longrightarrow> q = None" for xs q
    by (induction xs) (auto simp: gep_step_def)
  show ?case
  proof (cases "st = (v, t)")
    case True
    with a(1) Cons.prems(3) have "acc' = None" by (auto simp: gep_step_def split: option.splits)
    with a(2) stay show ?thesis by blast
  next
    case False
    with Cons a show ?thesis by auto
  qed
qed

lemma gep_pointer:
  assumes "getGetElementPtrOffset (zip (tl ops) ts) = Inr d" and "d \<noteq> - 1" and "length ts = length (tl ops)"
    and "v \<in> set ops" and "\<not> is_constant v"
  shows "\<exists>idxs. ops = v # idxs"
proof (rule ccontr)
  assume no: "\<nexists>idxs. ops = v # idxs"
  with assms(4) have "v \<in> set (tl ops)" by (cases ops) auto
  then obtain t where "(v, t) \<in> set (zip (tl ops) ts)"
    using assms(3) by (metis in_set_impl_in_set_zip1)
  with assms(1,2,5) show False
    by (auto simp: getGetElementPtrOffset_def rbind_eq_Inr dest: gep_nonconst)
qed

lemma xsound_replace_access:
  assumes "xsound X F s" and "find_ins F n = Some i" and "env_at X F p off"
    and "ikind i = Load p \<or> (\<exists>v. ikind i = Store v p)"
  shows "xsound X F (snd (replace_access F n off s))"
  using assms by (auto simp: xsound_def replace_access_def access_ok_def)

text \<open>One use of a pointer into the CPU state: it is followed, replaced, or stops the analysis.\<close>

definition followed :: "llvm_view \<Rightarrow> nat \<Rightarrow> func \<Rightarrow> nat \<Rightarrow> xstate \<Rightarrow> bool \<times> xstate \<Rightarrow> bool" where
  "followed X k F n s r \<longleftrightarrow> (\<exists>off q. env_at X F (InsRef n) off \<and>
     process_env_uses X k F (InsRef n) (use_list X F (InsRef n)) off (True, s) = Inr q \<and>
     r = erase_later n (fst q) (snd q))"

lemma followedI:
  assumes "env_at X F (InsRef n) off"
    and "rbind (process_env_uses X k F (InsRef n) (use_list X F (InsRef n)) off (True, s))
      (\<lambda>(ok, s'). Inr (erase_later n ok s')) = Inr r"
  shows "followed X k F n s r"
  using assms by (auto simp: followed_def rbind_eq_Inr)

lemma env_step_gep:
  assumes ok: "view_ok X F" and at: "env_at X F p off" and i: "find_ins F n = Some i" "p \<in> set ops"
    and g: "ikind i = OtherIns ''getelementptr'' ops"
    and run: "process_env_use X (Suc k) F p n off s = Inr r"
  shows "followed X k F n s r \<or> r = (False, s)"
proof -
  obtain d where d: "getGetElementPtrOffset (zip (tl ops) (gep_types X n)) = Inr d"
    using run i(1) g by (auto simp: rbind_eq_Inr)
  show ?thesis
  proof (cases "d = - 1")
    case True
    then show ?thesis using run i(1) g d by auto
  next
    case False
    have "length (gep_types X n) = length (tl ops)"
      using ok i(1) g unfolding view_ok_def by blast
    then obtain idxs where "ops = p # idxs"
      using gep_pointer [OF d False _ i(2) env_at_nonconstant [OF at]] by blast
    then have "env_at X F (InsRef n) (off + ucast d)"
      using env_at.egep [OF at i(1)] g d False by simp
    then have "followed X k F n s r"
      using run i(1) g d False by (intro followedI) auto
    then show ?thesis ..
  qed
qed

lemma env_step:
  assumes ok: "view_ok X F" and at: "env_at X F p off" and n: "n \<in> set (use_list X F p)"
    and run: "process_env_use X (Suc k) F p n off s = Inr r" and s: "xsound X F s"
  shows "followed X k F n s r \<or> xsound X F (snd r)"
proof -
  obtain i where i: "find_ins F n = Some i" "p \<in> set (operands (ikind i))"
    using ok n unfolding view_ok_def by blast
  note nc = env_at_nonconstant [OF at]
  show ?thesis
  proof (cases "is_cast (ikind i)")
    case True
    then have "operands (ikind i) = [p]" using i(2) by (cases "ikind i") auto
    then have "env_at X F (InsRef n) off" using env_at.ecast at i(1) True by blast
    then have "followed X k F n s r" using run i(1) True by (intro followedI) auto
    then show ?thesis ..
  next
    case False
    show ?thesis
    proof (cases "ikind i" rule: ikind.exhaust)
      case (BinOp oper a b)
      show ?thesis
      proof (cases "oper = AddOp \<and> (\<exists>w c. b = ConstInt w c)")
        case True
        then obtain w c where wc: "oper = AddOp" "b = ConstInt w c" by blast
        have "a = p" using i(2) BinOp wc nc by (auto simp: is_constant_def)
        then have "env_at X F (InsRef n) (off + env_offset w c)"
          using env_at.add [OF at i(1)] BinOp wc by simp
        then have "followed X k F n s r" using run i(1) BinOp wc by (intro followedI) auto
        then show ?thesis ..
      qed (use run s i(1) BinOp in \<open>cases oper; cases b; auto\<close>)
    next
      case (OtherIns nm ops)
      then show ?thesis
        using env_step_gep [OF ok at i(1) _ _ run, of ops] run s i by (cases "nm = ''getelementptr''") auto
    qed (use run s at i False in \<open>auto intro: xsound_replace_access split: if_splits\<close>)
  qed
qed

lemma env_uses_sound:
  assumes "process_env_uses X k F p ns off st = Inr r" and "xsound X F (snd st)"
    and "\<And>n s q. n \<in> set ns \<Longrightarrow> process_env_use X k F p n off s = Inr q \<Longrightarrow> xsound X F s \<Longrightarrow> xsound X F (snd q)"
  shows "xsound X F (snd r)"
  using assms
proof (induction ns arbitrary: st)
  case Nil
  then show ?case by simp
next
  case (Cons n ns)
  then obtain q where q: "process_env_use X k F p n off (snd st) = Inr q"
    "process_env_uses X k F p ns off (fst st \<and> fst q, snd q) = Inr r"
    by (auto simp: rbind_eq_Inr)
  have "xsound X F (snd q)" using Cons.prems(3) [OF _ q(1) Cons.prems(2)] by simp
  with Cons.IH [OF q(2)] Cons.prems(3) show ?case by auto
qed

lemma env_use_sound:
  assumes ok: "view_ok X F"
  shows "process_env_use X k F p n off s = Inr r \<Longrightarrow> env_at X F p off \<Longrightarrow> n \<in> set (use_list X F p) \<Longrightarrow>
      xsound X F s \<Longrightarrow> xsound X F (snd r)"
proof (induction k arbitrary: p n off s r)
  case 0
  then show ?case by simp
next
  case (Suc k)
  from env_step [OF ok Suc.prems(2,3,1,4)] show ?case
  proof
    assume "followed X k F n s r"
    then obtain off' q where q: "env_at X F (InsRef n) off'" "r = erase_later n (fst q) (snd q)"
      "process_env_uses X k F (InsRef n) (use_list X F (InsRef n)) off' (True, s) = Inr q"
      by (auto simp: followed_def)
    have "xsound X F (snd q)"
      by (rule env_uses_sound [OF q(3)]) (use Suc.IH q(1) Suc.prems(4) in auto)
    then show ?thesis by (simp add: q(2))
  qed
qed

lemma arg_uses_sound:
  assumes "process_arg_uses X k F ns st = Inr r" and "xsound X F (snd st)"
    and "\<And>n s q. n \<in> set ns \<Longrightarrow> process_arg_use X k F n s = Inr q \<Longrightarrow> xsound X F s \<Longrightarrow> xsound X F (snd q)"
  shows "xsound X F (snd r)"
  using assms
proof (induction ns arbitrary: st)
  case Nil
  then show ?case by simp
next
  case (Cons n ns)
  then obtain q where q: "process_arg_use X k F n (snd st) = Inr q"
    "process_arg_uses X k F ns (fst st \<and> fst q, snd q) = Inr r"
    by (auto simp: rbind_eq_Inr)
  have "xsound X F (snd q)" using Cons.prems(3) [OF _ q(1) Cons.prems(2)] by simp
  with Cons.IH [OF q(2)] Cons.prems(3) show ?case by auto
qed

text \<open>A use of the argument, or a load of \<open>env\<close>.\<close>

definition arg_use :: "llvm_view \<Rightarrow> func \<Rightarrow> nat \<Rightarrow> bool" where
  "arg_use X F n \<longleftrightarrow> (\<exists>p. arg_ptr F p \<and> n \<in> set (use_list X F p)) \<or>
     (\<exists>i p. find_ins F n = Some i \<and> ikind i = Load p \<and> getName X p = ''env'')"

lemma arg_step:
  assumes ok: "view_ok X F" and use: "arg_use X F n" and i: "find_ins F n = Some i"
  shows "is_cast (ikind i) \<Longrightarrow> arg_ptr F (InsRef n)"
    and "ikind i = OtherIns ''getelementptr'' ops \<Longrightarrow> tl ops = [ConstInt w c] \<Longrightarrow> sext_value w c = 0 \<Longrightarrow> arg_ptr F (InsRef n)"
    and "ikind i = Load p \<Longrightarrow> env_at X F (InsRef n) 0"
proof -
  have ops: "\<exists>v. arg_ptr F v \<and> v \<in> set (operands (ikind i))" if "\<And>p. ikind i \<noteq> Load p \<or> getName X p \<noteq> ''env''"
    using use ok i that unfolding arg_use_def view_ok_def by fastforce
  show "arg_ptr F (InsRef n)" if c: "is_cast (ikind i)"
  proof -
    obtain v where v: "arg_ptr F v" "v \<in> set (operands (ikind i))" using ops c by fastforce
    then have "operands (ikind i) = [v]" using c by (cases "ikind i") auto
    with v(1) i c show ?thesis by (rule arg_ptr.cast)
  qed
  show "arg_ptr F (InsRef n)" if g: "ikind i = OtherIns ''getelementptr'' ops" "tl ops = [ConstInt w c]" "sext_value w c = 0"
  proof -
    obtain v where v: "arg_ptr F v" "v \<in> set ops" using ops g(1) by auto
    then have "ops = [v, ConstInt w c]"
      using g(2) arg_ptr_nonconstant [OF v(1)] by (cases ops) (auto simp: is_constant_def)
    with v(1) i g(1,3) show ?thesis by (blast intro: arg_ptr.gep)
  qed
  show "env_at X F (InsRef n) 0" if l: "ikind i = Load p"
  proof -
    have "arg_ptr F p \<or> getName X p = ''env''" using ops l by auto
    with i l show ?thesis by (rule env_at.base)
  qed
qed

lemma arg_use_sound:
  assumes ok: "view_ok X F"
  shows "process_arg_use X k F n s = Inr r \<Longrightarrow> arg_use X F n \<Longrightarrow> xsound X F s \<Longrightarrow> xsound X F (snd r)"
proof (induction k arbitrary: n s r)
  case 0
  then show ?case by simp
next
  case (Suc k)
  have deeper: "xsound X F (snd r)" if at: "arg_ptr F (InsRef n)"
    and run: "rbind (process_arg_uses X k F (use_list X F (InsRef n)) (True, s)) (\<lambda>(ok, s'). Inr (erase_later n ok s')) = Inr r"
  proof -
    obtain q where q: "process_arg_uses X k F (use_list X F (InsRef n)) (True, s) = Inr q"
      "r = erase_later n (fst q) (snd q)" using run by (auto simp: rbind_eq_Inr)
    have u: "arg_use X F m" if "m \<in> set (use_list X F (InsRef n))" for m
      using at that by (auto simp: arg_use_def)
    have "xsound X F (snd q)"
      by (rule arg_uses_sound [OF q(1)]) (use Suc.IH u Suc.prems(3) in auto)
    then show ?thesis by (simp add: q(2))
  qed
  show ?case
  proof (cases "find_ins F n")
    case None
    then show ?thesis using Suc.prems by auto
  next
    case (Some i)
    note st = arg_step [OF ok Suc.prems(2) Some]
    show ?thesis
    proof (cases "is_cast (ikind i)")
      case True
      then show ?thesis using Suc.prems(1) Some deeper st(1) by auto
    next
      case False
      show ?thesis
      proof (cases "ikind i" rule: ikind.exhaust)
        case (Load p)
        obtain q where q: "process_env_uses X k F (InsRef n) (use_list X F (InsRef n)) 0 (True, s) = Inr q"
          "r = erase_later n (fst q) (snd q)"
          using Suc.prems(1) Some Load by (auto simp: rbind_eq_Inr)
        have "xsound X F (snd q)"
          by (rule env_uses_sound [OF q(1)]) (use env_use_sound [OF ok] st(3) [OF Load] Suc.prems(3) in auto)
        then show ?thesis by (simp add: q(2))
      next
        case (OtherIns nm ops)
        show ?thesis
        proof (cases "nm = ''getelementptr'' \<and> (\<exists>w c. tl ops = [ConstInt w c] \<and> sext_value w c = 0)")
          case True
          then show ?thesis using Suc.prems(1) Some OtherIns st(2) deeper by auto
        next
          case no: False
          then have "\<not> (nm = ''getelementptr'' \<and> (case tl ops of [ConstInt w c] \<Rightarrow> sext_value w c = 0 | _ \<Rightarrow> False))"
            by (cases "tl ops"; cases "tl (tl ops)"; cases "hd (tl ops)") auto
          then have "process_arg_use X (Suc k) F n s = Inr (False, s)"
            using Some OtherIns by (simp only: process_arg_use.simps option.case ikind.case is_cast.simps if_False)
          then show ?thesis using Suc.prems(1,3) by auto
        qed
      qed (use Suc.prems(1,3) Some False in auto)
    qed
  qed
qed

lemma collect_sound:
  assumes ok: "view_ok X F" and wf: "wf_func F" and run: "collect_accesses X F m = Inr r"
  shows "xsound X F (snd r)"
proof -
  let ?k = "Suc (length (func_ins F))" and ?s = "\<lparr>x_erase = [], x_new = [], x_module = m\<rparr>"
  obtain q where q: "process_arg_uses X ?k F (use_list X F (ArgRef 0)) (True, ?s) = Inr q"
    "process_arg_uses X ?k F (env_loads X F) q = Inr r"
    using run by (auto simp: collect_accesses_def Let_def rbind_eq_Inr)
  have u1: "arg_use X F n" if "n \<in> set (use_list X F (ArgRef 0))" for n
    using that arg_ptr.arg by (auto simp: arg_use_def)
  have u2: "arg_use X F n" if "n \<in> set (env_loads X F)" for n
  proof -
    obtain i where i: "i \<in> set (func_ins F)" "iid i = n" "is_env_load (getName X) (ikind i)"
      using \<open>n \<in> set (env_loads X F)\<close> by (auto simp: env_loads_def)
    from i(3) obtain p where "ikind i = Load p" "getName X p = ''env''" by (cases "ikind i") auto
    then show ?thesis using find_ins_unique [OF wf i(1)] i(2) by (auto simp: arg_use_def)
  qed
  have init: "xsound X F ?s" by (simp add: xsound_def)
  have "xsound X F (snd q)"
    by (rule arg_uses_sound [OF q(1)]) (use arg_use_sound [OF ok] u1 init in \<open>auto simp del: process_arg_use.simps\<close>)
  then show ?thesis
    by (rule arg_uses_sound [OF q(2)]) (use arg_use_sound [OF ok] u2 in \<open>auto simp del: process_arg_use.simps\<close>)
qed

text \<open>Where an instruction of the result comes from.\<close>

definition named_access :: "llvm_view \<Rightarrow> func \<Rightarrow> ikind \<Rightarrow> bool" where
  "named_access X F k \<longleftrightarrow> (\<exists>i \<in> set (func_ins F). \<exists>p off. env_at X F p off \<and>
     (ikind i = Load p \<and> k = Load (GlobalVar (getGlobalName off)) \<or>
      (\<exists>v w. ikind i = Store v p \<and> k = Store w (GlobalVar (getGlobalName off)))))"

definition origin :: "llvm_view \<Rightarrow> func \<Rightarrow> instr \<Rightarrow> bool" where
  "origin X F j \<longleftrightarrow> (\<exists>i \<in> set (func_ins F). iid i = iid j \<and> imeta i = imeta j)
     \<or> iid j \<notin> set (ins_ids F) \<and> (ikind j = Load (GlobalVar ''CPUSTATE'') \<or> named_access X F (ikind j))"

lemma subst_named_access:
  assumes "named_access X F k" and "\<And>g. a \<noteq> GlobalVar g"
  shows "named_access X F (subst_kind a b k)"
  using assms unfolding named_access_def by (fastforce simp: eq_commute)

lemma origin_rauw:
  assumes "\<forall>j \<in> set (func_ins G). origin X F j" and "\<And>g. a \<noteq> GlobalVar g"
  shows "\<forall>j \<in> set (func_ins (rauw a b G)). origin X F j"
  using assms subst_named_access [OF _ assms(2)]
  by (fastforce simp: rauw_def origin_def)

lemma origin_replace_uses:
  "\<forall>j \<in> set (func_ins G). origin X F j \<Longrightarrow> \<forall>j \<in> set (func_ins (replace_uses rs G)). origin X F j"
proof (induction rs arbitrary: G)
  case Nil
  then show ?case by (simp add: replace_uses_def)
next
  case (Cons r rs)
  obtain old new g where r: "r = (old, new, g)" by (cases r)
  from Cons.IH [OF origin_rauw [OF Cons.prems, of "InsRef old" "InsRef new"]] show ?case
    by (simp add: replace_uses_def r)
qed

lemma fresh_above: "i \<in> set (func_ins F) \<Longrightarrow> iid i < fresh_iid F"
  using le_fold_max [of "iid i" "ins_ids F"] by (simp add: fresh_iid_def ins_ids_def less_Suc_eq_le)

lemma origin_inserted:
  assumes "xsound X F s" and wf: "wf_func F"
  shows "\<forall>j \<in> set (func_ins (insert_accesses (x_new s) F)). origin X F j"
proof
  fix j assume "j \<in> set (func_ins (insert_accesses (x_new s) F))"
  then obtain i where i: "i \<in> set (func_ins F)" and "j = i \<or> (\<exists>r \<in> set (x_new s). j \<in> set (new_access i r))"
    by (auto simp: func_ins_def insert_accesses_def map_blocks_def)
  then show "origin X F j"
  proof (elim disjE bexE)
    assume "j = i"
    with i show ?thesis by (auto simp: origin_def)
  next
    fix r assume r: "r \<in> set (x_new s)" "j \<in> set (new_access i r)"
    obtain old new g where e: "r = (old, new, g)" by (cases r)
    have "access_ok X F (old, new, g)" using assms r(1) e by (auto simp: xsound_def)
    then obtain i' off p where a: "find_ins F old = Some i'" "g = getGlobalName off" "env_at X F p off"
      "ikind i' = Load p \<or> (\<exists>v. ikind i' = Store v p)" "fresh_iid F \<le> new"
      by (auto simp: access_ok_def)
    have j: "iid j = new" "iid i = old"
      using r(2) by (auto simp: e new_access_def split: if_splits ikind.splits)
    have "i' = i" using find_ins_unique [OF wf i] a(1) j(2) by simp
    then have "named_access X F (ikind j)"
      using r(2) a(2-4) i unfolding named_access_def by (auto simp: e new_access_def split: if_splits; blast)
    moreover have "iid j \<notin> set (ins_ids F)"
      using fresh_above [of _ F] a(5) j(1) by (fastforce simp: ins_ids_def)
    ultimately show ?thesis by (simp add: origin_def)
  qed
qed

lemma transform_origin:
  assumes "view_ok X F" and wf: "wf_func F" and run: "transform_pass X F m = Inr (F', m')"
  shows "\<forall>j \<in> set (func_ins F'). origin X F j"
proof -
  obtain ok s where c: "collect_accesses X F m = Inr (ok, s)"
    using run by (auto simp: transform_pass_def rbind_eq_Inr)
  let ?l = "fresh_iid F + length (x_new s)"
  obtain F1 F2 where F1: "insert_first (mk_ins ?l (Load (GlobalVar ''CPUSTATE''))) (insert_accesses (x_new s) F) = Inr F1"
    and F2: "erase_all (x_erase s) (replace_uses (x_new s) (rauw (ArgRef 0) (InsRef ?l) F1)) = Inr F2"
    and F': "F' = F2 \<or> erase_from_parent ?l F2 = Inr F'"
    using run by (auto simp: transform_pass_def c Let_def rbind_eq_Inr split: if_splits)
  have "xsound X F s" using collect_sound [OF assms(1) wf c] by simp
  note ins = origin_inserted [OF this wf]
  have "?l \<notin> set (ins_ids F)" using fresh_above [of _ F] by (fastforce simp: ins_ids_def)
  then have "origin X F (mk_ins ?l (Load (GlobalVar ''CPUSTATE'')))" by (simp add: origin_def)
  moreover have parts: "set (takeWhile is_phi is) \<subseteq> set is" "set (dropWhile is_phi is) \<subseteq> set is" for "is"
    by (auto dest: set_takeWhileD set_dropWhileD)
  moreover have "set (func_ins F1) \<subseteq> insert (mk_ins ?l (Load (GlobalVar ''CPUSTATE''))) (set (func_ins (insert_accesses (x_new s) F)))"
    using F1 parts by (fastforce simp: insert_first_def func_ins_def split: list.splits)
  ultimately have "\<forall>j \<in> set (func_ins F1). origin X F j" using ins by auto
  then have "\<forall>j \<in> set (func_ins (replace_uses (x_new s) (rauw (ArgRef 0) (InsRef ?l) F1))). origin X F j"
    by (intro origin_replace_uses origin_rauw) simp_all
  then have "\<forall>j \<in> set (func_ins F2). origin X F j" using erase_all_Inr [OF F2] by simp
  then show ?thesis using F' by (auto simp: erase_from_parent_def split: if_splits)
qed

section \<open>Register names are unambiguous\<close>

lemma set_names_fold:
  "fold setRegisterName regs m k = (case m k of Some v \<Rightarrow> Some v | None \<Rightarrow> map_of regs k)"
  by (induction regs arbitrary: m) (auto simp: setRegisterName_def split: option.split)

lemma initRegisterNames_map_of: "initRegisterNames regs = map_of regs"
  by (rule ext) (simp add: initRegisterNames_def set_names_fold)

lemma arm_names_distinct: "distinct (map snd cpu_offset_names_arm)"
  by code_simp

lemma arm_names_plain: "\<forall>r \<in> set cpu_offset_names_arm. take 8 (snd r) \<noteq> ''GLOBAL_@''"
  by code_simp

lemma hex_digits_inj: "hex_digits a = hex_digits b \<longleftrightarrow> a = b"
  using parse_hex_digits [of a] parse_hex_digits [of b] by metis

lemma named_not_plain: "map_of cpu_offset_names_arm a = Some nm \<Longrightarrow> nm \<noteq> ''GLOBAL_@'' @ ds"
  using arm_names_plain by (fastforce dest: map_of_SomeD)

lemma getGlobalName_inj: "getGlobalName a = getGlobalName b \<longleftrightarrow> a = b"
proof
  assume e: "getGlobalName a = getGlobalName b"
  note g = getGlobalName_def initRegisterNames_map_of
  show "a = b"
  proof (cases "map_of cpu_offset_names_arm a")
    case None
    then have "map_of cpu_offset_names_arm b = None"
      using e named_not_plain by (auto simp: g split: option.splits)
    with None e show ?thesis by (simp add: g hex_digits_inj word_unat_eq_iff)
  next
    case (Some nm)
    then obtain nm' where b: "map_of cpu_offset_names_arm b = Some nm'"
      using e named_not_plain [OF Some] by (auto simp: g split: option.splits)
    then have "nm' = nm" using e Some by (simp add: g)
    with Some b have "(a, nm) \<in> set cpu_offset_names_arm" "(b, nm) \<in> set cpu_offset_names_arm"
      by (auto dest: map_of_SomeD)
    moreover have "inj_on snd (set cpu_offset_names_arm)" using arm_names_distinct by (simp add: distinct_map)
    ultimately have "(a, nm) = (b, nm)" using inj_onD by (metis snd_conv)
    then show ?thesis by simp
  qed
qed simp

section \<open>Properties\<close>

text \<open>
  Different offsets into the CPU state get different global names, and the offsets at which the
  disassembler looks for targets are the ones named \<open>PC\<close> and \<open>LR\<close>.
\<close>

theorem getGlobalName_injective:
  "(getGlobalName a = getGlobalName b \<longleftrightarrow> a = b)
   \<and> getGlobalName pc_offset = ''PC'' \<and> getGlobalName lr_offset = ''LR''"
proof -
  have "getGlobalName pc_offset = ''PC''" "getGlobalName lr_offset = ''LR''" by code_simp+
  then show ?thesis using getGlobalName_inj by blast
qed

text \<open>
  C20. After \<open>S2ETransformPass\<close> every instruction is one of the original function (with its metadata),
  the load of \<open>CPUSTATE\<close>, or the load or store of a register that stands for an access through a
  pointer whose offset into the CPU state is the one the register is named after.
\<close>

theorem transform_pass_names:
  assumes "view_ok X F" and "wf_func F" and "transform_pass X F m = Inr (F', m')"
  shows "\<forall>j \<in> set (func_ins F'). origin X F j"
  by (rule transform_origin [OF assms])

text \<open>A store to \<open>PC\<close> through the argument.\<close>

definition raw_tb :: func where
  "raw_tb = \<lparr>fid = 1, fname = ''tcg-llvm-tb-0'', fblocks = [\<lparr>bid = 1, bname = ''entry'', bins =
     [mk_ins 1 (Load (ArgRef 0)),
      mk_ins 2 (BinOp AddOp (InsRef 1) (ConstInt 64 0xc0)),
      mk_ins 3 (IntToPtr (InsRef 2)),
      mk_ins 4 (Store (ConstInt 32 0x8000) (InsRef 3)),
      mk_ins 5 (Ret None)]\<rparr>]\<rparr>"

definition raw_view :: llvm_view where
  "raw_view = \<lparr>getName = (\<lambda>v. []),
     use_list = (\<lambda>F v. if v = ArgRef 0 then [1] else if v = InsRef 1 then [2] else if v = InsRef 2 then [3]
        else if v = InsRef 3 then [4] else []),
     gep_types = (\<lambda>n. [])\<rparr>"

definition raw_done :: func where
  "raw_done = \<lparr>fid = 1, fname = ''tcg-llvm-tb-0'', fblocks = [\<lparr>bid = 1, bname = ''entry'', bins =
     [mk_ins 6 (Store (ConstInt 32 0x8000) (GlobalVar ''PC'')), mk_ins 5 (Ret None)]\<rparr>]\<rparr>"

lemma raw_view_ok: "view_ok raw_view (raw_tb)"
  by (auto simp: view_ok_def raw_view_def raw_tb_def find_ins_def func_ins_def split: if_splits)

lemma raw_run:
  "transform_pass raw_view raw_tb \<lparr>mfuncs = [], mglobals = []\<rparr> =
     Inr (raw_done, \<lparr>mfuncs = [], mglobals = [''PC'', ''CPUSTATE'']\<rparr>)"
proof -
  have "getGlobalName (env_offset 64 0xc0) = ''PC''" by code_simp
  then have pc: "w = 64 \<Longrightarrow> getGlobalName (env_offset w 0xc0) = ''PC''" for w by simp
  show ?thesis
    by (simp add: transform_pass_def collect_accesses_def raw_tb_def raw_view_def raw_done_def env_loads_def
        func_ins_def find_ins_def eval_nat_numeral erase_later_def replace_access_def pc fresh_iid_def ins_ids_def
        getOrInsertGlobal_def insert_first_def insert_accesses_def map_blocks_def new_access_def is_phi_def
        replace_uses_def rauw_def map_ins_def erase_all_def erase_from_parent_def drop_ids_def mk_ins_def Let_def)
qed

theorem transform_pass_names_witness:
  "list_all (origin raw_view raw_tb) (func_ins raw_done)"
proof -
  have "wf_func raw_tb" by (simp add: raw_tb_def wf_func_def ins_ids_def func_ins_def)
  from transform_pass_names [OF raw_view_ok this raw_run] show ?thesis by (simp add: list_all_iff)
qed

end
