(* ===== verification/Inline_Helpers.thy ===== *)
theory Inline_Helpers
  imports Value_Subst "HOL-Library.Multiset"
begin

text \<open>
  \<open>S2EInlineHelpersPass\<close>: inline the arithmetic helpers of QEMU until no call to one is left.
  \<open>llvm::InlineFunction\<close> is a parameter, \<open>None\<close> when it fails. The loop of the pass has no exit for a call that
  cannot be inlined; it is a partial function, and never returning is \<open>None\<close>.
\<close>

definition INLINE_FUNCTIONS :: "string list" where
  "INLINE_FUNCTIONS =
    [''helper_add_setq'', ''helper_add_saturate'', ''helper_sub_saturate'', ''helper_double_saturate'',
     ''helper_add_usaturate'', ''helper_sub_usaturate'', ''helper_ssat'', ''helper_ssat16'', ''helper_usat'',
     ''helper_usat16'', ''helper_add_cc'', ''helper_adc_cc'', ''helper_sub_cc'', ''helper_sbc_cc'',
     ''helper_shl'', ''helper_shr'', ''helper_sar'', ''helper_shl_cc'', ''helper_shr_cc'', ''helper_sar_cc'',
     ''helper_ror_cc'', ''uadds'', ''uadd'', ''uaddl'']"

definition shouldInlineCall :: "ikind \<Rightarrow> bool" where
  "shouldInlineCall k = (case k of
      Call callee args \<Rightarrow> (case callee of
          FuncRef nm \<Rightarrow> nm \<noteq> [] \<and> nm \<in> set INLINE_FUNCTIONS
        | _ \<Rightarrow> False)
    | _ \<Rightarrow> False)"

text \<open>\<open>functionsToInline\<close>, in layout order.\<close>

definition functionsToInline :: "func \<Rightarrow> nat list" where
  "functionsToInline f = map iid (filter (\<lambda>i. shouldInlineCall (ikind i)) (func_ins f))"

type_synonym inline_fn = "func \<Rightarrow> nat \<Rightarrow> func option"

text \<open>The inner loop, left at the first failure; the flag is \<open>inlinedFunctions\<close>.\<close>

fun inline_calls :: "inline_fn \<Rightarrow> nat list \<Rightarrow> func \<times> bool \<Rightarrow> func \<times> bool" where
  "inline_calls InlineFunction [] st = st"
| "inline_calls InlineFunction (n # ns) st = (case InlineFunction (fst st) n of
      None \<Rightarrow> st
    | Some f' \<Rightarrow> inline_calls InlineFunction ns (f', True))"

partial_function (option) inline_loop :: "inline_fn \<Rightarrow> func \<times> bool \<Rightarrow> (func \<times> bool) option" where
  "inline_loop InlineFunction st =
     (if functionsToInline (fst st) = [] then Some st
      else inline_loop InlineFunction (inline_calls InlineFunction (functionsToInline (fst st)) st))"

definition inline_helpers :: "inline_fn \<Rightarrow> func \<Rightarrow> (func \<times> bool) option" where
  "inline_helpers InlineFunction f = inline_loop InlineFunction (f, False)"

section \<open>What the loop leaves\<close>

lemma inline_loop_done:
  assumes "inline_loop I st = Some st'"
  shows "functionsToInline (fst st') = []"
proof (rule inline_loop.raw_induct [OF _ assms, where P = "\<lambda>I st st'. functionsToInline (fst st') = []"])
  fix inline I st st'
  assume ih: "\<And>I st st'. inline I st = Some st' \<Longrightarrow> functionsToInline (fst st') = []"
    and run: "(if functionsToInline (fst st) = [] then Some st
      else inline I (inline_calls I (functionsToInline (fst st)) st)) = Some st'"
  show "functionsToInline (fst st') = []"
    using run ih by (auto split: if_splits)
qed

text \<open>A helper call at the head of the list that cannot be inlined.\<close>

definition stuck :: "inline_fn \<Rightarrow> func \<Rightarrow> bool" where
  "stuck I f \<longleftrightarrow> (\<exists>n ns. functionsToInline f = n # ns \<and> I f n = None)"

lemma stuck_stays: "stuck I (fst st) \<Longrightarrow> inline_calls I (functionsToInline (fst st)) st = st"
  by (auto simp: stuck_def)

lemma inline_loop_stuck:
  assumes "inline_loop I st = Some st'"
  shows "\<not> stuck I (fst st)"
proof (rule inline_loop.raw_induct [OF _ assms, where P = "\<lambda>I st st'. \<not> stuck I (fst st)"])
  fix inline I st st'
  assume ih: "\<And>I st st'. inline I st = Some st' \<Longrightarrow> \<not> stuck I (fst st)"
    and run: "(if functionsToInline (fst st) = [] then Some st
      else inline I (inline_calls I (functionsToInline (fst st)) st)) = Some st'"
  show "\<not> stuck I (fst st)"
  proof
    assume s: "stuck I (fst st)"
    then have "functionsToInline (fst st) \<noteq> []" by (auto simp: stuck_def)
    with run have "inline I st = Some st'" using stuck_stays [OF s] by simp
    with ih s show False by blast
  qed
qed

section \<open>Why the loop ends\<close>

text \<open>The helper calls of a function with the helper each calls.\<close>

fun callee_name :: "ikind \<Rightarrow> string" where
  "callee_name (Call (FuncRef nm) args) = nm"
| "callee_name k = []"

definition helper_calls :: "func \<Rightarrow> (nat \<times> string) list" where
  "helper_calls f = map (\<lambda>i. (iid i, callee_name (ikind i))) (filter (\<lambda>i. shouldInlineCall (ikind i)) (func_ins f))"

abbreviation called_helpers :: "func \<Rightarrow> string multiset" where
  "called_helpers f \<equiv> image_mset snd (mset (helper_calls f))"

lemma functionsToInline_calls: "functionsToInline f = map fst (helper_calls f)"
  by (simp add: functionsToInline_def helper_calls_def comp_def)

text \<open>No call goes through an argument or a computed value, which inlining could turn into a call of a helper.\<close>

definition computed :: "val \<Rightarrow> bool" where
  "computed v \<longleftrightarrow> (case v of ArgRef _ \<Rightarrow> True | InsRef _ \<Rightarrow> True | _ \<Rightarrow> False)"

definition settled_kind :: "ikind \<Rightarrow> bool" where
  "settled_kind k \<longleftrightarrow> (case k of Call c args \<Rightarrow> \<not> computed c | _ \<Rightarrow> True)"

definition settled :: "func \<Rightarrow> bool" where
  "settled f \<longleftrightarrow> (\<forall>i \<in> set (func_ins f). settled_kind (ikind i))"

text \<open>
  What \<open>InlineFunction\<close> does, for the bodies it can inline (not a mere declaration, not variadic). Without a body the
  call cannot be inlined. With one the call is replaced by a copy of the body: the other helper calls stay as they are,
  and those that come in are copies of calls in the body, of which LLVM may have dropped some.
\<close>

definition inlines_bodies :: "inline_fn \<Rightarrow> (string \<rightharpoonup> func) \<Rightarrow> bool" where
  "inlines_bodies I body \<longleftrightarrow> (\<forall>f n nm. wf_func f \<and> settled f \<and> (n, nm) \<in> set (helper_calls f) \<longrightarrow>
     (case body nm of
        None \<Rightarrow> I f n = None
      | Some g \<Rightarrow> settled g \<longrightarrow> (\<exists>f' copies. I f n = Some f' \<and> wf_func f' \<and> settled f'
          \<and> mset (helper_calls f') = mset (helper_calls f) - {#(n, nm)#} + mset copies
          \<and> snd ` set copies \<subseteq> snd ` set (helper_calls g))))"

definition settled_bodies :: "(string \<rightharpoonup> func) \<Rightarrow> bool" where
  "settled_bodies body \<longleftrightarrow> (\<forall>nm g. body nm = Some g \<longrightarrow> settled g)"

text \<open>One inlining, as the loop meets it.\<close>

lemma inlines_bodiesD:
  assumes "inlines_bodies I body" and "wf_func f" and "settled f" and "(n, nm) \<in> set (helper_calls f)"
  shows "body nm = None \<Longrightarrow> I f n = None"
    and "settled_bodies body \<Longrightarrow> body nm = Some g \<Longrightarrow> \<exists>f' copies. I f n = Some f' \<and> wf_func f' \<and> settled f'
      \<and> mset (helper_calls f') = mset (helper_calls f) - {#(n, nm)#} + mset copies \<and> snd ` set copies \<subseteq> snd ` set (helper_calls g)"
  using assms(1) [unfolded inlines_bodies_def, rule_format, OF conjI, OF assms(2) conjI, OF assms(3,4)]
  by (auto simp: settled_bodies_def)

text \<open>A helper all of whose calls, and the calls in those bodies, lead to bodies and not round in a circle.\<close>

inductive inlinable :: "(string \<rightharpoonup> func) \<Rightarrow> string \<Rightarrow> bool" for body where
  "body nm = Some g \<Longrightarrow> (\<forall>c \<in> snd ` set (helper_calls g). inlinable body c) \<Longrightarrow> inlinable body nm"

definition helper_order :: "(string \<rightharpoonup> func) \<Rightarrow> (string \<times> string) set" where
  "helper_order body = {(c, nm). inlinable body nm \<and> (\<exists>g. body nm = Some g \<and> c \<in> snd ` set (helper_calls g))}"

lemma wf_helper_order: "wf (helper_order body)"
proof (rule acc_wfI, rule allI)
  fix nm
  have acc: "nm \<in> Wellfounded.acc (helper_order body)" if "inlinable body nm" for nm
    using that
  proof induction
    case (1 nm g)
    show ?case by (rule accI) (use 1 in \<open>auto simp: helper_order_def\<close>)
  qed
  show "nm \<in> Wellfounded.acc (helper_order body)"
  proof (rule accI, rule acc)
    fix c assume "(c, nm) \<in> helper_order body"
    then obtain g where g: "inlinable body nm" "body nm = Some g" "c \<in> snd ` set (helper_calls g)"
      by (auto simp: helper_order_def)
    from g(1) show "inlinable body c" by cases (use g(2,3) in auto)
  qed
qed

definition inlining :: "(string \<rightharpoonup> func) \<Rightarrow> func \<Rightarrow> bool" where
  "inlining body f \<longleftrightarrow> wf_func f \<and> settled f \<and> (\<forall>c \<in># called_helpers f. inlinable body c)"

lemma helper_ids: "wf_func f \<Longrightarrow> distinct (functionsToInline f)"
  by (simp add: functionsToInline_def wf_func_def ins_ids_def distinct_map_filter_key)

lemma other_calls_stay:
  assumes "mset (helper_calls f') = mset (helper_calls f) - {#(n, nm)#} + mset copies"
    and "c \<in> set (helper_calls f)" and "fst c \<noteq> n"
  shows "c \<in> set (helper_calls f')"
proof -
  have "c \<in># mset (helper_calls f) - {#(n, nm)#}" using assms(2,3) by (cases c) (auto simp: in_diff_count)
  then have "c \<in># mset (helper_calls f')" by (simp add: assms(1))
  then show ?thesis by simp
qed

lemma inline_one_call:
  assumes "inlines_bodies I body" and "settled_bodies body" and "inlining body f" and "n \<in> set (functionsToInline f)"
  obtains f' where "I f n = Some f'" "inlining body f'" "(called_helpers f', called_helpers f) \<in> mult (helper_order body)"
    "set (functionsToInline f) - {n} \<subseteq> set (functionsToInline f')"
proof -
  obtain nm where c: "(n, nm) \<in> set (helper_calls f)" using assms(4) by (auto simp: functionsToInline_calls)
  have nm: "inlinable body nm" using assms(3) c by (force simp: inlining_def)
  then obtain g where g: "body nm = Some g" "\<forall>c \<in> snd ` set (helper_calls g). inlinable body c" by cases blast
  obtain f' copies where f': "I f n = Some f'" "wf_func f'" "settled f'" and
    m: "mset (helper_calls f') = mset (helper_calls f) - {#(n, nm)#} + mset copies" and
    new: "snd ` set copies \<subseteq> snd ` set (helper_calls g)"
    using inlines_bodiesD(2) [OF assms(1) _ _ c assms(2) g(1)] assms(3) unfolding inlining_def by blast
  let ?rest = "image_mset snd (mset (helper_calls f) - {#(n, nm)#})" and ?new = "image_mset snd (mset copies)"
  have old: "called_helpers f = ?rest + {#nm#}"
    using c by (metis image_mset_add_mset add_mset_add_single insert_DiffM snd_conv set_mset_mset)
  have calls: "called_helpers f' = ?rest + ?new" by (simp add: m)
  have "(c, nm) \<in> helper_order body" if "c \<in># ?new" for c using that new nm g(1) by (auto simp: helper_order_def)
  then have less: "(called_helpers f', called_helpers f) \<in> mult (helper_order body)"
    unfolding old calls by (intro one_step_implies_mult) auto
  have "inlinable body c" if "c \<in># called_helpers f'" for c
  proof (cases "c \<in># ?rest")
    case True
    then have "c \<in># called_helpers f" unfolding old by simp
    with assms(3) show ?thesis by (auto simp: inlining_def)
  next
    case False
    then have "c \<in> snd ` set (helper_calls g)" using that new unfolding calls by auto
    with g(2) show ?thesis by blast
  qed
  then have "inlining body f'" using f' by (simp add: inlining_def)
  moreover have "set (functionsToInline f) - {n} \<subseteq> set (functionsToInline f')"
    using other_calls_stay [OF m] by (auto simp: functionsToInline_calls)
  ultimately show thesis using that f'(1) less by blast
qed

lemma inline_round:
  assumes "inlines_bodies I body" and "settled_bodies body" and "inlining body (fst st)" and "distinct ns"
    and "set ns \<subseteq> set (functionsToInline (fst st))" and "ns \<noteq> []"
  shows "inlining body (fst (inline_calls I ns st)) \<and> snd (inline_calls I ns st)
    \<and> (called_helpers (fst (inline_calls I ns st)), called_helpers (fst st)) \<in> mult (helper_order body)"
  using assms(3-6)
proof (induction ns arbitrary: st)
  case (Cons n ns)
  obtain f' where f': "I (fst st) n = Some f'" "inlining body f'"
    "(called_helpers f', called_helpers (fst st)) \<in> mult (helper_order body)"
    "set (functionsToInline (fst st)) - {n} \<subseteq> set (functionsToInline f')"
    using inline_one_call [OF assms(1,2) Cons.prems(1), of n] Cons.prems(3) by auto
  have sub: "set ns \<subseteq> set (functionsToInline f')" using Cons.prems(2,3) f'(4) by auto
  show ?case
  proof (cases "ns = []")
    case False
    have "distinct ns" using Cons.prems(2) by simp
    from Cons.IH [of "(f', True)", simplified, OF f'(2) this sub False] show ?thesis
      using f' by (auto simp: mult_def intro: trancl_trans)
  qed (use f' in simp)
qed simp

lemma inline_loop_returns:
  assumes "inlines_bodies I body" and "settled_bodies body" and "inlining body (fst st)"
  shows "\<exists>f'. inline_loop I st = Some (f', snd st \<or> functionsToInline (fst st) \<noteq> [])"
  using assms(3)
proof (induction "called_helpers (fst st)" arbitrary: st rule: wf_induct_rule [OF wf_mult [OF wf_helper_order [of body]]])
  case (1 st)
  show ?case
  proof (cases "functionsToInline (fst st) = []")
    case True
    then show ?thesis by (subst inline_loop.simps) (cases st; simp)
  next
    case False
    let ?st = "inline_calls I (functionsToInline (fst st)) st"
    have "wf_func (fst st)" using "1.prems" by (simp add: inlining_def)
    note r = inline_round [OF assms(1,2) "1.prems" helper_ids [OF this] subset_refl False]
    from "1.hyps" [of ?st] r obtain f' where "inline_loop I ?st = Some (f', True)" by auto
    then show ?thesis by (subst inline_loop.simps) (simp add: False)
  qed
qed

text \<open>A call of a helper without a body is never inlined, so there is always one left.\<close>

definition has_bodiless :: "(string \<rightharpoonup> func) \<Rightarrow> func \<Rightarrow> bool" where
  "has_bodiless body f \<longleftrightarrow> wf_func f \<and> settled f \<and> (\<exists>c \<in> set (helper_calls f). body (snd c) = None)"

lemma bodiless_round:
  assumes "inlines_bodies I body" and "settled_bodies body" and "has_bodiless body (fst st)" and "distinct ns"
    and "set ns \<subseteq> set (functionsToInline (fst st))"
  shows "has_bodiless body (fst (inline_calls I ns st))"
  using assms(3-5)
proof (induction ns arbitrary: st)
  case (Cons n ns)
  let ?f = "fst st"
  obtain c where c: "c \<in> set (helper_calls ?f)" "body (snd c) = None" using Cons.prems(1) by (auto simp: has_bodiless_def)
  obtain nm where n: "(n, nm) \<in> set (helper_calls ?f)" using Cons.prems(3) by (auto simp: functionsToInline_calls)
  have ok: "wf_func ?f" "settled ?f" using Cons.prems(1) by (simp_all add: has_bodiless_def)
  note I = inlines_bodiesD [OF assms(1) ok n]
  show ?case
  proof (cases "body nm")
    case None
    then show ?thesis using I(1) Cons.prems(1) by simp
  next
    case (Some g)
    then obtain f' copies where f': "I ?f n = Some f'" "wf_func f'" "settled f'"
      "mset (helper_calls f') = mset (helper_calls ?f) - {#(n, nm)#} + mset copies"
      using I(2) [OF assms(2)] by blast
    have inj: "inj_on fst (set (helper_calls ?f))"
      using helper_ids [OF ok(1)] by (simp add: functionsToInline_calls distinct_map)
    have "fst c \<noteq> n"
    proof
      assume "fst c = n"
      then have "c = (n, nm)" using inj_onD [OF inj _ c(1) n] by simp
      with c(2) Some show False by simp
    qed
    then have "has_bodiless body f'" using other_calls_stay [OF f'(4) c(1)] c(2) f'(2,3) by (auto simp: has_bodiless_def)
    moreover have "set ns \<subseteq> set (functionsToInline f')"
    proof
      fix m assume m: "m \<in> set ns"
      then obtain x where "(m, x) \<in> set (helper_calls ?f)" using Cons.prems(3) by (auto simp: functionsToInline_calls)
      moreover have "m \<noteq> n" using m Cons.prems(2) by auto
      ultimately have "(m, x) \<in> set (helper_calls f')" using other_calls_stay [OF f'(4)] by simp
      then show "m \<in> set (functionsToInline f')" by (force simp: functionsToInline_calls)
    qed
    ultimately show ?thesis using Cons.IH [of "(f', True)"] Cons.prems(2) f'(1) by simp
  qed
qed simp

lemma inline_loop_bodiless:
  assumes "inlines_bodies I body" and "settled_bodies body" and "inline_loop I st = Some st'"
  shows "\<not> has_bodiless body (fst st)"
proof (rule inline_loop.raw_induct [OF _ assms(3),
      where P = "\<lambda>J st st'. J = I \<longrightarrow> \<not> has_bodiless body (fst st)", THEN mp, OF _ refl])
  fix inline J st st'
  assume ih: "\<And>J st st'. inline J st = Some st' \<Longrightarrow> J = I \<longrightarrow> \<not> has_bodiless body (fst st)"
    and run: "(if functionsToInline (fst st) = [] then Some st
      else inline J (inline_calls J (functionsToInline (fst st)) st)) = Some st'"
  show "J = I \<longrightarrow> \<not> has_bodiless body (fst st)"
  proof (intro impI notI)
    assume J: "J = I" and b: "has_bodiless body (fst st)"
    then have "functionsToInline (fst st) \<noteq> []" by (auto simp: has_bodiless_def functionsToInline_calls)
    then have "inline I (inline_calls I (functionsToInline (fst st)) st) = Some st'" using run J by simp
    moreover have "wf_func (fst st)" using b by (simp add: has_bodiless_def)
    ultimately show False using ih bodiless_round [OF assms(1,2) b helper_ids subset_refl] by blast
  qed
qed

section \<open>Properties\<close>

text \<open>
  C28. When the pass returns, no call to a helper of the list is left; and it never returns when the
  first helper call of the function cannot be inlined.
\<close>

theorem inline_helpers_complete:
  "(\<forall>f' inlined. inline_helpers I f = Some (f', inlined) \<longrightarrow> functionsToInline f' = [])
   \<and> (stuck I f \<longrightarrow> inline_helpers I f = None)"
proof -
  have "functionsToInline f' = []" if "inline_loop I (f, False) = Some (f', ch)" for f' ch
    using inline_loop_done [OF that] by simp
  moreover have "inline_loop I (f, False) = None" if "stuck I f"
    using inline_loop_stuck [of I "(f, False)"] that by (cases "inline_loop I (f, False)") auto
  ultimately show ?thesis by (simp add: inline_helpers_def)
qed

text \<open>A helper call.\<close>

definition helper_tb :: func where
  "helper_tb = \<lparr>fid = 1, fname = ''tb'', fblocks = [\<lparr>bid = 1, bname = ''entry'', bins =
     [mk_ins 1 (Call (FuncRef ''helper_add_cc'') []), mk_ins 2 (Ret None)]\<rparr>]\<rparr>"

theorem inline_helpers_complete_witness:
  "inline_helpers (\<lambda>f n. None) helper_tb = None"
proof -
  have "stuck (\<lambda>f n. None) helper_tb" by (simp add: stuck_def functionsToInline_def helper_tb_def func_ins_def
        shouldInlineCall_def INLINE_FUNCTIONS_def mk_ins_def)
  with inline_helpers_complete [of "\<lambda>f n. None" helper_tb] show ?thesis by blast
qed

section \<open>An inliner\<close>

text \<open>
  For bodies of one block: the instructions of the body with addresses of their own and the arguments put in, in place of
  the call, whose uses get the value returned. The contract holds of it.
\<close>

definition arg_val :: "nat \<Rightarrow> val list \<Rightarrow> val \<Rightarrow> val" where
  "arg_val k args v = (case v of InsRef m \<Rightarrow> InsRef (k + m) | ArgRef j \<Rightarrow> if j < length args then args ! j else v | _ \<Rightarrow> v)"

definition body_copy :: "nat \<Rightarrow> val list \<Rightarrow> func \<Rightarrow> instr list" where
  "body_copy k args g = map (\<lambda>i. \<lparr>iid = k + iid i, ikind = map_vals (arg_val k args) (ikind i), imeta = imeta i\<rparr>)
     (filter (\<lambda>i. \<not> is_term_kind (ikind i)) (func_ins g))"

definition body_result :: "nat \<Rightarrow> val list \<Rightarrow> func \<Rightarrow> val" where
  "body_result k args g = (case map ikind (filter (\<lambda>i. is_ret_kind (ikind i)) (func_ins g)) of
     Ret (Some v) # _ \<Rightarrow> arg_val k args v | _ \<Rightarrow> OtherVal ''undef'')"

definition in_place :: "nat \<Rightarrow> instr list \<Rightarrow> instr list \<Rightarrow> instr list" where
  "in_place n cs is = concat (map (\<lambda>j. if iid j = n then cs else [j]) is)"

definition splice_body :: "(string \<rightharpoonup> func) \<Rightarrow> inline_fn" where
  "splice_body body f n = (case map_option ikind (find_ins f n) of
     Some (Call (FuncRef nm) args) \<Rightarrow> (case body nm of
         None \<Rightarrow> None
       | Some g \<Rightarrow> (let k = fresh_iid f in
           Some (rauw (InsRef n) (body_result k args g)
             (map_blocks (\<lambda>b. b\<lparr>bins := in_place n (body_copy k args g) (bins b)\<rparr>) f))))
   | _ \<Rightarrow> None)"

definition calls_in :: "instr list \<Rightarrow> (nat \<times> string) list" where
  "calls_in is = map (\<lambda>i. (iid i, callee_name (ikind i))) (filter (\<lambda>i. shouldInlineCall (ikind i)) is)"

lemma calls_in_append [simp]: "calls_in (xs @ ys) = calls_in xs @ calls_in ys" "calls_in [] = []"
  by (simp_all add: calls_in_def)

lemma helper_calls_in: "helper_calls f = calls_in (func_ins f)"
  by (simp add: helper_calls_def calls_in_def)

lemma call_kept:
  assumes "settled_kind k" and "\<And>c. \<not> computed c \<Longrightarrow> h c = c"
  shows "shouldInlineCall (map_vals h k) = shouldInlineCall k" and "callee_name (map_vals h k) = callee_name k"
    and "settled_kind (map_vals h k)"
proof -
  have "shouldInlineCall (map_vals h k) = shouldInlineCall k \<and> callee_name (map_vals h k) = callee_name k
    \<and> settled_kind (map_vals h k)"
  proof (cases k)
    case (Call c xs)
    then have "\<not> computed c" using assms(1) by (simp add: settled_kind_def)
    moreover from this have "h c = c" by (rule assms(2))
    ultimately show ?thesis by (cases c) (simp_all add: Call shouldInlineCall_def settled_kind_def)
  qed (simp_all add: shouldInlineCall_def settled_kind_def)
  then show "shouldInlineCall (map_vals h k) = shouldInlineCall k" "callee_name (map_vals h k) = callee_name k"
    "settled_kind (map_vals h k)" by simp_all
qed

lemma calls_map_vals:
  assumes "\<forall>i \<in> set is. settled_kind (ikind i)" and "\<And>c. \<not> computed c \<Longrightarrow> h c = c"
  shows "calls_in (map (\<lambda>i. i\<lparr>ikind := map_vals h (ikind i)\<rparr>) is) = calls_in is"
  using assms by (induction "is") (simp_all add: calls_in_def call_kept)

lemma in_place_calls:
  assumes "distinct (map iid is)" and "i \<in> set is" and "iid i = n" and "shouldInlineCall (ikind i)"
  shows "mset (calls_in (in_place n cs is)) = mset (calls_in is) - {#(n, callee_name (ikind i))#} + mset (calls_in cs)"
proof -
  obtain xs ys where xs: "is = xs @ i # ys" using assms(2) by (auto simp: in_set_conv_decomp)
  have id: "in_place n cs zs = zs" if "n \<notin> iid ` set zs" for zs
    using that by (induction zs) (auto simp: in_place_def)
  have "n \<notin> iid ` set xs" "n \<notin> iid ` set ys" using assms(1,3) by (auto simp: xs)
  then have "in_place n cs is = xs @ cs @ ys"
    using id [of xs] id [of ys] assms(3) by (simp add: xs in_place_def)
  moreover have "calls_in is = calls_in xs @ (n, callee_name (ikind i)) # calls_in ys"
    using assms(3,4) by (simp add: xs calls_in_def)
  ultimately show ?thesis by simp
qed

lemma in_place_ids:
  assumes "distinct (map iid is)" and "distinct (map iid cs)" and "set (map iid cs) \<inter> set (map iid is) = {}"
  shows "distinct (map iid (in_place n cs is)) \<and> set (map iid (in_place n cs is)) \<subseteq> set (map iid is) \<union> set (map iid cs)
    \<and> (n \<notin> set (map iid is) \<longrightarrow> in_place n cs is = is)"
  using assms
proof (induction "is")
  case (Cons j js)
  then have IH: "distinct (map iid (in_place n cs js))" "set (map iid (in_place n cs js)) \<subseteq> set (map iid js) \<union> set (map iid cs)"
    "n \<notin> set (map iid js) \<longrightarrow> in_place n cs js = js" by auto
  have step: "in_place n cs (j # js) = (if iid j = n then cs else [j]) @ in_place n cs js" by (simp add: in_place_def)
  show ?case
  proof (cases "iid j = n")
    case True
    then have "in_place n cs js = js" using IH(3) Cons.prems(1) by auto
    then show ?thesis using True Cons.prems by (auto simp: step)
  next
    case False
    then show ?thesis using IH Cons.prems by (auto simp: step)
  qed
qed (simp add: in_place_def)

lemma func_ins_in_place:
  "concat (map bins (map (\<lambda>b. b\<lparr>bins := in_place n cs (bins b)\<rparr>) bs)) = in_place n cs (concat (map bins bs))"
  by (induction bs) (simp_all add: in_place_def)

lemma arg_val_settled: "\<not> computed c \<Longrightarrow> arg_val k args c = c"
  by (cases c) (simp_all add: arg_val_def computed_def)

lemma body_copy_calls: "settled g \<Longrightarrow> snd ` set (calls_in (body_copy k args g)) \<subseteq> snd ` set (helper_calls g)"
  by (force simp: settled_def body_copy_def calls_in_def helper_calls_def call_kept arg_val_settled)

lemma placed_ins: "func_ins (map_blocks (\<lambda>b. b\<lparr>bins := in_place n cs (bins b)\<rparr>) f) = in_place n cs (func_ins f)"
  using func_ins_in_place [of n cs "fblocks f"] by (simp add: func_ins_def map_blocks_def)

lemma placed_wf:
  assumes "wf_func f" and "wf_func g"
  shows "wf_func (map_blocks (\<lambda>b. b\<lparr>bins := in_place n (body_copy (fresh_iid f) args g) (bins b)\<rparr>) f)" (is "wf_func ?p")
proof -
  let ?cs = "body_copy (fresh_iid f) args g"
  have ids: "distinct (map iid (func_ins f))" "distinct (map bid (fblocks f))" "distinct (map iid (func_ins g))"
    using assms by (simp_all add: wf_func_def ins_ids_def)
  have "fresh_iid f + m \<notin> set (ins_ids f)" for m
    using le_fold_max [of "fresh_iid f + m" "ins_ids f"] by (auto simp: fresh_iid_def)
  then have "set (map iid ?cs) \<inter> set (map iid (func_ins f)) = {}" by (auto simp: body_copy_def ins_ids_def)
  moreover have "distinct (map iid ?cs)"
  proof -
    have "map iid ?cs = map ((+) (fresh_iid f)) (map iid (filter (\<lambda>i. \<not> is_term_kind (ikind i)) (func_ins g)))"
      by (simp add: body_copy_def)
    then show ?thesis by (simp only: distinct_map [of "(+) (fresh_iid f)"]) (simp add: ids(3) distinct_map_filter)
  qed
  ultimately have "distinct (ins_ids ?p)" using in_place_ids [OF ids(1)] by (simp add: ins_ids_def placed_ins)
  moreover have "map bid (fblocks ?p) = map bid (fblocks f)" by (simp add: map_blocks_def comp_def)
  ultimately show ?thesis using ids(2) by (simp add: wf_func_def [of ?p])
qed

lemma placed_settled:
  assumes "settled f" and "settled g" and "j \<in> set (in_place n (body_copy k args g) (func_ins f))"
  shows "settled_kind (ikind j)"
proof -
  have "settled_kind (ikind j)" if "j \<in> set (body_copy k args g)" for j
    using that assms(2) by (auto simp: body_copy_def settled_def call_kept(3) arg_val_settled)
  then show ?thesis using assms(1,3) by (auto simp: in_place_def settled_def split: if_splits)
qed

lemma splice_inlines:
  assumes "\<forall>nm g. body nm = Some g \<longrightarrow> wf_func g"
  shows "inlines_bodies (splice_body body) body"
  unfolding inlines_bodies_def
proof (intro allI impI, elim conjE)
  fix f n nm assume f: "wf_func f" "settled f" and c: "(n, nm) \<in> set (helper_calls f)"
  obtain i where i: "i \<in> set (func_ins f)" "iid i = n" "shouldInlineCall (ikind i)" "callee_name (ikind i) = nm"
    using c by (auto simp: helper_calls_def)
  obtain args where k: "ikind i = Call (FuncRef nm) args"
    using i(3,4) by (auto simp: shouldInlineCall_def split: ikind.splits val.splits)
  have found: "find_ins f n = Some i" using find_ins_unique [OF f(1) i(1)] i(2) by simp
  show "case body nm of None \<Rightarrow> splice_body body f n = None
    | Some g \<Rightarrow> settled g \<longrightarrow> (\<exists>f' copies. splice_body body f n = Some f' \<and> wf_func f' \<and> settled f'
        \<and> mset (helper_calls f') = mset (helper_calls f) - {#(n, nm)#} + mset copies
        \<and> snd ` set copies \<subseteq> snd ` set (helper_calls g))"
  proof (cases "body nm")
    case None
    then show ?thesis by (simp add: splice_body_def found k)
  next
    case (Some g)
    let ?cs = "body_copy (fresh_iid f) args g" and ?h = "subst_val (InsRef n) (body_result (fresh_iid f) args g)"
    let ?p = "map_blocks (\<lambda>b. b\<lparr>bins := in_place n ?cs (bins b)\<rparr>) f"
    let ?f = "rauw (InsRef n) (body_result (fresh_iid f) args g) ?p"
    have h: "?h c = c" if "\<not> computed c" for c using that by (auto simp: computed_def)
    have settled: "\<forall>j \<in> set (func_ins ?p). settled_kind (ikind j)" if "settled g"
      using placed_settled [OF f(2) that] by (simp add: placed_ins)
    have ids: "distinct (map iid (func_ins f))" using f(1) by (simp add: wf_func_def ins_ids_def)
    have wf: "wf_func ?f" using placed_wf [OF f(1), of g n args] assms Some by simp
    have ins: "func_ins ?f = map (\<lambda>i. i\<lparr>ikind := map_vals ?h (ikind i)\<rparr>) (func_ins ?p)"
      by (simp add: rauw_def subst_kind_map_vals del: subst_val.simps)
    show ?thesis
    proof (simp add: Some, intro impI exI conjI)
      assume g: "settled g"
      show "splice_body body f n = Some ?f" by (simp add: splice_body_def found k Some Let_def)
      show "wf_func ?f" by (rule wf)
      show "settled ?f" using settled [OF g] h unfolding settled_def ins by (auto intro: call_kept(3) simp del: subst_val.simps)
      show "mset (helper_calls ?f) = mset (helper_calls f) - {#(n, nm)#} + mset (calls_in ?cs)"
      proof -
        have "calls_in (func_ins ?f) = calls_in (in_place n ?cs (func_ins f))"
          unfolding ins by (subst calls_map_vals [OF settled [OF g] h]) (simp_all add: placed_ins)
        then show ?thesis using in_place_calls [OF ids i(1-3)] i(4) by (simp add: helper_calls_in)
      qed
      show "snd ` set (calls_in ?cs) \<subseteq> snd ` set (helper_calls g)" by (rule body_copy_calls [OF g])
    qed
  qed
qed

text \<open>
  C29. The pass returns, with no helper call left, when every helper called leads to bodies only and not back to itself:
  each inlining replaces a call by calls further down the call graph of the helpers. It reports a change exactly when
  there was a call. When one of the helpers called has no body to inline it never returns.
\<close>

theorem inline_helpers_returns:
  assumes "inlines_bodies I body" and "settled_bodies body" and "wf_func f" and "settled f"
  shows "((\<forall>c \<in> set (helper_calls f). inlinable body (snd c)) \<longrightarrow>
      (\<exists>f'. inline_helpers I f = Some (f', helper_calls f \<noteq> []) \<and> helper_calls f' = []))
    \<and> ((\<exists>c \<in> set (helper_calls f). body (snd c) = None) \<longrightarrow> inline_helpers I f = None)"
proof (intro conjI impI)
  assume "\<forall>c \<in> set (helper_calls f). inlinable body (snd c)"
  then have "inlining body (fst (f, False))" using assms(3,4) by (simp add: inlining_def)
  from inline_loop_returns [OF assms(1,2) this] obtain f' where
    r: "inline_loop I (f, False) = Some (f', helper_calls f \<noteq> [])" by (auto simp: functionsToInline_calls)
  then show "\<exists>f'. inline_helpers I f = Some (f', helper_calls f \<noteq> []) \<and> helper_calls f' = []"
    using inline_loop_done [OF r] by (simp add: inline_helpers_def functionsToInline_calls)
next
  assume "\<exists>c \<in> set (helper_calls f). body (snd c) = None"
  then have "has_bodiless body (fst (f, False))" using assms(3,4) by (simp add: has_bodiless_def)
  then show "inline_helpers I f = None"
    using inline_loop_bodiless [OF assms(1,2)] by (cases "inline_loop I (f, False)") (auto simp: inline_helpers_def)
qed

text \<open>A block that calls a helper whose body calls another one.\<close>

definition add_body :: func where
  "add_body = \<lparr>fid = 3, fname = ''helper_add_cc'', fblocks = [\<lparr>bid = 1, bname = ''entry'', bins =
     [mk_ins 1 (BinOp AddOp (ArgRef 0) (ArgRef 1)), mk_ins 2 (Ret (Some (InsRef 1)))]\<rparr>]\<rparr>"

definition adc_body :: func where
  "adc_body = \<lparr>fid = 2, fname = ''helper_adc_cc'', fblocks = [\<lparr>bid = 1, bname = ''entry'', bins =
     [mk_ins 1 (Call (FuncRef ''helper_add_cc'') [ArgRef 0, ConstInt 32 1]), mk_ins 2 (Ret (Some (InsRef 1)))]\<rparr>]\<rparr>"

definition demo_bodies :: "string \<rightharpoonup> func" where
  "demo_bodies = [''helper_adc_cc'' \<mapsto> adc_body, ''helper_add_cc'' \<mapsto> add_body]"

definition adc_tb :: func where
  "adc_tb = \<lparr>fid = 1, fname = ''tb'', fblocks = [\<lparr>bid = 1, bname = ''entry'', bins =
     [mk_ins 1 (Call (FuncRef ''helper_adc_cc'') [ConstInt 32 7]), mk_ins 2 (Store (InsRef 1) (GlobalVar ''R0'')), mk_ins 3 (Ret None)]\<rparr>]\<rparr>"

lemma demo_bodies_ok:
  "helper_calls add_body = []" "helper_calls adc_body = [(1, ''helper_add_cc'')]" "settled add_body" "settled adc_body"
  "wf_func add_body" "wf_func adc_body"
  by (simp_all add: add_body_def adc_body_def helper_calls_def func_ins_def shouldInlineCall_def INLINE_FUNCTIONS_def
      settled_def settled_kind_def computed_def wf_func_def ins_ids_def)

lemma demo_bodies_inlinable: "inlinable demo_bodies ''helper_adc_cc''"
proof -
  have "inlinable demo_bodies ''helper_add_cc''"
    by (rule inlinable.intros [of _ _ add_body]) (simp_all add: demo_bodies_def demo_bodies_ok)
  then show ?thesis
    by (intro inlinable.intros [of _ _ adc_body]) (simp_all add: demo_bodies_ok, simp add: demo_bodies_def)
qed

theorem inline_helpers_returns_witness:
  "\<exists>f'. inline_helpers (splice_body demo_bodies) adc_tb = Some (f', True) \<and> helper_calls f' = []"
proof -
  have "inlines_bodies (splice_body demo_bodies) demo_bodies"
    by (rule splice_inlines) (simp add: demo_bodies_def demo_bodies_ok)
  moreover have "settled_bodies demo_bodies"
    by (simp add: settled_bodies_def demo_bodies_def demo_bodies_ok)
  moreover have "wf_func adc_tb" "settled adc_tb"
    by (simp_all add: adc_tb_def wf_func_def ins_ids_def settled_def func_ins_def settled_kind_def computed_def)
  moreover have "helper_calls adc_tb = [(1, ''helper_adc_cc'')]"
    by (simp add: adc_tb_def helper_calls_def func_ins_def shouldInlineCall_def INLINE_FUNCTIONS_def)
  ultimately show ?thesis
    using inline_helpers_returns [of "splice_body demo_bodies" demo_bodies adc_tb] demo_bodies_inlinable by simp
qed

end
