(* ===== verification/Disassembler.thy ===== *)
theory Disassembler
  imports Env_Transform Inline_Helpers Const_Loads Schedule
begin

unbundle bit_operations_syntax

text \<open>
  \<open>RecursiveDescentDisassembler\<close>, the plugin that drives the translation of a binary: every block that is
  about to execute is harvested, its possible targets are scheduled, and the machine is sent to the
  next scheduled program counter until none is left. The ARM build is modelled. QEMU is a parameter: what it
  translates at a program counter in a mode, which addresses hold code, and the memory.
\<close>

section \<open>The plugin and the machine\<close>

record dis =
  m_firstTranslation :: bool
  m_visitedPC :: "u64 \<rightharpoonup> bool"
  m_visitedPCIntervals :: "(u64 \<times> u64) list"
  m_scheduledPCsMap :: "u64 \<rightharpoonup> bool"
  m_scheduledPCsVector :: "u64 list"
  mapJumpTableInfo :: "u64 \<rightharpoonup> jump_table_info"
  m_isPCThumb :: "u64 \<rightharpoonup> bool"
  m_allBasicBlocks :: "translated_bb list"
  m_tbModule :: lmodule

text \<open>The program counter and the \<open>thumb\<close> word of the CPU.\<close>

record cpu =
  cpu_pc :: u64
  cpu_thumb :: u32

record qemu =
  tb_function :: "u64 \<Rightarrow> u32 \<Rightarrow> func"
  tb_end :: "u64 \<Rightarrow> u32 \<Rightarrow> u64"
  tb_view :: "func \<Rightarrow> llvm_view"
  inline_function :: inline_fn
  read_mem32 :: "u64 \<Rightarrow> u32"
  is_valid_code_addr :: "u64 \<Rightarrow> bool"

definition real_pc :: "u64 \<Rightarrow> u64" where
  "real_pc a = a AND - 2"

section \<open>The intervals given at the start\<close>

text \<open>
  \<open>idx < m_visitedPCIntervals.size()\<close> compares an \<open>int\<close> with an unsigned size: a negative index is
  larger than any size.
\<close>

definition below_size :: "(u64 \<times> u64) list \<Rightarrow> int \<Rightarrow> bool" where
  "below_size ivs idx \<longleftrightarrow> 0 \<le> idx \<and> idx < int (length ivs)"

function linear_from :: "(u64 \<times> u64) list \<Rightarrow> u64 \<Rightarrow> int \<Rightarrow> bool" where
  "linear_from ivs pc idx =
     (if \<not> below_size ivs idx then False
      else if fst (ivs ! nat idx) \<le> pc \<and> pc \<le> snd (ivs ! nat idx) then True
      else if fst (ivs ! nat idx) > pc then False
      else linear_from ivs pc (idx + 1))"
  by pat_completeness auto
termination
  by (relation "measure (\<lambda>(ivs, pc, idx). nat (int (length ivs) - idx))") (auto simp: below_size_def)

declare linear_from.simps [simp del]

definition isPCInVisitedIntervalsLinear :: "(u64 \<times> u64) list \<Rightarrow> u64 \<Rightarrow> bool" where
  "isPCInVisitedIntervalsLinear ivs pc = linear_from ivs pc 0"

text \<open>
  The bisection declares a variable \<open>mid\<close> of its own, so what it finds is lost: the outer \<open>mid\<close>
  keeps its initial value. \<open>bisect\<close> is that inner \<open>mid\<close>, when the loop is left by its \<open>break\<close>.
\<close>

function bisect :: "(u64 \<times> u64) list \<Rightarrow> u64 \<Rightarrow> int \<Rightarrow> int \<Rightarrow> int option" where
  "bisect ivs pc a b =
     (if a > b then None
      else (let mid = (a + b) div 2 in
        if fst (ivs ! nat mid) = pc then Some mid
        else if fst (ivs ! nat mid) > pc then bisect ivs pc a (mid - 1)
        else bisect ivs pc (mid + 1) b))"
  by pat_completeness auto
termination
  by (relation "measure (\<lambda>(ivs, pc, a, b). nat (b + 1 - a))") auto

declare bisect.simps [simp del]

function adjust_left :: "(u64 \<times> u64) list \<Rightarrow> u64 \<Rightarrow> int \<Rightarrow> int" where
  "adjust_left ivs pc idx =
     (if 0 \<le> idx \<and> fst (ivs ! nat idx) = pc then adjust_left ivs pc (idx - 1) else idx)"
  by pat_completeness auto
termination
  by (relation "measure (\<lambda>(ivs, pc, idx). nat (idx + 1))") auto

declare adjust_left.simps [simp del]

definition isPCInVisitedIntervalsBsearch :: "(u64 \<times> u64) list \<Rightarrow> u64 \<Rightarrow> bool" where
  "isPCInVisitedIntervalsBsearch ivs pc =
     (let b = int (length ivs) - 1; mid = - 1 in
      if 0 > b then False
      else (case bisect ivs pc 0 b of _ \<Rightarrow> linear_from ivs pc (adjust_left ivs pc mid)))"

section \<open>Scheduling\<close>

definition explorePCLater :: "u64 \<Rightarrow> dis \<Rightarrow> bool \<times> dis" where
  "explorePCLater pc d =
     (if m_visitedPC d pc \<noteq> None \<or> m_scheduledPCsMap d pc \<noteq> None then (False, d)
      else if isPCInVisitedIntervalsBsearch (m_visitedPCIntervals d) pc then (False, d)
      else (True, d\<lparr>m_scheduledPCsVector := m_scheduledPCsVector d @ [pc],
                    m_scheduledPCsMap := (m_scheduledPCsMap d)(pc \<mapsto> True)\<rparr>))"

definition moreToExplore :: "dis \<Rightarrow> bool" where
  "moreToExplore d \<longleftrightarrow> m_scheduledPCsVector d \<noteq> []"

text \<open>\<open>getNextRealPC\<close>: the last scheduled one. It stays in the map of scheduled program counters.\<close>

definition getNextRealPC :: "dis \<Rightarrow> (u64 \<times> dis) res" where
  "getNextRealPC d = rbind (require (moreToExplore d) (AssertFailed ''moreToExplore()'')) (\<lambda>_.
     let nextPC = last (m_scheduledPCsVector d) in
     Inr (nextPC, d\<lparr>m_scheduledPCsVector := butlast (m_scheduledPCsVector d),
                   m_scheduledPCsMap := (m_scheduledPCsMap d)(nextPC \<mapsto> False)\<rparr>))"

definition prepareStateForNextRealPC :: "qemu \<Rightarrow> u64 \<Rightarrow> dis \<Rightarrow> (bool \<times> dis \<times> cpu) res" where
  "prepareStateForNextRealPC q realPC d =
     rbind (require (realPC AND 1 = 0) (AssertFailed ''(realPC & 0x1) == 0x0'')) (\<lambda>_.
     let d' = (if m_isPCThumb d realPC = None then d\<lparr>m_isPCThumb := (m_isPCThumb d)(realPC \<mapsto> False)\<rparr> else d) in
     Inr (is_valid_code_addr q realPC, d',
          \<lparr>cpu_pc = realPC, cpu_thumb = (if m_isPCThumb d' realPC = Some True then 1 else 0)\<rparr>))"

text \<open>
  The \<open>while\<close> loop at the end of the slot: send the machine to the next scheduled program counter
  that holds code, or stop when there is none.
\<close>

datatype outcome = CpuExit dis cpu | Exited dis lmodule

function next_scheduled :: "qemu \<Rightarrow> dis \<Rightarrow> (dis \<times> cpu option) res" where
  "next_scheduled q d =
     (if \<not> moreToExplore d then Inr (d, None)
      else (case getNextRealPC d of
          Inl e \<Rightarrow> Inl e
        | Inr (nextPC, d1) \<Rightarrow> (case prepareStateForNextRealPC q nextPC d1 of
            Inl e \<Rightarrow> Inl e
          | Inr (ok, d2, c) \<Rightarrow> if ok then Inr (d2, Some c) else next_scheduled q d2)))"
  by pat_completeness auto
termination
  by (relation "measure (\<lambda>(q, d). length (m_scheduledPCsVector d))")
     (auto simp: getNextRealPC_def prepareStateForNextRealPC_def moreToExplore_def rbind_eq_Inr Let_def
       split: if_splits)

declare next_scheduled.simps [simp del]

section \<open>slotExecuteBlockStart\<close>

text \<open>
  The targets of the jump table at a program counter, read from memory four bytes apart. The code computes an entry's offset
  as an \<open>int\<close>, the model in 64 bits: the two agree up to \<open>2 ^ 29\<close> entries, a table of two gigabytes.
\<close>

definition jump_table_pcs :: "qemu \<Rightarrow> (u64 \<rightharpoonup> jump_table_info) \<Rightarrow> u64 \<Rightarrow> u64 \<Rightarrow> u64 list res" where
  "jump_table_pcs q jt pc first_pc_after = (case jt pc of
     None \<Rightarrow> Inr []
   | Some info \<Rightarrow>
       if jt_bb_end info \<noteq> first_pc_after then Inr []
       else rbind (require (1 \<le> entry_count info) (AssertFailed ''cnt_entries >= 1'')) (\<lambda>_.
         Inr (map (\<lambda>i. ucast (read_mem32 q (base_table info + 4 * of_nat i))) [0..<nat (entry_count info)]
              @ [default_case_pc info])))"

text \<open>One target: scheduled, and its mode recorded (also when it was scheduled before).\<close>

definition schedule_target :: "thumb_bit_t \<Rightarrow> u64 option \<Rightarrow> bool \<Rightarrow> u64 \<Rightarrow> dis \<Rightarrow> dis" where
  "schedule_target thumbBit implicit thumbMode t d =
     (let d1 = snd (explorePCLater (real_pc t) d);
          isThumb = (if implicit = Some t then thumbMode
                     else (case thumbBit of THUMB_BIT_SET \<Rightarrow> True | THUMB_BIT_UNSET \<Rightarrow> False
                           | THUMB_BIT_UNDEFINED \<Rightarrow> thumbMode)) in
      d1\<lparr>m_isPCThumb := (m_isPCThumb d1)(real_pc t \<mapsto> isThumb)\<rparr>)"

text \<open>The three passes on the block: the targets, inlining and renaming; a pass that never returns is a fault.\<close>

definition rewrite_block :: "qemu \<Rightarrow> func \<Rightarrow> lmodule \<Rightarrow> (func \<times> lmodule) res" where
  "rewrite_block q bbFunction m = (case inline_helpers (inline_function q) bbFunction of
     None \<Rightarrow> Inl OutOfFuel
   | Some (f1, _) \<Rightarrow> transform_pass (tb_view q f1) f1 m)"

definition set_entry_name :: "func \<Rightarrow> func" where
  "set_entry_name f = (case fblocks f of
     [] \<Rightarrow> f
   | b # bs \<Rightarrow> f\<lparr>fblocks := b\<lparr>bname := ''func_entry_point''\<rparr> # bs\<rparr>)"

text \<open>The recorded block and its possible program counters, before any of them is scheduled.\<close>

definition harvest_block :: "qemu \<Rightarrow> dis \<Rightarrow> cpu \<Rightarrow> (dis \<times> thumb_bit_t \<times> u64 option \<times> u64 list) res" where
  "harvest_block q d c =
     (let pc = cpu_pc c; bbFunction = tb_function q pc (cpu_thumb c); pcEnd = tb_end q pc (cpu_thumb c) in
      rbind (extract_possible_targets (getName (tb_view q bbFunction)) bbFunction) (\<lambda>ts.
      rbind (rewrite_block q bbFunction (m_tbModule d)) (\<lambda>(f, m).
      rbind (require (pc < pcEnd) (AssertFailed ''m_pcStart < m_pcEnd'')) (\<lambda>_.
      let f' = (if m_firstTranslation d then set_entry_name f else f);
          d1 = d\<lparr>m_tbModule := m, m_firstTranslation := False, m_visitedPC := (m_visitedPC d)(pc \<mapsto> True),
                 m_allBasicBlocks := m_allBasicBlocks d @ [\<lparr>m_bbFunction = f', m_pcStart = pc, m_pcEnd = pcEnd\<rparr>]\<rparr> in
      rbind (getThumbBit f') (\<lambda>thumbBit.
      rbind (jump_table_pcs q (mapJumpTableInfo d1) pc pcEnd) (\<lambda>table.
        Inr (d1, thumbBit, implicitTarget ts, targetPCs ts @ table)))))))"

definition mode_differs :: "dis \<Rightarrow> cpu \<Rightarrow> bool" where
  "mode_differs d c \<longleftrightarrow> (case m_isPCThumb d (real_pc (cpu_pc c)) of
     None \<Rightarrow> False
   | Some thisIsForSureThumbMode \<Rightarrow> (cpu_thumb c \<noteq> 0) \<noteq> thisIsForSureThumbMode)"

definition slotExecuteBlockStart :: "clone_fn \<Rightarrow> qemu \<Rightarrow> dis \<Rightarrow> cpu \<Rightarrow> outcome res" where
  "slotExecuteBlockStart clone q d c =
     (if mode_differs d c then Inr (CpuExit d (c\<lparr>cpu_thumb := (if cpu_thumb c \<noteq> 0 then 0 else 1)\<rparr>))
      else
        rbind (harvest_block q d c) (\<lambda>(d1, thumbBit, implicit, allPossiblePCs).
        let d2 = fold (schedule_target thumbBit implicit (cpu_thumb c \<noteq> 0)) allPossiblePCs d1 in
        rbind (next_scheduled q d2) (\<lambda>(d3, next). Inr (case next of
            Some c' \<Rightarrow> CpuExit d3 c'
          | None \<Rightarrow> Exited d3 (createAndSaveTranslatedBasicBlocksAsAModule clone (m_allBasicBlocks d3))))))"

section \<open>The bisection finds nothing\<close>

lemma bsearch_false: "\<not> isPCInVisitedIntervalsBsearch ivs pc"
proof -
  have "adjust_left ivs pc (- 1) = - 1" by (subst adjust_left.simps) simp
  moreover have "\<not> linear_from ivs pc (- 1)" by (subst linear_from.simps) (simp add: below_size_def)
  ultimately show ?thesis by (auto simp: isPCInVisitedIntervalsBsearch_def Let_def split: option.splits)
qed

text \<open>The linear search, on intervals sorted by their start, is what the bisection was meant to compute.\<close>

lemma linear_from_sorted:
  "sorted (map fst ivs) \<Longrightarrow> 0 \<le> idx \<Longrightarrow>
   linear_from ivs pc idx \<longleftrightarrow> (\<exists>k. nat idx \<le> k \<and> k < length ivs \<and> fst (ivs ! k) \<le> pc \<and> pc \<le> snd (ivs ! k))"
proof (induction ivs pc idx rule: linear_from.induct)
  case (1 ivs pc idx)
  note sorted = "1.prems"(1) and pos = "1.prems"(2)
  show ?case
  proof (cases "below_size ivs idx")
    case False
    then show ?thesis using pos by (subst linear_from.simps) (auto simp: below_size_def)
  next
    case b: True
    show ?thesis
    proof (cases "fst (ivs ! nat idx) \<le> pc")
      case True
      have "linear_from ivs pc idx \<longleftrightarrow> pc \<le> snd (ivs ! nat idx) \<or> linear_from ivs pc (idx + 1)"
        using True b by (subst linear_from.simps) auto
      moreover have nl: "\<not> pc < fst (ivs ! nat idx)" using True by simp
      moreover have ih: "\<not> pc \<le> snd (ivs ! nat idx) \<Longrightarrow> linear_from ivs pc (idx + 1) \<longleftrightarrow>
          (\<exists>k. nat (idx + 1) \<le> k \<and> k < length ivs \<and> fst (ivs ! k) \<le> pc \<and> pc \<le> snd (ivs ! k))"
        using 1(1) b True nl sorted pos by simp
      moreover have "pc \<le> snd (ivs ! nat idx) \<or> linear_from ivs pc (idx + 1) \<longleftrightarrow>
          pc \<le> snd (ivs ! nat idx) \<or> (\<exists>k. nat (idx + 1) \<le> k \<and> k < length ivs \<and> fst (ivs ! k) \<le> pc \<and> pc \<le> snd (ivs ! k))"
        using ih by blast
      moreover have "nat idx \<le> k \<longleftrightarrow> k = nat idx \<or> nat (idx + 1) \<le> k" for k using pos by auto
      ultimately show ?thesis using True b pos by (auto simp: below_size_def nat_less_iff)
    next
      case False
      have "fst (ivs ! nat idx) \<le> fst (ivs ! k)" if "nat idx \<le> k" "k < length ivs" for k
        using sorted_nth_mono [OF sorted, of "nat idx" k] that by simp
      then have "\<nexists>k. nat idx \<le> k \<and> k < length ivs \<and> fst (ivs ! k) \<le> pc \<and> pc \<le> snd (ivs ! k)"
        using False by (meson order_trans)
      moreover have "\<not> linear_from ivs pc idx" using False b by (subst linear_from.simps) auto
      ultimately show ?thesis by blast
    qed
  qed
qed

lemma and_not_one: "(x :: u64) AND 1 = 0 \<Longrightarrow> x AND - 2 = x"
proof -
  assume e: "x AND 1 = 0"
  have "x = (x AND 1) OR (x AND NOT 1)" by (simp add: bit.conj_disj_distrib [symmetric])
  also have "\<dots> = x AND NOT 1" by (simp add: e)
  finally show ?thesis by simp
qed

lemma real_pc_even: "real_pc x AND 1 = 0"
proof -
  have "(- 2 :: u64) AND 1 = 0" by simp
  then show ?thesis by (simp add: real_pc_def and.assoc)
qed

section \<open>Scheduling happens once\<close>

definition seen_pcs :: "dis \<Rightarrow> u64 set" where
  "seen_pcs d = dom (m_visitedPC d) \<union> dom (m_scheduledPCsMap d)"

abbreviation explore_later :: "u64 \<Rightarrow> dis \<Rightarrow> dis" where
  "explore_later pc d \<equiv> snd (explorePCLater pc d)"

interpretation pc_once: schedule_once id explore_later m_scheduledPCsVector seen_pcs
  by unfold_locales (auto simp: explorePCLater_def bsearch_false seen_pcs_def)

lemma explore_later_thumb:
  "explore_later pc (d\<lparr>m_isPCThumb := X\<rparr>) = (explore_later pc d)\<lparr>m_isPCThumb := X\<rparr>"
  by (simp add: explorePCLater_def)

lemma sched_all_thumb:
  "pc_once.sched_all pcs (d\<lparr>m_isPCThumb := X\<rparr>) = (pc_once.sched_all pcs d)\<lparr>m_isPCThumb := X\<rparr>"
  by (induction pcs arbitrary: d) (simp_all add: explore_later_thumb)

lemma schedule_targets_eq:
  "\<exists>X. fold (schedule_target tb imp mode) ts d = (pc_once.sched_all (map real_pc ts) d)\<lparr>m_isPCThumb := X\<rparr>"
proof (induction ts arbitrary: d)
  case Nil
  show ?case by (rule exI [of _ "m_isPCThumb d"]) simp
next
  case (Cons t ts)
  obtain Y where Y: "schedule_target tb imp mode t d = (explore_later (real_pc t) d)\<lparr>m_isPCThumb := Y\<rparr>"
    by (simp add: schedule_target_def Let_def)
  from Cons.IH [of "schedule_target tb imp mode t d"] show ?case
    by (auto simp: Y sched_all_thumb)
qed

text \<open>Everything but the schedule and the modes stays.\<close>

definition frame :: "dis \<Rightarrow> bool \<times> (u64 \<rightharpoonup> bool) \<times> (u64 \<rightharpoonup> jump_table_info) \<times> translated_bb list" where
  "frame d = (m_firstTranslation d, m_visitedPC d, mapJumpTableInfo d, m_allBasicBlocks d)"

lemma frame_sched_all: "frame (pc_once.sched_all pcs d) = frame d"
proof (induction pcs arbitrary: d)
  case (Cons pc pcs)
  have "frame (explore_later pc d) = frame d" by (simp add: explorePCLater_def frame_def)
  with Cons.IH show ?case by simp
qed simp

lemma next_scheduled_step:
  assumes "next_scheduled q d = Inr (d', r)"
  shows "\<exists>popped. m_scheduledPCsVector d = m_scheduledPCsVector d' @ popped
      \<and> dom (m_scheduledPCsMap d') = dom (m_scheduledPCsMap d) \<union> set popped \<and> frame d' = frame d
      \<and> (case r of
          None \<Rightarrow> m_scheduledPCsVector d' = [] \<and> (\<forall>pc \<in> set popped. \<not> is_valid_code_addr q pc)
        | Some c \<Rightarrow> \<not> mode_differs d' c \<and> popped \<noteq> [] \<and> hd popped = cpu_pc c \<and> is_valid_code_addr q (cpu_pc c)
            \<and> (\<forall>pc \<in> set (tl popped). \<not> is_valid_code_addr q pc))"
  using assms
proof (induction q d rule: next_scheduled.induct)
  case (1 q d)
  show ?case
  proof (cases "moreToExplore d")
    case False
    then show ?thesis using "1.prems" by (subst (asm) next_scheduled.simps) (auto simp: moreToExplore_def)
  next
    case True
    obtain pc d1 where g: "getNextRealPC d = Inr (pc, d1)"
      using True by (simp add: getNextRealPC_def Let_def)
    obtain ok d2 c where p: "prepareStateForNextRealPC q pc d1 = Inr (ok, d2, c)"
      using "1.prems" True g by (subst (asm) next_scheduled.simps) (auto split: sum.splits)
    have v: "m_scheduledPCsVector d = m_scheduledPCsVector d1 @ [pc]"
      "dom (m_scheduledPCsMap d1) = insert pc (dom (m_scheduledPCsMap d))" "frame d1 = frame d"
      using g True by (auto simp: getNextRealPC_def moreToExplore_def Let_def frame_def)
    have p': "m_scheduledPCsVector d2 = m_scheduledPCsVector d1" "m_scheduledPCsMap d2 = m_scheduledPCsMap d1"
      "frame d2 = frame d1" "ok = is_valid_code_addr q pc" "cpu_pc c = pc" "\<not> mode_differs d2 c"
      using p by (auto simp: prepareStateForNextRealPC_def rbind_eq_Inr Let_def frame_def mode_differs_def
          real_pc_def and_not_one split: if_splits option.splits)
    have step: "if ok then Inr (d2, Some c) = (Inr (d', r) :: (dis \<times> cpu option) res)
        else next_scheduled q d2 = Inr (d', r)"
      using "1.prems" True g p by (subst (asm) next_scheduled.simps) (auto split: if_splits)
    show ?thesis
    proof (cases ok)
      case True
      then show ?thesis using step v p' by (intro exI [of _ "[pc]"]) auto
    next
      case False
      then have nx: "next_scheduled q d2 = Inr (d', r)" using step by simp
      have "\<not> \<not> moreToExplore d" using True by simp
      from 1(1) [OF this g refl p refl refl False nx] obtain popped where
        "m_scheduledPCsVector d2 = m_scheduledPCsVector d' @ popped"
        "dom (m_scheduledPCsMap d') = dom (m_scheduledPCsMap d2) \<union> set popped" "frame d' = frame d2"
        "case r of None \<Rightarrow> m_scheduledPCsVector d' = [] \<and> (\<forall>pc \<in> set popped. \<not> is_valid_code_addr q pc)
         | Some c \<Rightarrow> \<not> mode_differs d' c \<and> popped \<noteq> [] \<and> hd popped = cpu_pc c \<and> is_valid_code_addr q (cpu_pc c)
            \<and> (\<forall>pc \<in> set (tl popped). \<not> is_valid_code_addr q pc)"
        by blast
      then show ?thesis using v p' False
        by (intro exI [of _ "popped @ [pc]"]) (auto split: option.splits)
    qed
  qed
qed

section \<open>The whole run\<close>

lemma harvest_frame:
  assumes "harvest_block q d c = Inr (d1, tb, imp, ts)"
  shows "m_scheduledPCsVector d1 = m_scheduledPCsVector d \<and> m_scheduledPCsMap d1 = m_scheduledPCsMap d
    \<and> m_visitedPC d1 = (m_visitedPC d)(cpu_pc c \<mapsto> True) \<and> mapJumpTableInfo d1 = mapJumpTableInfo d
    \<and> (\<exists>f. m_allBasicBlocks d1 = m_allBasicBlocks d @ [\<lparr>m_bbFunction = f, m_pcStart = cpu_pc c, m_pcEnd = tb_end q (cpu_pc c) (cpu_thumb c)\<rparr>])
    \<and> cpu_pc c < tb_end q (cpu_pc c) (cpu_thumb c)"
  using assms by (auto simp: harvest_block_def rbind_eq_Inr Let_def)

text \<open>One visit lowers the number of program counters not seen plus those pending, unless it only changes the mode.\<close>

definition work_left :: "dis \<Rightarrow> nat" where
  "work_left d = pc_once.potential UNIV d"

lemma work_left_cong:
  "seen_pcs d' = seen_pcs d \<Longrightarrow> m_scheduledPCsVector d' = m_scheduledPCsVector d \<Longrightarrow> work_left d' = work_left d"
  by (simp add: work_left_def pc_once.potential_def)

lemma work_left_mono:
  assumes "seen_pcs d \<subseteq> seen_pcs d'" and "length (m_scheduledPCsVector d') + n \<le> length (m_scheduledPCsVector d)"
  shows "work_left d' + n \<le> work_left d"
proof -
  have "card (UNIV - seen_pcs d') \<le> card (UNIV - seen_pcs d)"
    using assms(1) by (intro card_mono) auto
  with assms(2) show ?thesis by (simp add: work_left_def pc_once.potential_def)
qed

lemma visit_work:
  assumes h: "harvest_block q d c = Inr (d1, tb, imp, ts)"
    and n: "next_scheduled q (fold (schedule_target tb imp mode) ts d1) = Inr (d3, Some c')"
  shows "work_left d3 < work_left d \<and> \<not> mode_differs d3 c'"
proof -
  obtain X where X: "fold (schedule_target tb imp mode) ts d1 = (pc_once.sched_all (map real_pc ts) d1)\<lparr>m_isPCThumb := X\<rparr>"
    using schedule_targets_eq by blast
  let ?d2 = "pc_once.sched_all (map real_pc ts) d1"
  obtain popped where p: "m_scheduledPCsVector ?d2 = m_scheduledPCsVector d3 @ popped" "popped \<noteq> []"
    "dom (m_scheduledPCsMap d3) = dom (m_scheduledPCsMap ?d2) \<union> set popped" "frame d3 = frame (?d2\<lparr>m_isPCThumb := X\<rparr>)"
    "\<not> mode_differs d3 c'"
    using next_scheduled_step [OF n] by (auto simp: X)
  have "1 \<le> length popped" using p(2) by (cases popped) auto
  then have "work_left d3 + 1 \<le> work_left ?d2"
    using p(1,3,4) by (intro work_left_mono) (auto simp: seen_pcs_def frame_def)
  moreover have "work_left ?d2 \<le> work_left d1"
    unfolding work_left_def by (rule pc_once.potential_sched_all) auto
  moreover have "work_left d1 + 0 \<le> work_left d"
    using harvest_frame [OF h] by (intro work_left_mono) (auto simp: seen_pcs_def)
  ultimately show ?thesis using p(5) by simp
qed

lemma slot_work:
  assumes "slotExecuteBlockStart clone q d c = Inr (CpuExit d' c')"
  shows "work_left d' < work_left d \<and> \<not> mode_differs d' c' \<or>
    d' = d \<and> mode_differs d c \<and> \<not> mode_differs d' c'"
proof (cases "mode_differs d c")
  case True
  then have "d' = d" "c' = c\<lparr>cpu_thumb := (if cpu_thumb c \<noteq> 0 then 0 else 1)\<rparr>"
    using assms by (auto simp: slotExecuteBlockStart_def)
  with True show ?thesis by (auto simp: mode_differs_def split: option.splits)
next
  case False
  then obtain d1 tb imp ts where h: "harvest_block q d c = Inr (d1, tb, imp, ts)"
    and n: "next_scheduled q (fold (schedule_target tb imp (cpu_thumb c \<noteq> 0)) ts d1) = Inr (d', Some c')"
    using assms by (auto simp: slotExecuteBlockStart_def rbind_eq_Inr Let_def split: option.splits)
  from visit_work [OF h n] show ?thesis by simp
qed

text \<open>
  \<open>CpuExitException\<close> makes QEMU translate and start the block at the program counter of the CPU again: the
  plugin runs until a slot ends the process.
\<close>

function disassemble :: "clone_fn \<Rightarrow> qemu \<Rightarrow> dis \<Rightarrow> cpu \<Rightarrow> (dis \<times> lmodule) res" where
  "disassemble clone q d c = (case slotExecuteBlockStart clone q d c of
      Inl e \<Rightarrow> Inl e
    | Inr (Exited d' m) \<Rightarrow> Inr (d', m)
    | Inr (CpuExit d' c') \<Rightarrow> disassemble clone q d' c')"
  by pat_completeness auto
termination
  by (relation "measures [\<lambda>(clone, q, d, c). work_left d, \<lambda>(clone, q, d, c). if mode_differs d c then 1 else 0]")
     (auto dest: slot_work)

declare disassemble.simps [simp del]

section \<open>What is explored\<close>

text \<open>The possible program counters after a block, and the edges of the exploration.\<close>

definition targets_of :: "qemu \<Rightarrow> (u64 \<rightharpoonup> jump_table_info) \<Rightarrow> u64 \<Rightarrow> u32 \<Rightarrow> u64 list \<Rightarrow> bool" where
  "targets_of q jt pc thumb pcs \<longleftrightarrow> (let F = tb_function q pc thumb in
     \<exists>ts table. extract_possible_targets (getName (tb_view q F)) F = Inr ts
       \<and> jump_table_pcs q jt pc (tb_end q pc thumb) = Inr table \<and> pcs = targetPCs ts @ table)"

definition leads :: "qemu \<Rightarrow> (u64 \<rightharpoonup> jump_table_info) \<Rightarrow> u64 \<Rightarrow> u64 \<Rightarrow> bool" where
  "leads q jt p r \<longleftrightarrow> (\<exists>thumb pcs. targets_of q jt p thumb pcs \<and> r \<in> real_pc ` set pcs)"

definition recorded :: "dis \<Rightarrow> u64 set" where
  "recorded d = m_pcStart ` set (m_allBasicBlocks d)"

text \<open>A recorded block and the program counters after it, all in the given set.\<close>

definition block_closed :: "qemu \<Rightarrow> (u64 \<rightharpoonup> jump_table_info) \<Rightarrow> u64 set \<Rightarrow> translated_bb \<Rightarrow> bool" where
  "block_closed q jt S b \<longleftrightarrow> m_pcStart b < m_pcEnd b \<and>
     (\<exists>thumb pcs. targets_of q jt (m_pcStart b) thumb pcs \<and> m_pcEnd b = tb_end q (m_pcStart b) thumb
       \<and> real_pc ` set pcs \<subseteq> S)"

lemma block_closed_mono: "block_closed q jt S b \<Longrightarrow> S \<subseteq> S' \<Longrightarrow> block_closed q jt S' b"
  unfolding block_closed_def by (meson order_trans)

lemma harvest_targets:
  assumes "harvest_block q d c = Inr (d1, tb, imp, pcs)"
  shows "targets_of q (mapJumpTableInfo d) (cpu_pc c) (cpu_thumb c) pcs"
  using assms by (auto simp: harvest_block_def targets_of_def rbind_eq_Inr Let_def)

text \<open>The invariant, in groups: what is recorded, what is scheduled, what is reachable.\<close>

definition inv_recorded :: "qemu \<Rightarrow> (u64 \<rightharpoonup> jump_table_info) \<Rightarrow> u64 set \<Rightarrow> dis \<Rightarrow> bool" where
  "inv_recorded q jt V d \<longleftrightarrow> mapJumpTableInfo d = jt \<and> distinct (map m_pcStart (m_allBasicBlocks d))
     \<and> dom (m_visitedPC d) = V \<union> recorded d
     \<and> (\<forall>b \<in> set (m_allBasicBlocks d). block_closed q jt (seen_pcs d) b)"

definition inv_scheduled :: "qemu \<Rightarrow> u64 set \<Rightarrow> dis \<Rightarrow> bool" where
  "inv_scheduled q now d \<longleftrightarrow> pc_once.sound d \<and> set (m_scheduledPCsVector d) \<inter> dom (m_visitedPC d) = {}
     \<and> now \<inter> (recorded d \<union> set (m_scheduledPCsVector d)) = {}
     \<and> dom (m_scheduledPCsMap d) \<subseteq> set (m_scheduledPCsVector d) \<union> recorded d \<union> now \<union> {pc. \<not> is_valid_code_addr q pc}"

definition inv_reached :: "qemu \<Rightarrow> (u64 \<rightharpoonup> jump_table_info) \<Rightarrow> u64 \<Rightarrow> u64 set \<Rightarrow> dis \<Rightarrow> bool" where
  "inv_reached q jt start now d \<longleftrightarrow> start \<in> recorded d \<union> now
     \<and> (\<forall>r \<in> recorded d \<union> now \<union> dom (m_scheduledPCsMap d). (leads q jt)\<^sup>*\<^sup>* start r)"

definition dis_inv :: "qemu \<Rightarrow> (u64 \<rightharpoonup> jump_table_info) \<Rightarrow> u64 set \<Rightarrow> u64 \<Rightarrow> u64 set \<Rightarrow> dis \<Rightarrow> bool" where
  "dis_inv q jt V start now d \<longleftrightarrow> inv_recorded q jt V d \<and> inv_scheduled q now d \<and> inv_reached q jt start now d"

lemma sched_all_maps:
  "dom (m_scheduledPCsMap (pc_once.sched_all pcs d)) \<subseteq> dom (m_scheduledPCsMap d) \<union> set (m_scheduledPCsVector (pc_once.sched_all pcs d))
   \<and> dom (m_scheduledPCsMap (pc_once.sched_all pcs d)) \<subseteq> dom (m_scheduledPCsMap d) \<union> set pcs
   \<and> set (m_scheduledPCsVector d) \<subseteq> set (m_scheduledPCsVector (pc_once.sched_all pcs d))
   \<and> (\<forall>p \<in> set (m_scheduledPCsVector (pc_once.sched_all pcs d)) - set (m_scheduledPCsVector d). p \<notin> seen_pcs d)"
proof (induction pcs arbitrary: d)
  case Nil
  show ?case by simp
next
  case (Cons pc pcs)
  have one: "dom (m_scheduledPCsMap (explore_later pc d)) \<subseteq> insert pc (dom (m_scheduledPCsMap d))"
    "dom (m_scheduledPCsMap (explore_later pc d)) \<subseteq> dom (m_scheduledPCsMap d) \<union> set (m_scheduledPCsVector (explore_later pc d))"
    "set (m_scheduledPCsVector d) \<subseteq> set (m_scheduledPCsVector (explore_later pc d))"
    "set (m_scheduledPCsVector (explore_later pc d)) - set (m_scheduledPCsVector d) \<inter> - seen_pcs d \<subseteq> set (m_scheduledPCsVector (explore_later pc d))"
    "p \<in> set (m_scheduledPCsVector (explore_later pc d)) - set (m_scheduledPCsVector d) \<Longrightarrow> p \<notin> seen_pcs d"
    "seen_pcs d \<subseteq> seen_pcs (explore_later pc d)" for p
    by (auto simp: explorePCLater_def bsearch_false seen_pcs_def split: if_splits)
  from Cons.IH [of "explore_later pc d"] one show ?case by simp blast
qed

text \<open>What one visit does to the plugin: the block is recorded, its program counters are scheduled.\<close>

lemma visit_facts:
  assumes h: "harvest_block q d c = Inr (d1, tb, imp, pcs)" and jt: "mapJumpTableInfo d = jt"
  obtains b where "m_allBasicBlocks (pc_once.sched_all (map real_pc pcs) d1) = m_allBasicBlocks d @ [b]"
    and "m_pcStart b = cpu_pc c" and "block_closed q jt (real_pc ` set pcs) b"
    and "m_visitedPC (pc_once.sched_all (map real_pc pcs) d1) = (m_visitedPC d)(cpu_pc c \<mapsto> True)"
    and "mapJumpTableInfo (pc_once.sched_all (map real_pc pcs) d1) = jt"
    and "seen_pcs (pc_once.sched_all (map real_pc pcs) d1) = insert (cpu_pc c) (seen_pcs d) \<union> real_pc ` set pcs"
proof -
  note hf = harvest_frame [OF h]
  have fr: "frame (pc_once.sched_all (map real_pc pcs) d1) = frame d1" by (rule frame_sched_all)
  have tg: "targets_of q jt (cpu_pc c) (cpu_thumb c) pcs" using harvest_targets [OF h] jt by simp
  obtain f where f: "m_allBasicBlocks d1 = m_allBasicBlocks d @
      [\<lparr>m_bbFunction = f, m_pcStart = cpu_pc c, m_pcEnd = tb_end q (cpu_pc c) (cpu_thumb c)\<rparr>]"
    using hf by blast
  show thesis
    by (rule that [of "\<lparr>m_bbFunction = f, m_pcStart = cpu_pc c, m_pcEnd = tb_end q (cpu_pc c) (cpu_thumb c)\<rparr>"])
       (use fr f hf tg jt pc_once.seen_sched_all [of "map real_pc pcs" d1]
         in \<open>auto simp: frame_def block_closed_def seen_pcs_def\<close>)
qed

text \<open>Harvesting the current block records it.\<close>

lemma visit_recorded:
  assumes inv: "inv_recorded q jt V d" "inv_scheduled q {cpu_pc c} d" and h: "harvest_block q d c = Inr (d1, tb, imp, pcs)"
  shows "inv_recorded q jt V (pc_once.sched_all (map real_pc pcs) d1)"
proof -
  let ?d2 = "pc_once.sched_all (map real_pc pcs) d1"
  have jt: "mapJumpTableInfo d = jt" using inv(1) by (simp add: inv_recorded_def)
  from visit_facts [OF h jt] obtain b where b: "m_allBasicBlocks ?d2 = m_allBasicBlocks d @ [b]" "m_pcStart b = cpu_pc c"
    "block_closed q jt (real_pc ` set pcs) b" "m_visitedPC ?d2 = (m_visitedPC d)(cpu_pc c \<mapsto> True)"
    "mapJumpTableInfo ?d2 = jt" "seen_pcs ?d2 = insert (cpu_pc c) (seen_pcs d) \<union> real_pc ` set pcs"
    by blast
  have "cpu_pc c \<notin> recorded d" using inv(2) by (simp add: inv_scheduled_def)
  then have "distinct (map m_pcStart (m_allBasicBlocks ?d2))"
    using inv(1) b(1,2) by (simp add: inv_recorded_def recorded_def)
  moreover have "block_closed q jt (seen_pcs ?d2) x" if "x \<in> set (m_allBasicBlocks ?d2)" for x
    using that inv(1) b(1,3,6) by (auto simp: inv_recorded_def intro: block_closed_mono)
  moreover have "dom (m_visitedPC ?d2) = V \<union> recorded ?d2"
    using inv(1) b(1,2,4) by (auto simp: inv_recorded_def recorded_def)
  ultimately show ?thesis using b(5) by (simp add: inv_recorded_def)
qed

lemma visit_scheduled:
  assumes inv: "inv_recorded q jt V d" "inv_scheduled q {cpu_pc c} d" and h: "harvest_block q d c = Inr (d1, tb, imp, pcs)"
  shows "inv_scheduled q {} (pc_once.sched_all (map real_pc pcs) d1)"
proof -
  let ?d2 = "pc_once.sched_all (map real_pc pcs) d1"
  have jt: "mapJumpTableInfo d = jt" using inv(1) by (simp add: inv_recorded_def)
  from visit_facts [OF h jt] obtain b where b: "m_allBasicBlocks ?d2 = m_allBasicBlocks d @ [b]" "m_pcStart b = cpu_pc c"
    "m_visitedPC ?d2 = (m_visitedPC d)(cpu_pc c \<mapsto> True)"
    by blast
  note d1 = harvest_frame [OF h]
  have rec: "recorded ?d2 = insert (cpu_pc c) (recorded d)" using b(1,2) by (auto simp: recorded_def)
  have dv: "m_scheduledPCsVector d1 = m_scheduledPCsVector d" "m_scheduledPCsMap d1 = m_scheduledPCsMap d"
    "m_visitedPC d1 = (m_visitedPC d)(cpu_pc c \<mapsto> True)" using d1 by simp_all
  have m: "dom (m_scheduledPCsMap ?d2) \<subseteq> dom (m_scheduledPCsMap d) \<union> set (m_scheduledPCsVector ?d2)"
    "set (m_scheduledPCsVector d) \<subseteq> set (m_scheduledPCsVector ?d2)"
    "\<And>p. p \<in> set (m_scheduledPCsVector ?d2) \<Longrightarrow> p \<notin> set (m_scheduledPCsVector d) \<Longrightarrow> p \<notin> seen_pcs d1"
    using sched_all_maps [of "map real_pc pcs" d1, unfolded dv] by blast+
  have i: "pc_once.sound d" "set (m_scheduledPCsVector d) \<inter> dom (m_visitedPC d) = {}"
    "cpu_pc c \<notin> set (m_scheduledPCsVector d)"
    "dom (m_scheduledPCsMap d) \<subseteq> set (m_scheduledPCsVector d) \<union> recorded d \<union> {cpu_pc c} \<union> {pc. \<not> is_valid_code_addr q pc}"
    using inv(2) by (simp_all add: inv_scheduled_def)
  have vis: "dom (m_visitedPC ?d2) = insert (cpu_pc c) (dom (m_visitedPC d))" "dom (m_visitedPC ?d2) \<subseteq> seen_pcs d1"
    using b(3) dv by (auto simp: seen_pcs_def)
  have "pc_once.sound d1" using i(1) by (auto simp: pc_once.sound_def seen_pcs_def dv)
  then have "pc_once.sound ?d2" by (rule pc_once.sound_sched_all)
  moreover have "set (m_scheduledPCsVector ?d2) \<inter> dom (m_visitedPC ?d2) = {}"
  proof -
    have "p \<notin> dom (m_visitedPC ?d2)" if p: "p \<in> set (m_scheduledPCsVector ?d2)" for p
    proof (cases "p \<in> set (m_scheduledPCsVector d)")
      case True
      then have "p \<noteq> cpu_pc c" "p \<notin> dom (m_visitedPC d)" using i(2,3) by auto
      then show ?thesis by (simp only: vis(1) insert_iff not_False_eq_True simp_thms)
    next
      case False
      with m(3) [OF p] vis(2) show ?thesis by (meson subsetD)
    qed
    then show ?thesis by (simp add: disjoint_iff)
  qed
  moreover have "dom (m_scheduledPCsMap ?d2) \<subseteq> set (m_scheduledPCsVector ?d2) \<union> recorded ?d2 \<union> {pc. \<not> is_valid_code_addr q pc}"
    using i(4) m(1,2) unfolding rec by blast
  ultimately show ?thesis by (simp add: inv_scheduled_def)
qed

lemma visit_reached:
  assumes inv: "inv_recorded q jt V d" "inv_reached q jt start {cpu_pc c} d" and h: "harvest_block q d c = Inr (d1, tb, imp, pcs)"
  shows "inv_reached q jt start {} (pc_once.sched_all (map real_pc pcs) d1)"
proof -
  let ?d2 = "pc_once.sched_all (map real_pc pcs) d1"
  have jt: "mapJumpTableInfo d = jt" using inv(1) by (simp add: inv_recorded_def)
  from visit_facts [OF h jt] obtain b where b: "m_allBasicBlocks ?d2 = m_allBasicBlocks d @ [b]" "m_pcStart b = cpu_pc c"
    by blast
  have rec: "recorded ?d2 = insert (cpu_pc c) (recorded d)" using b by (auto simp: recorded_def)
  have "(leads q jt)\<^sup>*\<^sup>* start (cpu_pc c)" using inv(2) by (auto simp: inv_reached_def)
  moreover have "leads q jt (cpu_pc c) r" if "r \<in> real_pc ` set pcs" for r
    using that harvest_targets [OF h] jt by (auto simp: leads_def)
  ultimately have "(leads q jt)\<^sup>*\<^sup>* start r" if "r \<in> real_pc ` set pcs" for r
    using that by (meson rtranclp.rtrancl_into_rtrancl)
  moreover have "dom (m_scheduledPCsMap ?d2) \<subseteq> dom (m_scheduledPCsMap d) \<union> real_pc ` set pcs"
    using sched_all_maps [of "map real_pc pcs" d1] harvest_frame [OF h] by auto
  ultimately show ?thesis using inv(2) unfolding inv_reached_def rec by blast
qed

text \<open>Going on to the next program counter keeps the invariant.\<close>

lemma next_inv:
  assumes inv: "dis_inv q jt V start {} d2" and n: "next_scheduled q (d2\<lparr>m_isPCThumb := X\<rparr>) = Inr (d3, r)"
  shows "dis_inv q jt V start (case r of None \<Rightarrow> {} | Some c' \<Rightarrow> {cpu_pc c'}) d3"
    and "r = None \<Longrightarrow> m_scheduledPCsVector d3 = []"
proof -
  note i = inv [unfolded dis_inv_def inv_recorded_def inv_scheduled_def inv_reached_def]
  obtain popped where p: "m_scheduledPCsVector d2 = m_scheduledPCsVector d3 @ popped"
    "dom (m_scheduledPCsMap d3) = dom (m_scheduledPCsMap d2) \<union> set popped" "frame d3 = frame (d2\<lparr>m_isPCThumb := X\<rparr>)"
    "case r of None \<Rightarrow> m_scheduledPCsVector d3 = [] \<and> (\<forall>pc \<in> set popped. \<not> is_valid_code_addr q pc)
     | Some c \<Rightarrow> \<not> mode_differs d3 c \<and> popped \<noteq> [] \<and> hd popped = cpu_pc c \<and> is_valid_code_addr q (cpu_pc c)
        \<and> (\<forall>pc \<in> set (tl popped). \<not> is_valid_code_addr q pc)"
    using next_scheduled_step [OF n] by auto
  show "r = None \<Longrightarrow> m_scheduledPCsVector d3 = []" using p(4) by auto
  have "set popped \<subseteq> dom (m_scheduledPCsMap d2)"
    using i p(1) by (auto simp: pc_once.sound_def seen_pcs_def)
  then have map: "dom (m_scheduledPCsMap d3) = dom (m_scheduledPCsMap d2)" using p(2) by auto
  have fr: "m_visitedPC d3 = m_visitedPC d2" "mapJumpTableInfo d3 = mapJumpTableInfo d2"
    "m_allBasicBlocks d3 = m_allBasicBlocks d2" using p(3) by (simp_all add: frame_def)
  have seen: "seen_pcs d3 = seen_pcs d2" by (simp add: seen_pcs_def fr map)
  have rec: "recorded d3 = recorded d2" by (simp add: recorded_def fr)
  have r: "inv_recorded q jt V d3" using inv by (simp add: dis_inv_def inv_recorded_def fr seen rec)
  define now where "now = (case r of None \<Rightarrow> {} | Some c' \<Rightarrow> {cpu_pc c'})"
  have now: "now \<subseteq> set popped" "set popped \<subseteq> now \<union> {pc. \<not> is_valid_code_addr q pc}"
    using p(4) by (cases r; cases popped; auto simp: now_def)+
  have v1: "pc_once.sound d2" using i by blast
  have v2: "set (m_scheduledPCsVector d2) \<inter> dom (m_visitedPC d2) = {}" using i by blast
  have v3: "recorded d2 \<subseteq> dom (m_visitedPC d2)" using i by blast
  have v4: "dom (m_scheduledPCsMap d2) \<subseteq> set (m_scheduledPCsVector d2) \<union> recorded d2 \<union> {pc. \<not> is_valid_code_addr q pc}"
    using i by blast
  have vec: "set (m_scheduledPCsVector d2) = set (m_scheduledPCsVector d3) \<union> set popped"
    "set (m_scheduledPCsVector d3) \<inter> set popped = {}" "pc_once.sound d3"
    using v1 p(1) by (auto simp: pc_once.sound_def seen)
  have "set (m_scheduledPCsVector d3) \<inter> dom (m_visitedPC d2) = {}" using v2 vec(1) by blast
  moreover have "now \<inter> (recorded d2 \<union> set (m_scheduledPCsVector d3)) = {}" using v2 v3 vec(1,2) now(1) by blast
  moreover have "dom (m_scheduledPCsMap d2) \<subseteq> set (m_scheduledPCsVector d3) \<union> recorded d2 \<union> now \<union> {pc. \<not> is_valid_code_addr q pc}"
    using v4 vec(1) now(2) by blast
  ultimately have s: "inv_scheduled q now d3"
    using vec(3) by (simp add: inv_scheduled_def fr map rec)
  have "start \<in> recorded d2" "\<forall>x \<in> recorded d2 \<union> dom (m_scheduledPCsMap d2). (leads q jt)\<^sup>*\<^sup>* start x"
    using inv by (simp_all add: dis_inv_def inv_reached_def)
  moreover have "now \<subseteq> dom (m_scheduledPCsMap d2)" using now(1) \<open>set popped \<subseteq> dom (m_scheduledPCsMap d2)\<close> by blast
  ultimately have "inv_reached q jt start now d3" unfolding inv_reached_def map rec by blast
  with r s show "dis_inv q jt V start (case r of None \<Rightarrow> {} | Some c' \<Rightarrow> {cpu_pc c'}) d3"
    by (simp add: dis_inv_def now_def)
qed

lemma slot_inv:
  assumes inv: "dis_inv q jt V start {cpu_pc c} d" and s: "slotExecuteBlockStart clone q d c = Inr out"
  shows "case out of
      CpuExit d' c' \<Rightarrow> dis_inv q jt V start {cpu_pc c'} d'
    | Exited d' M \<Rightarrow> dis_inv q jt V start {} d' \<and> m_scheduledPCsVector d' = []
        \<and> M = createAndSaveTranslatedBasicBlocksAsAModule clone (m_allBasicBlocks d')"
proof (cases "mode_differs d c")
  case True
  then show ?thesis using s inv by (auto simp: slotExecuteBlockStart_def)
next
  case False
  then obtain d1 tb imp pcs d3 r where h: "harvest_block q d c = Inr (d1, tb, imp, pcs)"
    and n: "next_scheduled q (fold (schedule_target tb imp (cpu_thumb c \<noteq> 0)) pcs d1) = Inr (d3, r)"
    and out: "out = (case r of Some c' \<Rightarrow> CpuExit d3 c'
        | None \<Rightarrow> Exited d3 (createAndSaveTranslatedBasicBlocksAsAModule clone (m_allBasicBlocks d3)))"
    using s by (auto simp: slotExecuteBlockStart_def rbind_eq_Inr Let_def)
  obtain X where X: "fold (schedule_target tb imp (cpu_thumb c \<noteq> 0)) pcs d1 =
      (pc_once.sched_all (map real_pc pcs) d1)\<lparr>m_isPCThumb := X\<rparr>" using schedule_targets_eq by blast
  have "dis_inv q jt V start {} (pc_once.sched_all (map real_pc pcs) d1)"
    using inv h visit_recorded visit_scheduled visit_reached unfolding dis_inv_def by metis
  note next_inv [OF this n [unfolded X]]
  then show ?thesis by (cases r) (auto simp: out)
qed

lemma disassemble_inv:
  assumes "dis_inv q jt V start {cpu_pc c} d" and "disassemble clone q d c = Inr (d', M)"
  shows "dis_inv q jt V start {} d' \<and> m_scheduledPCsVector d' = []
    \<and> M = createAndSaveTranslatedBasicBlocksAsAModule clone (m_allBasicBlocks d')"
  using assms
proof (induction clone q d c rule: disassemble.induct)
  case (1 clone q d c)
  obtain out where out: "slotExecuteBlockStart clone q d c = Inr out"
    using 1(3) by (subst (asm) disassemble.simps) (auto split: sum.splits)
  note inv = slot_inv [OF 1(2) out]
  show ?case
  proof (cases out)
    case (CpuExit d1 c1)
    then have "disassemble clone q d1 c1 = Inr (d', M)"
      using 1(3) out by (subst (asm) disassemble.simps) simp
    with 1(1) [OF out CpuExit] inv CpuExit show ?thesis by simp
  next
    case (Exited d1 M1)
    then have "d1 = d'" "M1 = M" using 1(3) out by (subst (asm) disassemble.simps, simp)+
    with inv Exited show ?thesis by simp
  qed
qed

section \<open>The run ends\<close>

text \<open>Only program counters without the thumb bit are scheduled, so the assertion on it holds.\<close>

definition even_vector :: "dis \<Rightarrow> bool" where
  "even_vector d \<longleftrightarrow> (\<forall>p \<in> set (m_scheduledPCsVector d). p AND 1 = 0)"

lemma next_scheduled_total: "even_vector d \<Longrightarrow> \<exists>d' r. next_scheduled q d = Inr (d', r)"
proof (induction q d rule: next_scheduled.induct)
  case (1 q d)
  show ?case
  proof (cases "moreToExplore d")
    case False
    then show ?thesis by (subst next_scheduled.simps) simp
  next
    case True
    obtain pc d1 where g: "getNextRealPC d = Inr (pc, d1)"
      using True by (simp add: getNextRealPC_def Let_def)
    have v: "m_scheduledPCsVector d = m_scheduledPCsVector d1 @ [pc]"
      using g True by (auto simp: getNextRealPC_def moreToExplore_def Let_def)
    then have "pc AND 1 = 0" using 1(2) by (simp add: even_vector_def)
    then obtain ok d2 c where p: "prepareStateForNextRealPC q pc d1 = Inr (ok, d2, c)"
      by (simp add: prepareStateForNextRealPC_def Let_def)
    have "m_scheduledPCsVector d2 = m_scheduledPCsVector d1"
      using p by (auto simp: prepareStateForNextRealPC_def rbind_eq_Inr Let_def)
    then have "even_vector d2" using 1(2) v by (simp add: even_vector_def)
    show ?thesis
    proof (cases ok)
      case True
      then show ?thesis using \<open>moreToExplore d\<close> g p by (subst next_scheduled.simps) simp
    next
      case False
      have "\<not> \<not> moreToExplore d" using True by simp
      from 1(1) [OF this g refl p refl refl False \<open>even_vector d2\<close>] False True g p
      show ?thesis by (subst next_scheduled.simps) simp
    qed
  qed
qed

lemma even_next:
  assumes "even_vector d" and "next_scheduled q d = Inr (d', r)"
  shows "even_vector d'"
  using next_scheduled_step [OF assms(2)] assms(1) by (auto simp: even_vector_def)

lemma even_visit:
  assumes "even_vector d" and "harvest_block q d c = Inr (d1, tb, imp, pcs)"
  shows "even_vector (fold (schedule_target tb imp mode) pcs d1)"
proof -
  have "set (m_scheduledPCsVector (pc_once.sched_all (map real_pc pcs) d1)) \<subseteq> set (m_scheduledPCsVector d) \<union> set (map real_pc pcs)"
    using pc_once.pending_sched_all [of "map real_pc pcs" d1] harvest_frame [OF assms(2)] by simp
  then have "even_vector (pc_once.sched_all (map real_pc pcs) d1)"
    using assms(1) real_pc_even unfolding even_vector_def by fastforce
  then show ?thesis using schedule_targets_eq [of tb imp mode pcs d1] by (auto simp: even_vector_def)
qed

text \<open>Every block at a valid address can be harvested: no pass faults on it, and it ends after it starts.\<close>

definition harvestable :: "qemu \<Rightarrow> (u64 \<rightharpoonup> jump_table_info) \<Rightarrow> bool" where
  "harvestable q jt \<longleftrightarrow> (\<forall>d c. mapJumpTableInfo d = jt \<and> is_valid_code_addr q (cpu_pc c) \<longrightarrow>
     (\<exists>r. harvest_block q d c = Inr r))"

definition ready :: "qemu \<Rightarrow> (u64 \<rightharpoonup> jump_table_info) \<Rightarrow> dis \<Rightarrow> cpu \<Rightarrow> bool" where
  "ready q jt d c \<longleftrightarrow> mapJumpTableInfo d = jt \<and> is_valid_code_addr q (cpu_pc c) \<and> even_vector d"

lemma slot_total:
  assumes "harvestable q jt" and "ready q jt d c"
  shows "\<exists>out. slotExecuteBlockStart clone q d c = Inr out \<and>
    (case out of CpuExit d' c' \<Rightarrow> ready q jt d' c' | Exited d' M \<Rightarrow> True)"
proof (cases "mode_differs d c")
  case True
  then show ?thesis using assms(2) by (simp add: slotExecuteBlockStart_def ready_def)
next
  case False
  obtain d1 tb imp pcs where h: "harvest_block q d c = Inr (d1, tb, imp, pcs)"
    using assms unfolding harvestable_def ready_def by (metis prod_cases4)
  let ?d2 = "fold (schedule_target tb imp (cpu_thumb c \<noteq> 0)) pcs d1"
  have e: "even_vector ?d2" by (rule even_visit [OF _ h]) (use assms(2) in \<open>simp add: ready_def\<close>)
  obtain d3 r where n: "next_scheduled q ?d2 = Inr (d3, r)" using next_scheduled_total [OF e] by blast
  obtain X where "?d2 = (pc_once.sched_all (map real_pc pcs) d1)\<lparr>m_isPCThumb := X\<rparr>" using schedule_targets_eq by blast
  then have "mapJumpTableInfo ?d2 = jt"
    using frame_sched_all [of "map real_pc pcs" d1] harvest_frame [OF h] assms(2) by (simp add: frame_def ready_def)
  then have "mapJumpTableInfo d3 = jt" "\<And>c'. r = Some c' \<Longrightarrow> is_valid_code_addr q (cpu_pc c')"
    using next_scheduled_step [OF n] by (auto simp: frame_def)
  with even_next [OF e n] show ?thesis
    using False h n by (auto simp: slotExecuteBlockStart_def Let_def ready_def split: option.splits)
qed

lemma disassemble_total:
  "harvestable q jt \<Longrightarrow> ready q jt d c \<Longrightarrow> \<exists>d' M. disassemble clone q d c = Inr (d', M)"
proof (induction clone q d c rule: disassemble.induct)
  case (1 clone q d c)
  obtain out where out: "slotExecuteBlockStart clone q d c = Inr out"
    and r: "case out of CpuExit d' c' \<Rightarrow> ready q jt d' c' | Exited d' M \<Rightarrow> True"
    using slot_total [OF 1(2,3)] by blast
  show ?case
  proof (cases out)
    case (CpuExit d1 c1)
    with 1(1) [OF out CpuExit 1(2)] r out show ?thesis by (subst disassemble.simps) simp
  next
    case (Exited d1 M1)
    with out show ?thesis by (subst disassemble.simps) simp
  qed
qed

section \<open>initialize\<close>

text \<open>
  The configuration, parsed: the intervals already visited, the jump tables, and the thumb addresses (\<open>None\<close>
  when there is no such file or it does not parse) with whether an output file is named.
\<close>

definition add_interval :: "u64 \<times> u64 \<Rightarrow> dis \<Rightarrow> dis" where
  "add_interval iv d = d\<lparr>m_visitedPC := (m_visitedPC d)(fst iv \<mapsto> True),
     m_visitedPCIntervals := m_visitedPCIntervals d @ [iv]\<rparr>"

definition add_thumb :: "u64 \<Rightarrow> dis \<Rightarrow> dis res" where
  "add_thumb pc d = rbind (require (pc AND 1 = 0) (AssertFailed ''0 == (pc & 1)'')) (\<lambda>_.
     Inr (d\<lparr>m_isPCThumb := (m_isPCThumb d)(pc \<mapsto> True)\<rparr>))"

definition empty_dis :: dis where
  "empty_dis = \<lparr>m_firstTranslation = True, m_visitedPC = Map.empty, m_visitedPCIntervals = [],
     m_scheduledPCsMap = Map.empty, m_scheduledPCsVector = [], mapJumpTableInfo = Map.empty,
     m_isPCThumb = Map.empty, m_allBasicBlocks = [], m_tbModule = \<lparr>mfuncs = [], mglobals = []\<rparr>\<rparr>"

definition initialize_dis :: "(u64 \<times> u64) list \<Rightarrow> jump_table_info list \<Rightarrow> u64 list option \<Rightarrow> bool \<Rightarrow> dis res" where
  "initialize_dis initialAlreadyVisited infos isThumbIn hasThumbOut =
     (let d1 = fold add_interval initialAlreadyVisited empty_dis;
          d2 = d1\<lparr>mapJumpTableInfo := fold (\<lambda>info m. m(jt_bb_start info \<mapsto> info)) infos Map.empty\<rparr> in
      (case isThumbIn of
         None \<Rightarrow> Inr d2
       | Some pcs \<Rightarrow> rbind (rfold add_thumb pcs d2) (\<lambda>d3.
           rbind (require hasThumbOut (AssertFailed ''isThumbOut != empty'')) (\<lambda>_. Inr d3))))"

text \<open>What a run starts from.\<close>

definition fresh_dis :: "dis \<Rightarrow> bool" where
  "fresh_dis d \<longleftrightarrow> m_scheduledPCsMap d = Map.empty \<and> m_scheduledPCsVector d = [] \<and> m_allBasicBlocks d = []"

lemma initialize_fresh: "initialize_dis ivs infos thumbs out = Inr d \<Longrightarrow> fresh_dis d"
proof -
  assume i: "initialize_dis ivs infos thumbs out = Inr d"
  have "fresh_dis (fold add_interval ivs d0)" if "fresh_dis d0" for d0
    using that by (induction ivs arbitrary: d0) (simp_all add: add_interval_def fresh_dis_def)
  moreover have "fresh_dis empty_dis" by (simp add: fresh_dis_def empty_dis_def)
  ultimately have f: "fresh_dis (fold add_interval ivs empty_dis)" by blast
  show ?thesis
  proof (cases thumbs)
    case None
    then show ?thesis using i f by (auto simp: initialize_dis_def fresh_dis_def Let_def)
  next
    case (Some pcs)
    let ?d2 = "(fold add_interval ivs empty_dis)\<lparr>mapJumpTableInfo := fold (\<lambda>info m. m(jt_bb_start info \<mapsto> info)) infos Map.empty\<rparr>"
    have r: "rfold add_thumb pcs ?d2 = Inr d"
      using i Some by (auto simp: initialize_dis_def Let_def rbind_eq_Inr)
    show ?thesis
      by (rule rfold_invariant [OF r]) (use f in \<open>auto simp: fresh_dis_def add_thumb_def rbind_eq_Inr\<close>)
  qed
qed

lemma fresh_inv:
  assumes "fresh_dis d"
  shows "dis_inv q (mapJumpTableInfo d) (dom (m_visitedPC d)) (cpu_pc c) {cpu_pc c} d"
  using assms
  by (simp add: dis_inv_def inv_recorded_def inv_scheduled_def inv_reached_def fresh_dis_def recorded_def
      pc_once.sound_def)

lemma intervals_folded:
  "dom (m_visitedPC (fold add_interval ivs d)) = dom (m_visitedPC d) \<union> fst ` set ivs
   \<and> m_visitedPCIntervals (fold add_interval ivs d) = m_visitedPCIntervals d @ ivs
   \<and> m_isPCThumb (fold add_interval ivs d) = m_isPCThumb d"
  by (induction ivs arbitrary: d) (auto simp: add_interval_def)

lemma thumbs_folded:
  "rfold add_thumb pcs d = (if \<forall>pc \<in> set pcs. pc AND 1 = 0
     then Inr (d\<lparr>m_isPCThumb := \<lambda>pc. if pc \<in> set pcs then Some True else m_isPCThumb d pc\<rparr>)
     else Inl (AssertFailed ''0 == (pc & 1)''))"
proof (induction pcs arbitrary: d)
  case Nil
  show ?case by simp
next
  case (Cons pc pcs)
  let ?d = "d\<lparr>m_isPCThumb := (m_isPCThumb d)(pc \<mapsto> True)\<rparr>"
  have "(\<lambda>x. if x \<in> set pcs then Some True else m_isPCThumb ?d x)
      = (\<lambda>x. if x \<in> set (pc # pcs) then Some True else m_isPCThumb d x)" by (rule ext) simp
  then have "?d\<lparr>m_isPCThumb := \<lambda>x. if x \<in> set pcs then Some True else m_isPCThumb ?d x\<rparr>
      = d\<lparr>m_isPCThumb := \<lambda>x. if x \<in> set (pc # pcs) then Some True else m_isPCThumb d x\<rparr>" by simp
  moreover have "add_thumb pc d = (if pc AND 1 = 0 then Inr (d\<lparr>m_isPCThumb := (m_isPCThumb d)(pc \<mapsto> True)\<rparr>)
      else Inl (AssertFailed ''0 == (pc & 1)''))" by (simp add: add_thumb_def require_def)
  ultimately show ?case by (simp add: Cons.IH)
qed

lemma initialize_errors:
  "(\<exists>e. initialize_dis ivs infos thumbs hasOut = Inl e) \<longleftrightarrow>
     (\<exists>pcs. thumbs = Some pcs \<and> ((\<exists>pc \<in> set pcs. pc AND 1 \<noteq> 0) \<or> \<not> hasOut))"
  by (auto simp: initialize_dis_def Let_def thumbs_folded require_def split: option.splits)

lemma fresh_empty: "fresh_dis empty_dis" "mapJumpTableInfo empty_dis = Map.empty" "m_visitedPC empty_dis = Map.empty"
  "m_visitedPCIntervals empty_dis = []" "m_isPCThumb empty_dis = Map.empty"
  by (simp_all add: fresh_dis_def empty_dis_def)

lemma initialize_result:
  assumes "initialize_dis ivs infos thumbs hasOut = Inr d"
  shows "dom (m_visitedPC d) = fst ` set ivs \<and> m_visitedPCIntervals d = ivs
    \<and> m_isPCThumb d = (\<lambda>pc. if pc \<in> set (case thumbs of None \<Rightarrow> [] | Some pcs \<Rightarrow> pcs) then Some True else None)"
proof -
  let ?d1 = "fold add_interval ivs empty_dis"
  have v: "dom (m_visitedPC ?d1) = fst ` set ivs" "m_visitedPCIntervals ?d1 = ivs" "m_isPCThumb ?d1 = Map.empty"
    using intervals_folded [of ivs empty_dis] by (simp_all add: fresh_empty)
  have "m_visitedPC d = m_visitedPC ?d1 \<and> m_visitedPCIntervals d = m_visitedPCIntervals ?d1
      \<and> m_isPCThumb d = (\<lambda>pc. if pc \<in> set (case thumbs of None \<Rightarrow> [] | Some pcs \<Rightarrow> pcs) then Some True else m_isPCThumb ?d1 pc)"
    using assms by (cases thumbs) (auto simp: initialize_dis_def Let_def thumbs_folded rbind_eq_Inr split: if_splits)
  then show ?thesis by (simp only: v)
qed

section \<open>Properties\<close>

text \<open>
  C24. A run that starts with an empty schedule and ends has recorded every block once; the start is
  recorded, everything recorded is reached from the start by following possible targets, and every
  target of a recorded block (the jump table entries included) is recorded, was given as already visited,
  or is no code address. The module written out is made of exactly the recorded blocks.
\<close>

theorem disassemble_closure:
  assumes "fresh_dis d" and "disassemble clone q d c = Inr (d', M)"
  shows "distinct (map m_pcStart (m_allBasicBlocks d')) \<and> cpu_pc c \<in> recorded d'
    \<and> (\<forall>r \<in> recorded d'. (leads q (mapJumpTableInfo d))\<^sup>*\<^sup>* (cpu_pc c) r)
    \<and> (\<forall>b \<in> set (m_allBasicBlocks d'). block_closed q (mapJumpTableInfo d)
         (recorded d' \<union> dom (m_visitedPC d) \<union> {pc. \<not> is_valid_code_addr q pc}) b)
    \<and> M = createAndSaveTranslatedBasicBlocksAsAModule clone (m_allBasicBlocks d')"
proof -
  let ?jt = "mapJumpTableInfo d" and ?V = "dom (m_visitedPC d)"
  have inv: "inv_recorded q ?jt ?V d'" "inv_scheduled q {} d'" "inv_reached q ?jt (cpu_pc c) {} d'"
    and e: "m_scheduledPCsVector d' = []" and M: "M = createAndSaveTranslatedBasicBlocksAsAModule clone (m_allBasicBlocks d')"
    using disassemble_inv [OF fresh_inv [OF assms(1)] assms(2)] by (simp_all add: dis_inv_def)
  have "dom (m_scheduledPCsMap d') \<subseteq> recorded d' \<union> {pc. \<not> is_valid_code_addr q pc}"
    using inv(2) e by (simp add: inv_scheduled_def)
  then have "seen_pcs d' \<subseteq> recorded d' \<union> ?V \<union> {pc. \<not> is_valid_code_addr q pc}"
    using inv(1) by (auto simp: seen_pcs_def inv_recorded_def)
  then have "\<forall>b \<in> set (m_allBasicBlocks d'). block_closed q ?jt
      (recorded d' \<union> ?V \<union> {pc. \<not> is_valid_code_addr q pc}) b"
    using inv(1) block_closed_mono unfolding inv_recorded_def by blast
  moreover have "distinct (map m_pcStart (m_allBasicBlocks d'))" using inv(1) by (simp add: inv_recorded_def)
  moreover have "cpu_pc c \<in> recorded d'" "\<forall>r \<in> recorded d'. (leads q ?jt)\<^sup>*\<^sup>* (cpu_pc c) r"
    using inv(3) by (simp_all add: inv_reached_def)
  ultimately show ?thesis using M by blast
qed

text \<open>
  C25. When no block at a code address makes a pass stop, a run started at a code address ends and
  writes out a module, however the blocks jump: each visit uses up one of the finitely many program
  counters, or sets the mode right once.
\<close>

theorem disassemble_returns:
  assumes "harvestable q (mapJumpTableInfo d)" and "is_valid_code_addr q (cpu_pc c)" and "fresh_dis d"
  shows "\<exists>d' M. disassemble clone q d c = Inr (d', M)"
  by (rule disassemble_total [OF assms(1)]) (use assms(2,3) in \<open>simp add: ready_def even_vector_def fresh_dis_def\<close>)

text \<open>
  C27. The bisection over the given intervals always answers no, whatever the intervals; the linear
  search it is compared with finds, on intervals sorted by their start, exactly the covered program counters.
\<close>

theorem visited_intervals_search:
  "\<not> isPCInVisitedIntervalsBsearch ivs pc \<and>
   (sorted (map fst ivs) \<longrightarrow>
     (isPCInVisitedIntervalsLinear ivs pc \<longleftrightarrow> (\<exists>k < length ivs. fst (ivs ! k) \<le> pc \<and> pc \<le> snd (ivs ! k))))"
  using bsearch_false linear_from_sorted [of ivs 0 pc]
  by (simp add: isPCInVisitedIntervalsLinear_def)

theorem visited_intervals_search_witness:
  "\<not> isPCInVisitedIntervalsBsearch [(0x8000, 0x8010)] 0x8004 \<and> isPCInVisitedIntervalsLinear [(0x8000, 0x8010)] 0x8004"
  using visited_intervals_search [of "[(0x8000, 0x8010)]" "0x8004"] by simp

text \<open>
  \<open>initialize\<close> stops exactly when a thumb address is odd, or when there are thumb addresses to read
  and no file to write them to; otherwise nothing is scheduled or recorded, the visited addresses are the
  starts of the given intervals and the thumb addresses are the given ones.
\<close>

theorem initialize_dis_spec:
  "((\<exists>e. initialize_dis ivs infos thumbs hasOut = Inl e) \<longleftrightarrow>
      (\<exists>pcs. thumbs = Some pcs \<and> ((\<exists>pc \<in> set pcs. pc AND 1 \<noteq> 0) \<or> \<not> hasOut)))
   \<and> (\<forall>d. initialize_dis ivs infos thumbs hasOut = Inr d \<longrightarrow>
       fresh_dis d \<and> dom (m_visitedPC d) = fst ` set ivs \<and> m_visitedPCIntervals d = ivs
       \<and> m_isPCThumb d = (\<lambda>pc. if pc \<in> set (case thumbs of None \<Rightarrow> [] | Some pcs \<Rightarrow> pcs) then Some True else None))"
  using initialize_errors [of ivs infos thumbs hasOut] initialize_result initialize_fresh by blast

text \<open>Two blocks that jump to each other.\<close>

definition ping_tb :: "u64 \<Rightarrow> func" where
  "ping_tb t = \<lparr>fid = 1, fname = ''tcg-llvm-tb-0'', fblocks = [\<lparr>bid = 1, bname = ''entry'', bins =
     [mk_ins 1 (Load (ArgRef 0)),
      mk_ins 2 (BinOp AddOp (InsRef 1) (ConstInt 64 0xc0)),
      mk_ins 3 (IntToPtr (InsRef 2)),
      mk_ins 4 (Store (ConstInt 32 t) (InsRef 3)),
      mk_ins 5 (Ret None)]\<rparr>]\<rparr>"

definition ping_done :: "u64 \<Rightarrow> func" where
  "ping_done t = \<lparr>fid = 1, fname = ''tcg-llvm-tb-0'', fblocks = [\<lparr>bid = 1, bname = ''entry'', bins =
     [mk_ins 6 (Store (ConstInt 32 t) (GlobalVar ''PC'')), mk_ins 5 (Ret None)]\<rparr>]\<rparr>"

definition ping_view :: llvm_view where
  "ping_view = raw_view\<lparr>getName := \<lambda>v. if v = InsRef 1 then ''env_v'' else []\<rparr>"

definition ping_qemu :: qemu where
  "ping_qemu = \<lparr>tb_function = (\<lambda>pc thumb. ping_tb (if pc = 0x8000 then 0x8004 else 0x8000)),
     tb_end = (\<lambda>pc thumb. pc + 4), tb_view = (\<lambda>f. ping_view), inline_function = (\<lambda>f n. None),
     read_mem32 = (\<lambda>a. 0), is_valid_code_addr = (\<lambda>pc. pc = 0x8000 \<or> pc = 0x8004)\<rparr>"

definition ping_cpu :: cpu where
  "ping_cpu = \<lparr>cpu_pc = 0x8000, cpu_thumb = 0\<rparr>"

lemma ping_transform:
  "\<exists>m'. transform_pass ping_view (ping_tb t) m = Inr (ping_done t, m')"
proof -
  have "getGlobalName (env_offset 64 0xc0) = ''PC''" by code_simp
  then have pc: "w = 64 \<Longrightarrow> getGlobalName (env_offset w 0xc0) = ''PC''" for w by simp
  show ?thesis
    by (simp add: transform_pass_def collect_accesses_def ping_tb_def raw_view_def ping_view_def ping_done_def env_loads_def
        func_ins_def find_ins_def eval_nat_numeral erase_later_def replace_access_def pc fresh_iid_def ins_ids_def
        getOrInsertGlobal_def insert_first_def insert_accesses_def map_blocks_def new_access_def is_phi_def
        replace_uses_def rauw_def map_ins_def erase_all_def erase_from_parent_def drop_ids_def mk_ins_def Let_def)
qed

lemma ping_harvestable: "harvestable ping_qemu Map.empty"
proof -
  have e: "\<exists>ts. extract_possible_targets (getName ping_view) (ping_tb t) = Inr ts" if "t \<in> {0x8000, 0x8004}" for t
  proof -
    have "extract_possible_targets (getName ping_view) (ping_tb 0x8000) = Inr \<lparr>targetPCs = [0x8000], implicitTarget = None\<rparr>"
      "extract_possible_targets (getName ping_view) (ping_tb 0x8004) = Inr \<lparr>targetPCs = [0x8004], implicitTarget = None\<rparr>"
      by code_simp+
    with that show ?thesis by auto
  qed
  have i: "inline_helpers I (ping_tb t) = Some (ping_tb t, False)" for I t
    by (simp add: inline_helpers_def inline_loop.simps functionsToInline_def ping_tb_def func_ins_def
        shouldInlineCall_def mk_ins_def)
  have r: "\<exists>m'. rewrite_block ping_qemu (ping_tb t) m = Inr (ping_done t, m')" for t m
    using ping_transform [of t m] by (simp add: rewrite_block_def i ping_qemu_def)
  have g: "\<exists>tb. getThumbBit (if ft then set_entry_name (ping_done t) else ping_done t) = Inr tb" for ft t
    by (simp add: getThumbBit_def ping_done_def set_entry_name_def thumb_block_def is_exit_def terminator_def
       mk_ins_def thumb_step_def store_to_def)
  show ?thesis unfolding harvestable_def
  proof (intro allI impI)
    fix d :: dis and c :: cpu
    assume a: "mapJumpTableInfo d = Map.empty \<and> is_valid_code_addr ping_qemu (cpu_pc c)"
    then have pc: "cpu_pc c = 0x8000 \<or> cpu_pc c = 0x8004" by (simp add: ping_qemu_def)
    define t :: u64 where "t = (if cpu_pc c = 0x8000 then 0x8004 else 0x8000)"
    have q: "tb_function ping_qemu (cpu_pc c) (cpu_thumb c) = ping_tb t" "tb_view ping_qemu (ping_tb t) = ping_view"
      "cpu_pc c < tb_end ping_qemu (cpu_pc c) (cpu_thumb c)"
      using pc by (auto simp: ping_qemu_def t_def)
    obtain ts where ts: "extract_possible_targets (getName ping_view) (ping_tb t) = Inr ts"
      using e [of t] by (metis insert_iff t_def)
    obtain m' where m': "rewrite_block ping_qemu (ping_tb t) (m_tbModule d) = Inr (ping_done t, m')" using r by blast
    obtain tb where tb: "getThumbBit (if m_firstTranslation d then set_entry_name (ping_done t) else ping_done t) = Inr tb"
      using g by blast
    show "\<exists>r. harvest_block ping_qemu d c = Inr r"
      using q ts m' tb a by (simp add: harvest_block_def jump_table_pcs_def Let_def split: if_splits)
  qed
qed

lemma ping_total: "\<exists>d' M. disassemble clone ping_qemu empty_dis ping_cpu = Inr (d', M)"
  by (rule disassemble_total [OF ping_harvestable])
     (simp add: ready_def fresh_empty even_vector_def, simp add: ping_qemu_def ping_cpu_def empty_dis_def)

theorem disassemble_closure_witness:
  "\<exists>d' M. disassemble (\<lambda>_ f. f) ping_qemu empty_dis ping_cpu = Inr (d', M) \<and> 0x8000 \<in> recorded d'
     \<and> list_all (block_closed ping_qemu Map.empty (recorded d' \<union> {pc. pc \<noteq> 0x8000 \<and> pc \<noteq> 0x8004}))
          (m_allBasicBlocks d')"
proof -
  obtain d' M where r: "disassemble (\<lambda>_ f. f) ping_qemu empty_dis ping_cpu = Inr (d', M)" using ping_total by blast
  have "is_valid_code_addr ping_qemu pc \<longleftrightarrow> pc = 0x8000 \<or> pc = 0x8004" for pc by (simp add: ping_qemu_def)
  with disassemble_closure [OF fresh_empty(1) r] r show ?thesis by (auto simp: fresh_empty ping_cpu_def list_all_iff)
qed

theorem disassemble_returns_witness:
  "\<exists>d' M. disassemble (\<lambda>_ f. f) ping_qemu empty_dis ping_cpu = Inr (d', M)"
proof (rule disassemble_returns)
  show "harvestable ping_qemu (mapJumpTableInfo empty_dis)" by (simp add: fresh_empty ping_harvestable)
qed (simp_all add: fresh_empty, simp add: ping_qemu_def ping_cpu_def)

theorem initialize_dis_spec_witness:
  "\<exists>d. initialize_dis [(0x8000, 0x8010)] [] (Some [0x9000]) True = Inr d \<and> fresh_dis d
     \<and> dom (m_visitedPC d) = {0x8000} \<and> m_isPCThumb d 0x9000 = Some True"
proof (cases "initialize_dis [(0x8000, 0x8010)] [] (Some [0x9000]) True")
  case (Inl e)
  then show ?thesis using initialize_dis_spec [of "[(0x8000, 0x8010)]" "[]" "Some [0x9000]" True] by auto
next
  case (Inr d)
  then show ?thesis using initialize_dis_spec [of "[(0x8000, 0x8010)]" "[]" "Some [0x9000]" True] by auto
qed

end
