(* ===== verification/Alias_Loads.thy ===== *)
theory Alias_Loads
  imports Pass_Kit
begin

text \<open>
  \<open>LoadAliasReplacePass\<close>: in each block, every use of a load of a global is replaced by the value of the
  nearest earlier store to it. The pass looks at stores to the global only. The specification is an
  execution of the block: over instructions that touch memory through global names alone, the pass
  changes no value and no global.
\<close>

section \<open>The pass\<close>

fun load_global :: "ikind \<Rightarrow> string option" where
  "load_global (Load (GlobalVar g)) = Some g"
| "load_global _ = None"

text \<open>The pairs of one load: the earlier stores of the block to its global, the nearest first.\<close>

definition aliases_at :: "instr list \<Rightarrow> nat \<Rightarrow> (nat \<times> nat) list" where
  "aliases_at is k = (case load_global (ikind (is ! k)) of
      None \<Rightarrow> []
    | Some gvLoad \<Rightarrow> map (\<lambda>s. (iid (is ! k), iid s)) (filter (\<lambda>s. store_to gvLoad s \<noteq> None) (rev (take k is))))"

text \<open>The outer loop runs backwards and stops in front of the first instruction.\<close>

definition aliases :: "instr list \<Rightarrow> (nat \<times> nat) list" where
  "aliases is = concat (map (aliases_at is) (rev [1..<length is]))"

text \<open>\<open>replaceAllUsesWith\<close> asserts that a value does not replace itself.\<close>

definition replace_alias :: "nat \<times> nat \<Rightarrow> func \<Rightarrow> func res" where
  "replace_alias a F = (case find_ins F (snd a) of
      Some storeInst \<Rightarrow> (case ikind storeInst of
          Store v p \<Rightarrow> rbind (require (v \<noteq> InsRef (fst a)) (AssertFailed ''this->replaceAllUsesWith(this)'')) (\<lambda>_.
            Inr (rauw (InsRef (fst a)) v F))
        | _ \<Rightarrow> Inl (NullDeref ''StoreInst''))
    | None \<Rightarrow> Inl (NullDeref ''StoreInst''))"

definition run_on_basic_block :: "bblock \<Rightarrow> func \<Rightarrow> (func \<times> bool) res" where
  "run_on_basic_block BB F =
     rbind (require (bins BB \<noteq> []) (NullDeref ''--rit'')) (\<lambda>_.
     rbind (rfold replace_alias (aliases (bins BB)) F) (\<lambda>F'. Inr (F', aliases (bins BB) \<noteq> [])))"

text \<open>The pass manager runs it on every block in turn.\<close>

definition load_alias_replace :: "func \<Rightarrow> (func \<times> bool) res" where
  "load_alias_replace F = rfold (\<lambda>n st. rbind (run_on_basic_block (fblocks (fst st) ! n) (fst st)) (\<lambda>r.
     Inr (fst r, snd st \<or> snd r))) [0..<length (fblocks F)] (F, False)"

section \<open>Execution of a block\<close>

text \<open>
  What an instruction is, its operands left out. \<open>const\<close> gives the values that are not results of
  instructions, \<open>oper\<close> the result of every instruction that is neither a load nor a store, from its kind, its
  operand values and the globals.
\<close>

fun blank :: "ikind \<Rightarrow> ikind" where
  "blank (Store v p) = Store (OtherVal []) (OtherVal [])"
| "blank (Load p) = Load (OtherVal [])"
| "blank (Call c xs) = Call (OtherVal []) (map (\<lambda>x. OtherVal []) xs)"
| "blank (BinOp f v w) = BinOp f (OtherVal []) (OtherVal [])"
| "blank (IntToPtr v) = IntToPtr (OtherVal [])"
| "blank (CastI s v) = CastI s (OtherVal [])"
| "blank (Ret v) = Ret (map_option (\<lambda>x. OtherVal []) v)"
| "blank (Br t) = Br t"
| "blank (CondBr v t e) = CondBr (OtherVal []) t e"
| "blank (SwitchI v d cs) = SwitchI (OtherVal []) d cs"
| "blank Unreachable = Unreachable"
| "blank (OtherIns s vs) = OtherIns s (map (\<lambda>x. OtherVal []) vs)"

type_synonym 'v mstate = "(nat \<Rightarrow> 'v) \<times> (string \<Rightarrow> 'v)"
type_synonym 'v meaning = "(val \<Rightarrow> 'v) \<times> (ikind \<Rightarrow> 'v list \<Rightarrow> (string \<Rightarrow> 'v) \<Rightarrow> 'v)"

definition eval :: "'v meaning \<Rightarrow> (nat \<Rightarrow> 'v) \<Rightarrow> val \<Rightarrow> 'v" where
  "eval m env v = (case v of InsRef n \<Rightarrow> env n | _ \<Rightarrow> fst m v)"

definition exec_ins :: "'v meaning \<Rightarrow> instr \<Rightarrow> 'v mstate \<Rightarrow> 'v mstate" where
  "exec_ins m i st = (case global_store (ikind i) of
      Some (g, v) \<Rightarrow> (fst st, (snd st)(g := eval m (fst st) v))
    | None \<Rightarrow> (case load_global (ikind i) of
        Some g \<Rightarrow> ((fst st)(iid i := snd st g), snd st)
      | None \<Rightarrow> ((fst st)(iid i := snd m (blank (ikind i)) (map (eval m (fst st)) (operands (ikind i))) (snd st)), snd st)))"

definition exec :: "'v meaning \<Rightarrow> instr list \<Rightarrow> 'v mstate \<Rightarrow> 'v mstate" where
  "exec m is st = fold (exec_ins m) is st"

text \<open>
  The instructions the pass is right about: no call, and no load or store through a pointer. And the order
  of a block: an instruction uses results of this block only after their definition.
\<close>

fun plain :: "ikind \<Rightarrow> bool" where
  "plain (Call c xs) = False"
| "plain (Store v p) = (\<exists>g. p = GlobalVar g)"
| "plain (Load p) = (\<exists>g. p = GlobalVar g)"
| "plain _ = True"

definition defs_first :: "instr list \<Rightarrow> bool" where
  "defs_first is \<longleftrightarrow> (\<forall>p < length is. \<forall>q < length is.
     InsRef (iid (is ! q)) \<in> set (operands (ikind (is ! p))) \<longrightarrow> q < p)"

section \<open>What a substitution leaves\<close>

definition mem_view :: "instr \<Rightarrow> nat \<times> string option \<times> string option" where
  "mem_view i = (iid i, load_global (ikind i), map_option fst (global_store (ikind i)))"

definition subst_ins :: "val \<Rightarrow> val \<Rightarrow> instr \<Rightarrow> instr" where
  "subst_ins a b i = i\<lparr>ikind := subst_kind a b (ikind i)\<rparr>"

lemma subst_ins_simps [simp]:
  "iid (subst_ins a b i) = iid i" "ikind (subst_ins a b i) = subst_kind a b (ikind i)"
  by (simp_all add: subst_ins_def)

lemma bins_rauw:
  "k < length (fblocks F) \<Longrightarrow> bins (fblocks (rauw a b F) ! k) = map (subst_ins a b) (bins (fblocks F ! k))"
  by (simp add: rauw_def map_ins_def map_blocks_def subst_ins_def)

lemma blank_subst: "blank (subst_kind a b k) = blank k"
  by (cases k) (simp_all add: option.map_comp comp_def)

lemma plain_subst: "plain k \<Longrightarrow> plain (subst_kind (InsRef n) b k)"
  by (cases k) auto

lemma load_subst: "plain k \<Longrightarrow> load_global (subst_kind (InsRef n) b k) = load_global k"
  by (cases k) auto

lemma store_subst:
  "plain k \<Longrightarrow> global_store (subst_kind (InsRef n) b k) = map_option (\<lambda>(g, v). (g, subst_val (InsRef n) b v)) (global_store k)"
  by (cases k) auto

lemma view_subst: "plain (ikind i) \<Longrightarrow> mem_view (subst_ins (InsRef n) b i) = mem_view i"
  by (simp add: mem_view_def load_subst store_subst option.map_comp comp_def split_beta)

lemma store_to_view: "store_to g i \<noteq> None \<longleftrightarrow> snd (snd (mem_view i)) = Some g"
  by (auto simp: store_to_def mem_view_def split: option.splits)

lemma aliases_view:
  assumes "map mem_view is' = map mem_view is" and "k < length is"
  shows "aliases_at is' k = aliases_at is k"
proof -
  have len: "length is' = length is" using map_eq_imp_length_eq [OF assms(1)] .
  have nth: "mem_view (is' ! n) = mem_view (is ! n)" if "n < length is" for n
    using arg_cong [OF assms(1), of "\<lambda>xs. xs ! n"] that len by simp
  have e: "map (\<lambda>s. (x, iid s)) (filter (\<lambda>s. store_to g s \<noteq> None) js) =
      map (\<lambda>r. (x, fst r)) (filter (\<lambda>r. snd (snd r) = Some g) (map mem_view js))" for x :: nat and g js
    unfolding store_to_view by (simp add: filter_map comp_def) (simp add: mem_view_def)
  have "map mem_view (rev (take k is')) = map mem_view (rev (take k is))"
    using assms(1) by (metis rev_map take_map)
  then show ?thesis
    using nth [OF assms(2)] unfolding aliases_at_def e by (auto simp: mem_view_def split: option.split)
qed

section \<open>One replacement\<close>

lemma eval_subst:
  "env n = eval m env v \<Longrightarrow> eval m env (subst_val (InsRef n) v w) = eval m env w"
  by (simp add: eval_def)

lemma exec_ins_subst:
  assumes "fst st n = eval m (fst st) v" and "plain (ikind i)"
  shows "exec_ins m (subst_ins (InsRef n) v i) st = exec_ins m i st"
  using assms(2) eval_subst [OF assms(1)]
  by (auto simp: exec_ins_def load_subst store_subst blank_subst operands_subst_kind comp_def
      split: option.splits simp del: subst_val.simps)

text \<open>Instructions that define neither \<open>n\<close> nor what \<open>v\<close> refers to keep the two equal.\<close>

lemma exec_ins_keeps:
  assumes "iid i \<noteq> n" and "v \<noteq> InsRef (iid i)"
  shows "fst (exec_ins m i st) n = fst st n \<and> eval m (fst (exec_ins m i st)) v = eval m (fst st) v"
  using assms by (auto simp: exec_ins_def eval_def split: option.splits val.splits)

lemma exec_subst:
  assumes "fst st n = eval m (fst st) v"
    and "\<And>i. i \<in> set is \<Longrightarrow> plain (ikind i) \<and> iid i \<noteq> n \<and> v \<noteq> InsRef (iid i)"
  shows "exec m (map (subst_ins (InsRef n) v) is) st = exec m is st"
  using assms
proof (induction "is" arbitrary: st)
  case Nil
  then show ?case by simp
next
  case (Cons i "is")
  have "exec_ins m (subst_ins (InsRef n) v i) st = exec_ins m i st"
    using Cons.prems by (intro exec_ins_subst) auto
  moreover have "fst (exec_ins m i st) n = eval m (fst (exec_ins m i st)) v"
    using exec_ins_keeps [of i n v m st] Cons.prems by simp
  ultimately show ?case using Cons.IH [of "exec_ins m i st"] Cons.prems(2) by (simp add: exec_def)
qed

lemma exec_keeps_global:
  assumes "\<And>i. i \<in> set is \<Longrightarrow> store_to g i = None \<and> v \<noteq> InsRef (iid i)"
  shows "snd (exec m is st) g = snd st g \<and> eval m (fst (exec m is st)) v = eval m (fst st) v"
  using assms
proof (induction "is" arbitrary: st)
  case Nil
  then show ?case by (simp add: exec_def)
next
  case (Cons i "is")
  have "snd (exec_ins m i st) g = snd st g"
    using Cons.prems [of i] by (auto simp: exec_ins_def store_to_def split: option.splits if_splits)
  moreover have "eval m (fst (exec_ins m i st)) v = eval m (fst st) v"
    using Cons.prems [of i] by (auto simp: exec_ins_def eval_def split: option.splits val.splits)
  ultimately show ?case using Cons.IH [of "exec_ins m i st"] Cons.prems by (simp add: exec_def)
qed

lemma exec_append: "exec m (xs @ ys) st = exec m ys (exec m xs st)"
  by (simp add: exec_def)

lemma exec_forward:
  assumes "ikind s = Store v (GlobalVar g)" and "load_global (ikind l) = Some g"
    and "\<forall>i \<in> set mid. store_to g i = None"
    and "\<forall>i \<in> set (s # mid @ l # post). v \<noteq> InsRef (iid i)"
    and "\<forall>i \<in> set post. plain (ikind i) \<and> iid i \<noteq> iid l"
    and "\<forall>i \<in> set (pre @ s # mid @ [l]). InsRef (iid l) \<notin> set (operands (ikind i))"
  shows "exec m (map (subst_ins (InsRef (iid l)) v) (pre @ s # mid @ l # post)) st = exec m (pre @ s # mid @ l # post) st"
proof -
  let ?A = "pre @ s # mid @ [l]"
  have "subst_ins (InsRef (iid l)) v i = i" if "i \<in> set ?A" for i
    using assms(6) that subst_kind_id by (auto simp: subst_ins_def)
  then have A: "map (subst_ins (InsRef (iid l)) v) ?A = ?A" by (intro map_idI)
  let ?s0 = "exec m pre st" let ?s1 = "exec_ins m s ?s0" let ?s2 = "exec m mid ?s1" let ?s3 = "exec_ins m l ?s2"
  have "snd ?s1 g = eval m (fst ?s0) v" "fst ?s1 = fst ?s0" using assms(1) by (simp_all add: exec_ins_def)
  then have "snd ?s2 g = eval m (fst ?s2) v"
    using exec_keeps_global [of mid g v m ?s1] assms(3,4) by auto
  moreover have "global_store (ikind l) = None"
    using assms(2) by (cases "ikind l" rule: load_global.cases) auto
  then have s3: "fst ?s3 = (fst ?s2)(iid l := snd ?s2 g)" using assms(2) by (simp add: exec_ins_def)
  ultimately have "fst ?s3 (iid l) = eval m (fst ?s3) v"
    using assms(4) by (auto simp: eval_def split: val.splits)
  then have "exec m (map (subst_ins (InsRef (iid l)) v) post) ?s3 = exec m post ?s3"
    using assms(4,5) by (intro exec_subst) auto
  moreover have "exec m ?A st = ?s3" by (simp add: exec_def)
  ultimately have "exec m (map (subst_ins (InsRef (iid l)) v) ?A @ map (subst_ins (InsRef (iid l)) v) post) st = exec m (?A @ post) st"
    unfolding A by (simp only: exec_append)
  then show ?thesis by simp
qed

section \<open>All replacements of a block\<close>

definition block_of :: "func \<Rightarrow> nat \<Rightarrow> instr list" where
  "block_of F n = bins (fblocks F ! n)"

definition alias_inv :: "'v meaning \<Rightarrow> nat \<Rightarrow> instr list \<Rightarrow> func \<Rightarrow> bool" where
  "alias_inv m n is F \<longleftrightarrow> wf_func F \<and> n < length (fblocks F) \<and> map mem_view (block_of F n) = map mem_view is
     \<and> (\<forall>i \<in> set (block_of F n). plain (ikind i)) \<and> defs_first (block_of F n)
     \<and> (\<forall>st. exec m (block_of F n) st = exec m is st)"

lemma block_rauw: "n < length (fblocks F) \<Longrightarrow> block_of (rauw a b F) n = map (subst_ins a b) (block_of F n)"
  by (simp add: block_of_def bins_rauw)

lemma block_func_ins: "n < length (fblocks F) \<Longrightarrow> set (block_of F n) \<subseteq> set (func_ins F)"
  by (auto simp: block_of_def func_ins_def) (metis nth_mem)

lemma block_distinct: "wf_func F \<Longrightarrow> n < length (fblocks F) \<Longrightarrow> distinct (map iid (block_of F n))"
  unfolding wf_func_def ins_ids_def func_ins_def map_concat block_of_def by (simp add: distinct_concat_iff)

text \<open>Where the nearest store stands.\<close>

lemma aliases_split:
  assumes "aliases_at is k = a # rest" and "k < length is"
  obtains pre s mid g where "is = pre @ s # mid @ is ! k # drop (Suc k) is" and "length pre < k"
    and "load_global (ikind (is ! k)) = Some g" and "store_to g s \<noteq> None" and "\<forall>i \<in> set mid. store_to g i = None"
    and "a = (iid (is ! k), iid s)"
    and "\<forall>b \<in> set rest. \<exists>i \<in> set is. b = (iid (is ! k), iid i) \<and> store_to g i \<noteq> None"
proof -
  obtain g where g: "load_global (ikind (is ! k)) = Some g"
    using assms(1) by (auto simp: aliases_at_def split: option.splits)
  obtain s ss where f: "filter (\<lambda>s. store_to g s \<noteq> None) (rev (take k is)) = s # ss"
    and a: "a = (iid (is ! k), iid s)" and rest: "rest = map (\<lambda>s. (iid (is ! k), iid s)) ss"
    using assms(1) g by (auto simp: aliases_at_def map_eq_Cons_conv)
  from f obtain us vs where uv: "rev (take k is) = us @ s # vs" "\<forall>u \<in> set us. store_to g u = None" "store_to g s \<noteq> None"
    by (auto simp: filter_eq_Cons_iff)
  have "take k is = rev (us @ s # vs)" using uv(1) by (metis rev_rev_ident)
  then have t: "take k is = rev vs @ s # rev us" by simp
  have "set ss \<subseteq> {i \<in> set is. store_to g i \<noteq> None}"
  proof
    fix i assume "i \<in> set ss"
    then have "i \<in> set (filter (\<lambda>s. store_to g s \<noteq> None) (rev (take k is)))" unfolding f by simp
    then show "i \<in> {i \<in> set is. store_to g i \<noteq> None}" using set_take_subset [of k "is"] by auto
  qed
  moreover have "is = take k is @ is ! k # drop (Suc k) is" by (rule id_take_nth_drop [OF assms(2)])
  moreover have "length (rev vs) < k" using arg_cong [OF t, of length] assms(2) by simp
  ultimately have c: "is = rev vs @ s # rev us @ is ! k # drop (Suc k) is" "length (rev vs) < k"
    "\<forall>i \<in> set (rev us). store_to g i = None"
    "\<forall>b \<in> set rest. \<exists>i \<in> set is. b = (iid (is ! k), iid i) \<and> store_to g i \<noteq> None"
    using uv(2) rest t by auto
  show thesis by (rule that [OF c(1,2) g uv(3) c(3) a c(4)])
qed

lemma defs_first_use:
  "defs_first is \<Longrightarrow> p < length is \<Longrightarrow> q < length is \<Longrightarrow> InsRef (iid (is ! q)) \<in> set (operands (ikind (is ! p))) \<Longrightarrow> q < p"
  by (simp add: defs_first_def)

lemma forward_ok:
  assumes d: "defs_first is" and "is = pre @ s # mid @ l # post" and s: "ikind s = Store v p"
  shows "\<forall>i \<in> set (s # mid @ l # post). v \<noteq> InsRef (iid i)"
    and "\<forall>i \<in> set (pre @ s # mid @ [l]). InsRef (iid l) \<notin> set (operands (ikind i))"
proof -
  have at: "is ! length pre = s" "is ! (length pre + Suc (length mid)) = l" using assms(2) by (auto simp: nth_append)
  show "\<forall>i \<in> set (s # mid @ l # post). v \<noteq> InsRef (iid i)"
  proof
    fix i assume "i \<in> set (s # mid @ l # post)"
    then obtain q where q: "q < length (s # mid @ l # post)" "(s # mid @ l # post) ! q = i" by (auto simp only: in_set_conv_nth)
    then have i: "is ! (length pre + q) = i" "length pre + q < length is" unfolding assms(2) by simp_all
    show "v \<noteq> InsRef (iid i)"
    proof
      assume "v = InsRef (iid i)"
      then have "InsRef (iid (is ! (length pre + q))) \<in> set (operands (ikind (is ! length pre)))" using i at s by simp
      from defs_first_use [OF d _ i(2) this] i(2) show False by simp
    qed
  qed
  show "\<forall>i \<in> set (pre @ s # mid @ [l]). InsRef (iid l) \<notin> set (operands (ikind i))"
  proof
    fix i assume "i \<in> set (pre @ s # mid @ [l])"
    then obtain q where q: "q < length (pre @ s # mid @ [l])" "(pre @ s # mid @ [l]) ! q = i" by (auto simp only: in_set_conv_nth)
    moreover have "is ! q = (pre @ s # mid @ [l]) ! q" using q(1) nth_append [of "pre @ s # mid @ [l]" post q] assms(2) by simp
    ultimately have i: "is ! q = i" "q \<le> length pre + Suc (length mid)" by simp_all
    show "InsRef (iid l) \<notin> set (operands (ikind i))"
      using defs_first_use [OF d, of q "length pre + Suc (length mid)"] i at assms(2) by (auto simp: not_less)
  qed
qed

lemma defs_first_subst:
  assumes d: "defs_first is" and e: "is = pre @ s # mid @ l # post" and s: "ikind s = Store v p"
  shows "defs_first (map (subst_ins (InsRef (iid l)) v) is)"
  unfolding defs_first_def
proof (intro allI impI)
  let ?js = "map (subst_ins (InsRef (iid l)) v) is"
  fix p' q assume len: "p' < length ?js" "q < length ?js" and u: "InsRef (iid (?js ! q)) \<in> set (operands (ikind (?js ! p')))"
  have at: "is ! length pre = s" "is ! (length pre + Suc (length mid)) = l" using e by (auto simp: nth_append)
  from u len consider "InsRef (iid (is ! q)) \<in> set (operands (ikind (is ! p')))"
    | "InsRef (iid l) \<in> set (operands (ikind (is ! p')))" "v = InsRef (iid (is ! q))"
    by (auto simp: operands_subst_kind split: if_splits)
  then show "q < p'"
  proof cases
    case 1
    then show ?thesis using defs_first_use [OF d, of p' q] len by simp
  next
    case 2
    then have "length pre + Suc (length mid) < p'"
      using defs_first_use [OF d, of p' "length pre + Suc (length mid)"] len at e by auto
    moreover have "q < length pre"
      using defs_first_use [OF d, of "length pre" q] len at e s 2(2) by auto
    ultimately show ?thesis by simp
  qed
qed

lemma replace_again:
  assumes "unused F l" and "\<forall>b \<in> set rest. fst b = l \<and> (\<exists>i v p. find_ins F (snd b) = Some i \<and> ikind i = Store v p)"
  shows "rfold replace_alias rest F = Inr F"
  using assms(2)
proof (induction rest)
  case (Cons b rest)
  then obtain i v p where i: "fst b = l" "find_ins F (snd b) = Some i" "ikind i = Store v p" by auto
  have "i \<in> set (func_ins F)" using i(2) by (auto simp: find_ins_def find_Some_iff)
  then have "v \<noteq> InsRef l" using assms(1) i(3) by (auto simp: unused_def)
  then have "replace_alias b F = Inr F" using i assms(1) by (simp add: replace_alias_def rauw_unused)
  with Cons show ?case by simp
qed simp

lemma stored_at: "store_to g s \<noteq> None \<Longrightarrow> \<exists>v. ikind s = Store v (GlobalVar g)"
  by (cases "store_to g s") (auto simp: store_to_iff)

lemma group_step:
  assumes inv: "alias_inv m n is F" and k: "k < length is"
  shows "\<exists>F'. rfold replace_alias (aliases_at is k) F = Inr F' \<and> alias_inv m n is F'
    \<and> (aliases_at is k \<noteq> [] \<longrightarrow> unused F' (iid (is ! k))) \<and> (\<forall>x. unused F x \<longrightarrow> unused F' x)"
proof (cases "aliases_at is k")
  case Nil
  then show ?thesis using inv by simp
next
  case (Cons a rest)
  let ?b = "block_of F n"
  have view: "map mem_view ?b = map mem_view is" and wf: "wf_func F" and n: "n < length (fblocks F)"
    and plain: "\<forall>i \<in> set ?b. plain (ikind i)" and d: "defs_first ?b"
    and ex: "\<And>st. exec m ?b st = exec m is st" using inv by (auto simp: alias_inv_def)
  have len: "length ?b = length is" using map_eq_imp_length_eq [OF view] .
  have "mem_view (?b ! k) = mem_view (is ! k)" using arg_cong [OF view, of "\<lambda>xs. xs ! k"] k len by simp
  then have l: "iid (?b ! k) = iid (is ! k)" by (simp add: mem_view_def)
  have "aliases_at ?b k = a # rest" using aliases_view [OF view k] Cons by simp
  from aliases_split [OF this] k len obtain pre s mid g where e: "?b = pre @ s # mid @ ?b ! k # drop (Suc k) ?b"
    and g: "load_global (ikind (?b ! k)) = Some g" and st: "store_to g s \<noteq> None" and mid: "\<forall>i \<in> set mid. store_to g i = None"
    and a: "a = (iid (?b ! k), iid s)"
    and rest: "\<forall>c \<in> set rest. \<exists>i \<in> set ?b. c = (iid (?b ! k), iid i) \<and> store_to g i \<noteq> None"
    by metis
  from stored_at [OF st] obtain v where v: "ikind s = Store v (GlobalVar g)" by blast
  note fw = forward_ok [OF d e v]
  have vl: "v \<noteq> InsRef (iid (is ! k))" using fw(1) l by auto
  have find: "find_ins G (iid i) = Some i" if "i \<in> set (block_of G n)" "wf_func G" "n < length (fblocks G)" for i G
    using find_ins_unique [OF that(2)] block_func_ins [OF that(3)] that(1) by blast
  have sb: "s \<in> set ?b" by (subst e) simp
  define F1 where "F1 = rauw (InsRef (iid (is ! k))) v F"
  have step: "replace_alias a F = Inr F1"
    using find [OF sb wf n] v vl a l by (simp add: replace_alias_def F1_def)
  have b1: "block_of F1 n = map (subst_ins (InsRef (iid (is ! k))) v) ?b" using block_rauw [OF n] by (simp add: F1_def)
  have post: "\<forall>i \<in> set (drop (Suc k) ?b). plain (ikind i) \<and> iid i \<noteq> iid (?b ! k)"
  proof -
    have "distinct (map iid (pre @ s # mid @ ?b ! k # drop (Suc k) ?b))"
      using block_distinct [OF wf n] by (subst (asm) e)
    then show ?thesis using plain set_drop_subset [of "Suc k" ?b] by auto (metis image_eqI)
  qed
  have "exec m (block_of F1 n) st = exec m ?b st" for st
    unfolding b1 l [symmetric] by (subst (2 3) e) (rule exec_forward [OF v g mid fw(1) post fw(2)])
  moreover have "map mem_view (block_of F1 n) = map mem_view is"
    using plain view by (simp add: b1 view_subst flip: view cong: map_cong)
  moreover have "defs_first (block_of F1 n)"
    using defs_first_subst [OF d e v] by (simp add: b1 l)
  ultimately have inv1: "alias_inv m n is F1"
    using wf n plain ex by (auto simp: alias_inv_def F1_def block_rauw plain_subst) (simp add: rauw_def map_ins_def map_blocks_def)
  have un1: "unused F1 (iid (is ! k))" unfolding F1_def by (rule unused_rauw_same [OF vl])
  have "unused F1 x" if "unused F x" for x
  proof -
    have "s \<in> set (func_ins F)" using sb block_func_ins [OF n] by blast
    then have "v \<noteq> InsRef x" using that v by (auto simp: unused_def)
    then show ?thesis unfolding F1_def by (rule unused_rauw_other [OF that])
  qed
  moreover have "rfold replace_alias rest F1 = Inr F1"
  proof (rule replace_again [OF un1], intro ballI)
    fix c assume "c \<in> set rest"
    with rest obtain i where i: "i \<in> set ?b" "c = (iid (?b ! k), iid i)" "store_to g i \<noteq> None" by blast
    let ?j = "subst_ins (InsRef (iid (is ! k))) v i"
    have "?j \<in> set (block_of F1 n)" using i(1) b1 by auto
    moreover have "wf_func F1" "n < length (fblocks F1)" using inv1 by (auto simp: alias_inv_def)
    ultimately have "find_ins F1 (iid ?j) = Some ?j" by (rule find)
    with stored_at [OF i(3)] i(2) l show "fst c = iid (is ! k) \<and> (\<exists>i v p. find_ins F1 (snd c) = Some i \<and> ikind i = Store v p)"
      by fastforce
  qed
  ultimately show ?thesis using step inv1 un1 Cons by simp
qed

lemma groups:
  assumes "alias_inv m n is F" and "\<forall>k \<in> set ks. k < length is"
  shows "\<exists>F'. rfold replace_alias (concat (map (aliases_at is) ks)) F = Inr F' \<and> alias_inv m n is F'
    \<and> (\<forall>k \<in> set ks. aliases_at is k \<noteq> [] \<longrightarrow> unused F' (iid (is ! k))) \<and> (\<forall>x. unused F x \<longrightarrow> unused F' x)"
  using assms
proof (induction ks arbitrary: F)
  case Nil
  then show ?case by simp
next
  case (Cons k ks)
  from group_step [OF Cons.prems(1), of k] Cons.prems(2) obtain F1 where
    1: "rfold replace_alias (aliases_at is k) F = Inr F1" "alias_inv m n is F1"
      "aliases_at is k \<noteq> [] \<longrightarrow> unused F1 (iid (is ! k))" "\<forall>x. unused F x \<longrightarrow> unused F1 x" by auto
  from Cons.IH [OF 1(2)] Cons.prems(2) obtain F2 where
    2: "rfold replace_alias (concat (map (aliases_at is) ks)) F1 = Inr F2" "alias_inv m n is F2"
      "\<forall>k \<in> set ks. aliases_at is k \<noteq> [] \<longrightarrow> unused F2 (iid (is ! k))" "\<forall>x. unused F1 x \<longrightarrow> unused F2 x" by auto
  from 1 2 show ?case by (intro exI [of _ F2]) (auto simp: rfold_append)
qed

lemma aliases_nonempty:
  "j < k \<Longrightarrow> k < length is \<Longrightarrow> load_global (ikind (is ! k)) = Some g \<Longrightarrow> store_to g (is ! j) \<noteq> None \<Longrightarrow> aliases_at is k \<noteq> []"
  unfolding aliases_at_def by (simp add: filter_empty_conv) (metis in_set_conv_nth length_take min.absorb4 nth_take)

section \<open>Properties\<close>

text \<open>
  C33. On a block whose instructions touch memory by global names only and use results after their definition,
  the pass does not stop, every execution of the block computes the same values and leaves the same
  globals as before, and a load with an earlier store to its global in the block has no use left in the function.
\<close>

theorem load_alias_sound:
  assumes "wf_func F" and "n < length (fblocks F)" and "block_of F n \<noteq> []"
    and "\<forall>i \<in> set (block_of F n). plain (ikind i)" and "defs_first (block_of F n)"
  shows "\<exists>F'. run_on_basic_block (fblocks F ! n) F = Inr (F', aliases (block_of F n) \<noteq> [])
    \<and> (\<forall>st. exec m (block_of F' n) st = exec m (block_of F n) st)
    \<and> (\<forall>k < length (block_of F n). \<forall>j < k. \<forall>g. load_global (ikind (block_of F n ! k)) = Some g
         \<and> store_to g (block_of F n ! j) \<noteq> None \<longrightarrow> unused F' (iid (block_of F n ! k)))"
proof -
  let ?is = "block_of F n"
  have "alias_inv m n ?is F" using assms by (simp add: alias_inv_def)
  from groups [OF this, of "rev [1..<length ?is]"] obtain F' where
    F': "rfold replace_alias (aliases ?is) F = Inr F'" "alias_inv m n ?is F'"
      "\<forall>k \<in> set (rev [1..<length ?is]). aliases_at ?is k \<noteq> [] \<longrightarrow> unused F' (iid (?is ! k))"
    by (auto simp: aliases_def)
  have "run_on_basic_block (fblocks F ! n) F = Inr (F', aliases ?is \<noteq> [])"
    using F'(1) assms(3) by (simp add: run_on_basic_block_def block_of_def)
  moreover have "\<forall>st. exec m (block_of F' n) st = exec m ?is st" using F'(2) by (simp add: alias_inv_def)
  moreover have "unused F' (iid (?is ! k))"
    if "k < length ?is" "j < k" "load_global (ikind (?is ! k)) = Some g" "store_to g (?is ! j) \<noteq> None" for k j g
    using F'(3) aliases_nonempty [OF that(2,1,3,4)] that by auto
  ultimately show ?thesis by blast
qed

definition alias_tb :: func where
  "alias_tb = \<lparr>fid = 1, fname = ''f'', fblocks = [\<lparr>bid = 1, bname = ''entry'', bins =
     [mk_ins 1 (Store (ConstInt 32 5) (GlobalVar ''R0'')),
      mk_ins 2 (Store (ConstInt 32 7) (GlobalVar ''R0'')),
      mk_ins 3 (Load (GlobalVar ''R0'')),
      mk_ins 4 (Store (InsRef 3) (GlobalVar ''R1'')),
      mk_ins 5 (Ret None)]\<rparr>]\<rparr>"

theorem load_alias_sound_witness:
  "\<exists>F'. run_on_basic_block (fblocks alias_tb ! 0) alias_tb = Inr (F', True) \<and> unused F' 3"
proof -
  have b: "block_of alias_tb 0 = [mk_ins 1 (Store (ConstInt 32 5) (GlobalVar ''R0'')),
      mk_ins 2 (Store (ConstInt 32 7) (GlobalVar ''R0'')), mk_ins 3 (Load (GlobalVar ''R0'')),
      mk_ins 4 (Store (InsRef 3) (GlobalVar ''R1'')), mk_ins 5 (Ret None)]"
    by (simp add: block_of_def alias_tb_def)
  have "wf_func alias_tb" "0 < length (fblocks alias_tb)"
    by (simp_all add: wf_func_def alias_tb_def ins_ids_def func_ins_def)
  moreover have "block_of alias_tb 0 \<noteq> []" "\<forall>i \<in> set (block_of alias_tb 0). plain (ikind i)" by (simp_all add: b)
  moreover have "defs_first (block_of alias_tb 0)"
    unfolding b defs_first_def by (simp add: All_less_Suc numeral_eq_Suc)
  ultimately obtain F' where F': "run_on_basic_block (fblocks alias_tb ! 0) alias_tb = Inr (F', aliases (block_of alias_tb 0) \<noteq> [])"
    "\<forall>k < length (block_of alias_tb 0). \<forall>j < k. \<forall>g. load_global (ikind (block_of alias_tb 0 ! k)) = Some g
       \<and> store_to g (block_of alias_tb 0 ! j) \<noteq> None \<longrightarrow> unused F' (iid (block_of alias_tb 0 ! k))"
    using load_alias_sound [of alias_tb 0 "((\<lambda>v. 0 :: nat), (\<lambda>k vs g. 0))"] by blast
  have "aliases_at (block_of alias_tb 0) 2 \<noteq> []"
    by (rule aliases_nonempty [of 1 2 _ "''R0''"]) (simp_all add: b store_to_def)
  moreover have "2 \<in> set (rev [1..<length (block_of alias_tb 0)])" by (simp add: b)
  ultimately have "aliases (block_of alias_tb 0) \<noteq> []" unfolding aliases_def by (metis concat_eq_Nil_conv image_eqI list.set_map)
  moreover have "unused F' 3"
    using F'(2) [rule_format, of 2 1 "''R0''"] by (simp add: b store_to_def)
  ultimately show ?thesis using F'(1) by auto
qed

end
