(* ===== verification/Mark_Explore.thy ===== *)
theory Mark_Explore
  imports ARM_Mark Explore_BBs
begin

text \<open>
  The marking passes and the exploration of \<open>BuildFunctions\<close> put together: whatever the passes mark,
  \<open>exploreBB\<close> can follow, and where it goes is where the classified stores to \<open>PC\<close> of the unmarked blocks lead.
\<close>

section \<open>Where a classified store leads\<close>

text \<open>A program counter as it comes back from metadata.\<close>

definition read_back :: "u64 \<Rightarrow> u64" where
  "read_back pc = (if unat pc < 2 ^ 63 then pc else 2 ^ 63 - 1)"

text \<open>
  A jump table written by \<open>ReplaceConstantLoads\<close> has all its entries and a default; the marking passes do not look
  at it.
\<close>

definition switch_complete :: "instr \<Rightarrow> bool" where
  "switch_complete i \<longleftrightarrow> (has_md i ''INS_switch_cnt'' \<longrightarrow>
     (\<exists>n. md_pc i ''INS_switch_cnt'' = Some n \<and> (\<forall>k < unat n. md_pc i (case_name k) \<noteq> None))
     \<and> md_pc i ''INS_switch_default'' \<noteq> None)"

definition switch_target :: "instr \<Rightarrow> u64 \<Rightarrow> bool" where
  "switch_target i pc \<longleftrightarrow>
     (\<exists>n k. md_pc i ''INS_switch_cnt'' = Some n \<and> k < unat n \<and> md_pc i (case_name k) = Some pc)
     \<or> has_md i ''INS_switch_cnt'' \<and> md_pc i ''INS_switch_default'' = Some pc"

fun class_leads :: "pc_class \<Rightarrow> instr \<Rightarrow> u64 \<Rightarrow> bool" where
  "class_leads (DirectCall t r) i pc \<longleftrightarrow> pc = read_back r"
| "class_leads (IndirectCall r) i pc \<longleftrightarrow> pc = read_back r"
| "class_leads FuncReturn i pc \<longleftrightarrow> False"
| "class_leads (DirectJump t) i pc \<longleftrightarrow> pc = read_back t"
| "class_leads IndirectJump i pc \<longleftrightarrow> switch_target i pc"

text \<open>Control flow between translated blocks before they are marked.\<close>

definition class_flows :: "(func \<Rightarrow> func) \<Rightarrow> bbtable \<Rightarrow> func \<Rightarrow> func \<Rightarrow> bool" where
  "class_flows raw t f g \<longleftrightarrow> (\<exists>pcEnd B n c pc. getPCEndOfFunc (raw f) = Inr pcEnd \<and> B \<in> set (fblocks (raw f))
     \<and> n < length (bins B) \<and> block_class pcEnd (raw f) (bins B) n = Some c
     \<and> class_leads c (bins B ! n) pc \<and> map_of t pc = Some g)"

definition marked_from :: "func \<Rightarrow> func \<Rightarrow> bool" where
  "marked_from F f \<longleftrightarrow> arm_mark_all F = Inr f \<and> (\<forall>i \<in> set (func_ins F). unmarked i \<and> switch_complete i)"

section \<open>The marks of one instruction\<close>

lemma class_marks:
  assumes "marked_as (Some c) i"
  shows "marked_call i \<longleftrightarrow> (\<exists>t r. c = DirectCall t r) \<or> (\<exists>r. c = IndirectCall r)"
    and "has_md i ''INS_directJump'' \<longleftrightarrow> (\<exists>t. c = DirectJump t)"
    and "has_md i ''INS_indirectJump'' \<longleftrightarrow> c = IndirectJump"
    and "has_md i ''INS_return'' \<longleftrightarrow> c = FuncReturn"
  using assms by (cases c; simp add: marked_call_def mark_kind_simps)+

lemma class_pcs:
  assumes "marked_as (Some c) i"
  shows "c = DirectCall t r \<or> c = IndirectCall r \<Longrightarrow> md_pc i ''INS_callReturn'' = Some (read_back r)"
    and "c = DirectJump t \<Longrightarrow> md_pc i ''INS_directJump'' = Some (read_back t)"
  using assms by (auto simp: md_pc_Some read_back_def mark_kind_simps getHex_hex_node)

lemma class_well_marked:
  assumes "marked_as (Some c) i" and "switch_complete i"
  shows "well_marked i"
  using assms(2) class_marks [OF assms(1)] class_pcs [OF assms(1)]
  by (cases c) (auto simp: well_marked_def switch_complete_def)

lemma class_jumps:
  assumes "marked_as (Some c) i"
  shows "jumps_to i pc \<longleftrightarrow> class_leads c i pc"
  using class_marks [OF assms] class_pcs [OF assms]
  by (cases c) (auto simp: jumps_to.simps marked_indirect_def switch_target_def dest: md_pc_has)

lemma case_name_kept [simp]: "case_name k \<in> kept_kinds" "''INS_switch_cnt'' \<in> kept_kinds" "''INS_switch_default'' \<in> kept_kinds"
proof -
  have "''INS_switch_case'' \<notin> take 15 ` set mark_kinds" by (simp add: mark_kinds_def)
  then have "take 15 (case_name k) \<notin> take 15 ` set mark_kinds" by (simp add: take_case_name)
  then show "case_name k \<in> kept_kinds" by (auto simp: kept_kinds_def)
qed (simp_all add: kept_kinds_def mark_kinds_def)

lemma switch_kept:
  assumes "\<forall>k \<in> kept_kinds. get_md i k = get_md j k"
  shows "switch_complete i \<longleftrightarrow> switch_complete j" and "switch_target i pc \<longleftrightarrow> switch_target j pc"
proof -
  have "md_pc i k = md_pc j k" "has_md i k = has_md j k" if "k \<in> kept_kinds" for k
    using assms that getHex_cong [of i k j] by (simp_all add: md_pc_def has_md_def get_md_def)
  then show "switch_complete i \<longleftrightarrow> switch_complete j" and "switch_target i pc \<longleftrightarrow> switch_target j pc"
    by (simp_all add: switch_complete_def switch_target_def)
qed

section \<open>From a marked block back to the unmarked one\<close>

lemma arm_mark_all_frame:
  assumes "arm_mark_all F = Inr F'"
  shows "skeleton F' = skeleton F" and "kept_view F' = kept_view F"
proof -
  obtain F1 F2 c1 c2 c3 where "arm_mark_call F = Inr (F1, c1)" "arm_mark_return F1 = Inr (F2, c2)"
    "arm_mark_jumps F2 = Inr (F', c3)"
    using assms by (auto simp: arm_mark_all_def rbind_eq_Inr)
  note p = mark_call.keeps_skeleton [OF this(1)] mark_return.keeps_skeleton [OF this(2)] mark_jumps.keeps_skeleton [OF this(3)]
    mark_call.keeps_view [OF this(1)] mark_return.keeps_view [OF this(2)] mark_jumps.keeps_view [OF this(3)]
  from p show "skeleton F' = skeleton F" and "kept_view F' = kept_view F" by simp_all
qed

lemma same_place:
  assumes "skeleton F' = skeleton F" and "kept_view F' = kept_view F" and "b < length (fblocks F)"
  shows "length (fblocks F') = length (fblocks F)"
    and "map ikind (bins (fblocks F' ! b)) = map ikind (bins (fblocks F ! b))"
    and "n < length (bins (fblocks F ! b)) \<Longrightarrow> k \<in> kept_kinds \<Longrightarrow>
      get_md (bins (fblocks F' ! b) ! n) k = get_md (bins (fblocks F ! b) ! n) k"
proof -
  show len: "length (fblocks F') = length (fblocks F)"
    using arg_cong [OF assms(1), of length] by (simp add: skeleton_def)
  have k: "map ikind (bins (fblocks F' ! m)) = map ikind (bins (fblocks F ! m))" if "m < length (fblocks F)" for m
    using arg_cong [OF assms(1), of "\<lambda>l. map snd (snd (l ! m))"] that len by (simp add: skeleton_def comp_def)
  then show "map ikind (bins (fblocks F' ! b)) = map ikind (bins (fblocks F ! b))" using assms(3) .
  let ?v = "\<lambda>F. map (\<lambda>B. map (\<lambda>i k. if k \<in> kept_kinds then get_md i k else None) (bins B)) (fblocks F)"
  have "concat (?v F') = concat (?v F)"
    using assms(2) by (simp add: kept_view_def func_ins_def map_concat comp_def)
  moreover have "\<forall>(x, y) \<in> set (zip (?v F') (?v F)). length x = length y"
    using k [THEN arg_cong [where f = length]] len by (auto simp: set_zip)
  ultimately have "?v F' = ?v F" using len by (intro concat_injective) auto
  then have e: "?v F' ! b ! n = ?v F ! b ! n" by simp
  have l: "length (bins (fblocks F' ! b)) = length (bins (fblocks F ! b))" using k [OF assms(3), THEN arg_cong [where f = length]] by simp
  show "n < length (bins (fblocks F ! b)) \<Longrightarrow> k \<in> kept_kinds \<Longrightarrow>
      get_md (bins (fblocks F' ! b) ! n) k = get_md (bins (fblocks F ! b) ! n) k"
    using fun_cong [OF e, of k] assms(3) len l by simp
qed

lemma getPCEnd_runs: "arm_mark_all F = Inr F' \<Longrightarrow> \<exists>pcEnd. getPCEndOfFunc F = Inr pcEnd"
  by (erule arm_mark_all_Inr) blast

text \<open>Each store to \<open>PC\<close> of a marked block has the marks of its class, and its jump table is the one from before.\<close>

lemma marked_place:
  assumes "marked_from F f" and "getPCEndOfFunc F = Inr pcEnd" and "b < length (fblocks F)" and "n < length (bins (fblocks F ! b))"
  defines "i \<equiv> bins (fblocks f ! b) ! n"
  shows "i \<in> set (func_ins f)" and "marked_as (block_class pcEnd F (bins (fblocks F ! b)) n) i"
    and "switch_complete i" and "switch_target i pc \<longleftrightarrow> switch_target (bins (fblocks F ! b) ! n) pc"
    and "store_to ''PC'' i = store_to ''PC'' (bins (fblocks F ! b) ! n)"
proof -
  have m: "arm_mark_all F = Inr f" "\<forall>i \<in> set (func_ins F). unmarked i" "\<forall>i \<in> set (func_ins F). switch_complete i"
    using assms(1) by (simp_all add: marked_from_def)
  note p = same_place [OF arm_mark_all_frame [OF m(1)] assms(3)]
  have l: "length (bins (fblocks f ! b)) = length (bins (fblocks F ! b))" using p(2) [THEN arg_cong [where f = length]] by simp
  show "i \<in> set (func_ins f)" unfolding i_def using assms(3,4) p(1) l by (intro mem_func_ins) simp_all
  show "marked_as (block_class pcEnd F (bins (fblocks F ! b)) n) i"
    unfolding i_def by (rule arm_mark_classified [OF m(1) assms(2) m(2) assms(3,4)])
  have "\<forall>k \<in> kept_kinds. get_md i k = get_md (bins (fblocks F ! b) ! n) k" using p(3) [OF assms(4)] by (simp add: i_def)
  from switch_kept [OF this] m(3) mem_func_ins [OF assms(3,4)]
  show "switch_complete i" and "switch_target i pc \<longleftrightarrow> switch_target (bins (fblocks F ! b) ! n) pc" by simp_all
  have "ikind i = ikind (bins (fblocks F ! b) ! n)"
    using arg_cong [OF p(2), of "\<lambda>l. l ! n"] assms(4) l by (simp add: i_def)
  then show "store_to ''PC'' i = store_to ''PC'' (bins (fblocks F ! b) ! n)" by (rule store_to_cong)
qed

lemma marked_store:
  assumes "marked_from F f" and "getPCEndOfFunc F = Inr pcEnd" and "i \<in> pc_stores f"
  obtains B n c where "B \<in> set (fblocks F)" "n < length (bins B)" "block_class pcEnd F (bins B) n = Some c"
    "marked_as (Some c) i" "switch_complete i" "\<And>pc. jumps_to i pc \<longleftrightarrow> class_leads c (bins B ! n) pc"
proof -
  have f: "arm_mark_all F = Inr f" using assms(1) by (simp add: marked_from_def)
  obtain b n where b: "b < length (fblocks f)" "n < length (bins (fblocks f ! b))" "i = bins (fblocks f ! b) ! n"
    using assms(3) by (auto simp: pc_stores_def func_ins_def in_set_conv_nth)
  have fr: "skeleton F = skeleton f" "kept_view F = kept_view f" using arm_mark_all_frame [OF f] by simp_all
  note p = same_place [OF fr b(1)]
  have F: "b < length (fblocks F)" "n < length (bins (fblocks F ! b))"
    using b p(1) p(2) [THEN arg_cong [where f = length]] by simp_all
  note q = marked_place [OF assms(1,2) F, folded b(3)]
  have "store_to ''PC'' (bins (fblocks F ! b) ! n) \<noteq> None" using assms(3) q(5) by (simp add: pc_stores_def)
  then obtain c where c: "block_class pcEnd F (bins (fblocks F ! b)) n = Some c" by (auto simp: block_class_def)
  have "class_leads c i pc \<longleftrightarrow> class_leads c (bins (fblocks F ! b) ! n) pc" for pc
    using q(4) [of pc] by (cases c) simp_all
  with that [OF nth_mem [OF F(1)] F(2) c] q(2,3) show thesis using class_jumps [of c i] c by simp
qed

lemma marked_flows:
  assumes "marked_from (raw f) f"
  shows "flows t f g \<longleftrightarrow> class_flows raw t f g"
proof
  obtain pcEnd where e: "getPCEndOfFunc (raw f) = Inr pcEnd"
    using assms getPCEnd_runs unfolding marked_from_def by blast
  {
    assume "flows t f g"
    then obtain i pc where i: "i \<in> pc_stores f" "jumps_to i pc" "map_of t pc = Some g" by (auto simp: flows_def)
    from marked_store [OF assms e i(1)] show "class_flows raw t f g" using i(2,3) e unfolding class_flows_def by metis
  next
    assume "class_flows raw t f g"
    then obtain B n c pc where c: "B \<in> set (fblocks (raw f))" "n < length (bins B)"
      "block_class pcEnd (raw f) (bins B) n = Some c" "class_leads c (bins B ! n) pc" "map_of t pc = Some g"
      using e by (auto simp: class_flows_def)
    then obtain b where b: "b < length (fblocks (raw f))" "B = fblocks (raw f) ! b" by (metis in_set_conv_nth)
    note q = marked_place [OF assms e b(1), of n, folded b(2), OF c(2)]
    let ?i = "bins (fblocks f ! b) ! n"
    have "store_to ''PC'' ?i \<noteq> None" using c(3) q(5) by (auto simp: block_class_def)
    then have "?i \<in> pc_stores f" using q(1) by (simp add: pc_stores_def)
    moreover have "class_leads c ?i pc" using c(4) q(4) by (cases c) simp_all
    then have "jumps_to ?i pc" using class_jumps [of c ?i] q(2) c(3) by simp
    ultimately show "flows t f g" using c(5) by (auto simp: flows_def)
  }
qed

lemma marked_well:
  assumes "marked_from F f"
  shows "func_marked f"
proof -
  obtain pcEnd where e: "getPCEndOfFunc F = Inr pcEnd" using assms getPCEnd_runs unfolding marked_from_def by blast
  show ?thesis unfolding func_marked_iff by (meson marked_store [OF assms e] class_well_marked)
qed

lemma flows_closed:
  assumes "(flows t)\<^sup>*\<^sup>* f g" shows "g \<in> insert f (snd ` set t)"
proof -
  have "h \<in> snd ` set t" if "flows t f h" for f h
    using that by (force simp: flows_def dest: map_of_SomeD)
  with assms show ?thesis by (induction rule: rtranclp_induct) blast+
qed

lemma marked_paths:
  assumes "\<forall>g \<in> insert f0 (snd ` set t). marked_from (raw g) g"
  shows "(flows t)\<^sup>*\<^sup>* f0 g \<longleftrightarrow> (class_flows raw t)\<^sup>*\<^sup>* f0 g"
proof
  assume "(flows t)\<^sup>*\<^sup>* f0 g"
  then show "(class_flows raw t)\<^sup>*\<^sup>* f0 g"
  proof (induction rule: rtranclp_induct)
    case (step g h)
    then have "marked_from (raw g) g" using assms flows_closed by blast
    with step show ?case using marked_flows [of raw g t h] by (meson rtranclp.rtrancl_into_rtrancl)
  qed simp
next
  assume "(class_flows raw t)\<^sup>*\<^sup>* f0 g"
  then show "(flows t)\<^sup>*\<^sup>* f0 g"
  proof (induction rule: rtranclp_induct)
    case (step g h)
    then have "marked_from (raw g) g" using assms flows_closed by blast
    with step show ?case using marked_flows [of raw g t h] by (meson rtranclp.rtrancl_into_rtrancl)
  qed simp
qed

section \<open>Properties\<close>

text \<open>
  C36. Over blocks that the three marking passes have marked (blocks without earlier marks, with complete jump
  tables), \<open>exploreBB\<close> never stops, and it returns the blocks reachable along the classified stores to \<open>PC\<close> of the
  unmarked code: to the end of a block after a call, to the target of a direct jump, to the entries and the default
  of a solved jump table, nowhere from a return or an unsolved indirect jump.
\<close>

theorem marked_blocks_explored:
  assumes "coherent allBBs startBB"
    and "\<forall>g \<in> insert startBB (snd ` set allBBs). marked_from (raw g) g"
  shows "\<exists>BBs ind. exploreBB allBBs startBB = Inr (BBs, ind) \<and> set BBs = {g. (class_flows raw allBBs)\<^sup>*\<^sup>* startBB g}"
proof -
  have m: "\<forall>g. (flows allBBs)\<^sup>*\<^sup>* startBB g \<longrightarrow> func_marked g"
    using assms(2) flows_closed marked_well by blast
  then obtain BBs ind where r: "exploreBB allBBs startBB = Inr (BBs, ind)"
    using explore_total [OF assms(1)] reach_marked by fastforce
  with explore_spec(1) [OF r assms(1)] have "set BBs = {g. (flows allBBs)\<^sup>*\<^sup>* startBB g}" using reach_flows [OF m] by blast
  with r show ?thesis by (simp add: marked_paths [OF assms(2)])
qed

text \<open>The block with a call that returns to 8, explored in a table that holds itself at 8.\<close>

theorem marked_blocks_explored_witness:
  "\<exists>F BBs ind. arm_mark_all sample_call_func = Inr F \<and> exploreBB [(8, F)] F = Inr (BBs, ind) \<and> F \<in> set BBs"
proof -
  obtain F where F: "arm_mark_all sample_call_func = Inr F" using sample_runs by blast
  have s: "\<forall>i \<in> set (func_ins sample_call_func). switch_complete i"
    by (simp add: func_ins_def sample_defs switch_complete_def has_md_def)
  have "\<forall>g \<in> insert F (snd ` set [(8, F)]). marked_from sample_call_func g"
    using F s sample_unmarked by (simp add: marked_from_def)
  from marked_blocks_explored [OF _ this] F show ?thesis by (auto simp: coherent_def)
qed

end
