(* ===== verification/Thumb_Merge.thy ===== *)
theory Thumb_Merge
  imports Pass_Kit
begin

unbundle bit_operations_syntax

text \<open>
  \<open>S2EArmMergePcThumbPass\<close>: adjacent constant stores to \<open>PC\<close> and \<open>thumb\<close>, in either order, are merged: the
  store to \<open>PC\<close> is told the instruction set of the next block, which is also entered in a table, and the store to
  \<open>thumb\<close> is removed.
\<close>

section \<open>The table of instruction sets\<close>

datatype instruction_set = ARM | THUMB | UNKNOWN

type_synonym iset_table = "u64 \<rightharpoonup> instruction_set"

definition iset_key :: "u64 \<Rightarrow> u64" where
  "iset_key pc = pc AND 0xfffffffe"

text \<open>\<open>operator[]\<close> enters the first value of the enumeration for a missing key.\<close>

definition getInstructionSet :: "u64 \<Rightarrow> iset_table \<Rightarrow> instruction_set \<times> iset_table" where
  "getInstructionSet pc m =
     (if m pc = None then (UNKNOWN, m)
      else (case m (iset_key pc) of
          Some s \<Rightarrow> (s, m)
        | None \<Rightarrow> (ARM, m(iset_key pc \<mapsto> ARM))))"

definition setInstructionSetToThumb :: "u64 \<Rightarrow> iset_table \<Rightarrow> iset_table" where
  "setInstructionSetToThumb pc m = m(iset_key pc \<mapsto> THUMB)"

section \<open>runOnFunction\<close>

text \<open>A matching pair: the identities of the two stores, the program counter and the thumb bit.\<close>

record pc_thumb =
  pcStore :: nat
  thumbStore :: nat
  next_pc :: u64
  next_thumb :: bool

definition const_store :: "string \<Rightarrow> instr \<Rightarrow> u64 option" where
  "const_store g i = Option.bind (store_to g i) const_int"

definition pc_thumb_pair :: "instr \<Rightarrow> instr \<Rightarrow> pc_thumb option" where
  "pc_thumb_pair inst nextInstruction =
     (case (const_store ''thumb'' inst, const_store ''PC'' nextInstruction) of
        (Some t, Some pc) \<Rightarrow>
          Some \<lparr>pcStore = iid nextInstruction, thumbStore = iid inst, next_pc = pc, next_thumb = (t \<noteq> 0)\<rparr>
      | _ \<Rightarrow> (case (const_store ''PC'' inst, const_store ''thumb'' nextInstruction) of
          (Some pc, Some t) \<Rightarrow>
            Some \<lparr>pcStore = iid inst, thumbStore = iid nextInstruction, next_pc = pc, next_thumb = (t \<noteq> 0)\<rparr>
        | _ \<Rightarrow> None))"

text \<open>The loop over a block stops at the last instruction, which has no next one.\<close>

fun block_pairs :: "instr list \<Rightarrow> pc_thumb list" where
  "block_pairs (inst # nextInstruction # is) =
     (case pc_thumb_pair inst nextInstruction of None \<Rightarrow> [] | Some p \<Rightarrow> [p]) @ block_pairs (nextInstruction # is)"
| "block_pairs _ = []"

definition pairs_of :: "func \<Rightarrow> pc_thumb list" where
  "pairs_of f = concat (map (\<lambda>b. block_pairs (bins b)) (fblocks f))"

definition mark_pair :: "pc_thumb \<Rightarrow> func \<Rightarrow> func" where
  "mark_pair p f = map_ins (\<lambda>i. if iid i = pcStore p
     then set_md i ''trans.next_instruction_set'' [MDStr (if next_thumb p then ''thumb'' else ''arm'')] else i) f"

definition enter_pair :: "pc_thumb \<Rightarrow> iset_table \<Rightarrow> iset_table" where
  "enter_pair p m = m(iset_key (next_pc p) \<mapsto> (if next_thumb p then THUMB else ARM))"

text \<open>It always reports a change. A store has no uses, so the assertion on them holds.\<close>

definition merge_pc_thumb :: "iset_table \<Rightarrow> func \<Rightarrow> (func \<times> bool \<times> iset_table) res" where
  "merge_pc_thumb m f =
     (let ps = pairs_of f in
      rbind (erase_all (map thumbStore ps) (fold mark_pair ps f)) (\<lambda>f'. Inr (f', True, fold enter_pair ps m)))"

section \<open>When a store is erased twice\<close>

definition to_PC :: "instr \<Rightarrow> bool" where
  "to_PC i \<longleftrightarrow> const_store ''PC'' i \<noteq> None"

definition to_thumb :: "instr \<Rightarrow> bool" where
  "to_thumb i \<longleftrightarrow> const_store ''thumb'' i \<noteq> None"

text \<open>A constant store to \<open>thumb\<close> between two constant stores to \<open>PC\<close>.\<close>

fun sandwich :: "instr list \<Rightarrow> bool" where
  "sandwich (a # b # c # is) = (to_PC a \<and> to_thumb b \<and> to_PC c \<or> sandwich (b # c # is))"
| "sandwich _ = False"

lemma const_store_iff: "const_store g i = Some c \<longleftrightarrow> (\<exists>w. ikind i = Store (ConstInt w c) (GlobalVar g))"
proof -
  have "const_int v = Some c \<longleftrightarrow> (\<exists>w. v = ConstInt w c)" for v by (cases v) auto
  then show ?thesis by (auto simp: const_store_def bind_eq_Some_conv store_to_iff)
qed

lemma not_both: "to_PC i \<Longrightarrow> \<not> to_thumb i"
  by (auto simp: to_PC_def to_thumb_def const_store_iff)

lemma pair_cases:
  "pc_thumb_pair a b = (if to_thumb a \<and> to_PC b
     then Some \<lparr>pcStore = iid b, thumbStore = iid a, next_pc = the (const_store ''PC'' b), next_thumb = (the (const_store ''thumb'' a) \<noteq> 0)\<rparr>
   else if to_PC a \<and> to_thumb b
     then Some \<lparr>pcStore = iid a, thumbStore = iid b, next_pc = the (const_store ''PC'' a), next_thumb = (the (const_store ''thumb'' b) \<noteq> 0)\<rparr>
   else None)"
  by (auto simp: pc_thumb_pair_def to_PC_def to_thumb_def split: option.splits)

lemma block_pairs_ids: "thumbStore ` set (block_pairs is) \<subseteq> iid ` set is"
proof (induction "is" rule: block_pairs.induct)
  case (1 a b "is")
  then show ?case by (auto simp: pair_cases)
qed simp_all

lemma first_thumb: "distinct (map iid (b # c # is)) \<Longrightarrow> to_thumb b \<Longrightarrow>
  iid b \<in> thumbStore ` set (block_pairs (b # c # is)) \<longleftrightarrow> to_PC c"
proof -
  assume "distinct (map iid (b # c # is))" "to_thumb b"
  moreover from this(1) have "iid b \<notin> thumbStore ` set (block_pairs (c # is))"
    using block_pairs_ids [of "c # is"] by auto
  moreover have "\<not> to_PC b" using not_both [of b] \<open>to_thumb b\<close> by blast
  ultimately show ?thesis by (auto simp: pair_cases)
qed

lemma block_pairs_distinct:
  "distinct (map iid is) \<Longrightarrow> distinct (map thumbStore (block_pairs is)) \<longleftrightarrow> \<not> sandwich is"
proof (induction "is" rule: sandwich.induct)
  case (1 a b c "is")
  let ?rest = "block_pairs (b # c # is)"
  have ih: "distinct (map thumbStore ?rest) \<longleftrightarrow> \<not> sandwich (b # c # is)" using 1 by simp
  have a: "iid a \<notin> thumbStore ` set ?rest" using 1(2) block_pairs_ids [of "b # c # is"] by auto
  have b: "to_thumb b \<Longrightarrow> iid b \<in> thumbStore ` set ?rest \<longleftrightarrow> to_PC c" using 1(2) by (intro first_thumb) simp_all
  have e: "block_pairs (a # b # c # is) = (case pc_thumb_pair a b of None \<Rightarrow> [] | Some p \<Rightarrow> [p]) @ ?rest"
    by (simp only: block_pairs.simps)
  consider "to_thumb a" "to_PC b" | "to_PC a" "to_thumb b" | "pc_thumb_pair a b = None" "\<not> (to_PC a \<and> to_thumb b)"
    unfolding pair_cases by (cases "to_thumb a \<and> to_PC b"; cases "to_PC a \<and> to_thumb b") auto
  then show ?case
  proof cases
    case 1
    then show ?thesis using a ih not_both [of a] unfolding e by (auto simp: pair_cases simp del: block_pairs.simps)
  next
    case 2
    then show ?thesis using b ih not_both [of a] unfolding e by (auto simp: pair_cases simp del: block_pairs.simps)
  next
    case 3
    then show ?thesis using ih unfolding e by (auto simp del: block_pairs.simps)
  qed
qed (simp_all add: pair_cases)

lemma pairs_of_distinct:
  "wf_func f \<Longrightarrow> distinct (map thumbStore (pairs_of f)) \<longleftrightarrow> \<not> (\<exists>b \<in> set (fblocks f). sandwich (bins b))"
proof -
  assume "wf_func f"
  then have "distinct (concat (map (\<lambda>b. map iid (bins b)) (fblocks f)))" by (rule wf_blocks_distinct)
  then have "distinct (map thumbStore (concat (map (\<lambda>b. block_pairs (bins b)) (fblocks f))))
      \<longleftrightarrow> \<not> (\<exists>b \<in> set (fblocks f). sandwich (bins b))"
  proof (induction "fblocks f" arbitrary: f)
    case Nil
    then show ?case by simp
  next
    case (Cons b bs)
    have ih: "distinct (map thumbStore (concat (map (\<lambda>b. block_pairs (bins b)) bs))) \<longleftrightarrow> \<not> (\<exists>b \<in> set bs. sandwich (bins b))"
      using Cons.hyps(1) [of "f\<lparr>fblocks := bs\<rparr>"] Cons.prems Cons.hyps(2) [symmetric] by simp
    have "set (map thumbStore (block_pairs (bins b))) \<inter> set (map thumbStore (concat (map (\<lambda>b. block_pairs (bins b)) bs))) = {}"
    proof -
      have "set (map thumbStore (block_pairs (bins b))) \<subseteq> set (map iid (bins b))"
        "set (map thumbStore (concat (map (\<lambda>b. block_pairs (bins b)) bs))) \<subseteq> set (concat (map (\<lambda>b. map iid (bins b)) bs))"
        using block_pairs_ids by auto blast
      moreover have "set (map iid (bins b)) \<inter> set (concat (map (\<lambda>b. map iid (bins b)) bs)) = {}"
        using Cons.prems unfolding Cons.hyps(2) [symmetric] by simp
      ultimately show ?thesis by blast
    qed
    then show ?case
      using ih block_pairs_distinct [of "bins b"] Cons.prems Cons.hyps(2) [symmetric] by simp
  qed
  then show ?thesis by (simp add: pairs_of_def)
qed

lemma mark_pair_ids [simp]: "ins_ids (mark_pair p f) = ins_ids f"
  by (simp add: mark_pair_def ins_ids_def comp_def)

lemma mark_pairs_ids: "ins_ids (fold mark_pair ps f) = ins_ids f"
  by (induction ps arbitrary: f) simp_all

lemma pairs_of_ids: "thumbStore ` set (pairs_of f) \<subseteq> set (ins_ids f)"
  using block_pairs_ids by (fastforce simp: pairs_of_def ins_ids_def func_ins_def)

lemma merge_outcome:
  assumes "wf_func f"
  shows "(\<exists>b \<in> set (fblocks f). sandwich (bins b)) \<Longrightarrow> \<exists>e. merge_pc_thumb m f = Inl e"
    and "\<not> (\<exists>b \<in> set (fblocks f). sandwich (bins b)) \<Longrightarrow> merge_pc_thumb m f =
      Inr (drop_ids (thumbStore ` set (pairs_of f)) (fold mark_pair (pairs_of f) f), True, fold enter_pair (pairs_of f) m)"
  using pairs_of_distinct [OF assms] erase_all_dup [of "map thumbStore (pairs_of f)" "fold mark_pair (pairs_of f) f"]
    erase_all_ok [of "map thumbStore (pairs_of f)" "fold mark_pair (pairs_of f) f"] pairs_of_ids [of f]
  by (auto simp: merge_pc_thumb_def mark_pairs_ids Let_def)

section \<open>Properties\<close>

text \<open>
  C35. The pass runs through exactly when no constant store to \<open>thumb\<close> stands between two constant stores to
  \<open>PC\<close>; it then removes exactly the stores to \<open>thumb\<close> next to a store to \<open>PC\<close> and enters every pair in the
  table, the last one for a program counter winning.
\<close>

theorem merge_pc_thumb_outcome:
  assumes "wf_func f"
  shows "((\<exists>e. merge_pc_thumb m f = Inl e) \<longleftrightarrow> (\<exists>b \<in> set (fblocks f). sandwich (bins b)))
    \<and> (\<forall>f' ch m'. merge_pc_thumb m f = Inr (f', ch, m') \<longrightarrow>
        ins_ids f' = filter (\<lambda>n. n \<notin> thumbStore ` set (pairs_of f)) (ins_ids f) \<and> m' = fold enter_pair (pairs_of f) m)"
proof (cases "\<exists>b \<in> set (fblocks f). sandwich (bins b)")
  case True
  with merge_outcome(1) [OF assms True, of m] show ?thesis by auto
next
  case False
  with merge_outcome(2) [OF assms False, of m] show ?thesis by (simp add: mark_pairs_ids)
qed

definition merge_tb :: "instr list \<Rightarrow> func" where
  "merge_tb is = \<lparr>fid = 1, fname = ''f'', fblocks = [\<lparr>bid = 1, bname = ''entry'', bins = is @ [mk_ins 9 (Ret None)]\<rparr>]\<rparr>"

definition merge_store :: "nat \<Rightarrow> string \<Rightarrow> u64 \<Rightarrow> instr" where
  "merge_store n g c = mk_ins n (Store (ConstInt 32 c) (GlobalVar g))"

theorem merge_pc_thumb_outcome_witness:
  "(\<exists>e. merge_pc_thumb Map.empty (merge_tb [merge_store 1 ''PC'' 0x8000, merge_store 2 ''thumb'' 1, merge_store 3 ''PC'' 0x9000]) = Inl e)
   \<and> (\<nexists>e. merge_pc_thumb Map.empty (merge_tb [merge_store 1 ''PC'' 0x8000, merge_store 2 ''thumb'' 1]) = Inl e)"
proof -
  note d = merge_tb_def merge_store_def
  have w: "wf_func (merge_tb [merge_store 1 ''PC'' 0x8000, merge_store 2 ''thumb'' 1, merge_store 3 ''PC'' 0x9000])"
    "wf_func (merge_tb [merge_store 1 ''PC'' 0x8000, merge_store 2 ''thumb'' 1])"
    by (simp_all add: wf_func_def ins_ids_def func_ins_def d)
  show ?thesis
    using merge_pc_thumb_outcome [OF w(1), of Map.empty] merge_pc_thumb_outcome [OF w(2), of Map.empty]
    by (simp add: d to_PC_def to_thumb_def const_store_def store_to_def)
qed

end
