(* ===== verification/Solve_Indirect.thy ===== *)
theory Solve_Indirect
  imports Value_Subst Switch_Meta
begin

unbundle bit_operations_syntax

text \<open>
  \<open>SolveIndirectSingle\<close>: constants stored to a register in optimised copies of the code (parsed by
  LLVM, a parameter) are put back into the original at the same program counter. \<open>ARMDumpThumbBit\<close> lists the
  program counters that hold thumb code. Both write their list as JSON.
\<close>

section \<open>The list files\<close>

fun json_items :: "u64 list \<Rightarrow> string" where
  "json_items [] = []"
| "json_items [p] = dec_digits (unat p)"
| "json_items (p # ps) = dec_digits (unat p) @ '','' @ json_items ps"

definition json_file :: "u64 list \<Rightarrow> string" where
  "json_file ps = ''['' @ [CHR 0x0A] @ json_items ps @ '']'' @ [CHR 0x0A]"

section \<open>Collecting direct stores\<close>

text \<open>\<open>m_directStores\<close>: for each global and program counter the constant stored there, with its width.\<close>

type_synonym direct_stores = "string \<Rightarrow> u64 \<Rightarrow> (nat \<times> u64) option"

fun const_value :: "val \<Rightarrow> (nat \<times> u64) option" where
  "const_value (ConstInt w c) = Some (w, c)"
| "const_value _ = None"

definition expand_ins :: "instr \<Rightarrow> direct_stores \<Rightarrow> direct_stores res" where
  "expand_ins i ds =
     (if \<not> has_md i ''INS_currPC'' then Inr ds
      else (case global_store (ikind i) of
          None \<Rightarrow> Inr ds
        | Some (gv, v) \<Rightarrow> (case const_value v of
            None \<Rightarrow> Inr ds
          | Some c \<Rightarrow> rbind (getCurrentPCOfIns i) (\<lambda>pc. Inr (ds(gv := (ds gv)(pc \<mapsto> c)))))))"

definition expandDirectStoresWithModule :: "lmodule \<Rightarrow> direct_stores \<Rightarrow> direct_stores res" where
  "expandDirectStoresWithModule m ds = rfold (\<lambda>f. rfold expand_ins (func_ins f)) (mfuncs m) ds"

definition replace_globals :: "string set" where
  "replace_globals = {''PC'', ''thumb''}"

definition annotate_globals :: "string set" where
  "annotate_globals = {''R0'', ''PC'', ''thumb''}"

definition initialize_solver :: "lmodule option list \<Rightarrow> direct_stores res" where
  "initialize_solver files = rfold (\<lambda>file. case file of
     None \<Rightarrow> Inr | Some m \<Rightarrow> expandDirectStoresWithModule m) files (\<lambda>gv pc. None)"

section \<open>performAnnotations\<close>

text \<open>
  The solved store: its global, value operand and the constant that replaces it. The set of instructions does
  not change, so the loop visits the instructions of the start; their operands are the current ones.
\<close>

record solver =
  s_func :: func
  m_solvedPCs :: "u64 list"
  s_changed :: bool

definition solvable :: "direct_stores \<Rightarrow> instr \<Rightarrow> (string \<times> val \<times> nat \<times> u64) option res" where
  "solvable ds i =
     (if \<not> has_md i ''INS_currPC'' then Inr None
      else (case global_store (ikind i) of
          None \<Rightarrow> Inr None
        | Some (gv, v) \<Rightarrow>
            if const_value v \<noteq> None then Inr None
            else if gv \<notin> annotate_globals \<and> gv \<notin> replace_globals then Inr None
            else rbind (getCurrentPCOfIns i) (\<lambda>pc. Inr (case ds gv pc of
                None \<Rightarrow> None
              | Some c \<Rightarrow> Some (gv, v, c)))))"

definition solve_ins :: "direct_stores \<Rightarrow> nat \<Rightarrow> solver \<Rightarrow> solver res" where
  "solve_ins ds n s = (case find_ins (s_func s) n of
      None \<Rightarrow> Inr s
    | Some i \<Rightarrow> rbind (solvable ds i) (\<lambda>r. Inr (case r of
        None \<Rightarrow> s
      | Some (gv, v, w, c) \<Rightarrow>
          let F1 = (if gv \<in> annotate_globals
                then map_ins (\<lambda>j. if iid j = n then set_md j ''INS_computedValue'' (hex_node c) else j) (s_func s)
                else s_func s);
              F2 = (if gv \<in> replace_globals then rauw v (ConstInt w c) F1 else F1) in
          \<lparr>s_func = F2,
            m_solvedPCs = (if gv = ''PC'' then m_solvedPCs s @ [c] else m_solvedPCs s),
            s_changed = True\<rparr>)))"

definition performAnnotations :: "direct_stores \<Rightarrow> func \<Rightarrow> u64 list \<Rightarrow> solver res" where
  "performAnnotations ds f solved =
     rfold (solve_ins ds) (ins_ids f) \<lparr>s_func = f, m_solvedPCs = solved, s_changed = False\<rparr>"

text \<open>
  One run of the pass over a module: the constructor reads the optimised modules, \<open>runOnFunction\<close> runs on each function
  and adds to the one list of solved program counters, and the destructor writes that list to \<open>SolvedFile\<close>. Each
  function comes with what the pass reports for it. The computed values the translated code stores are results of
  instructions of the same function, so replacing their uses does not reach into another function.
\<close>

fun solve_functions :: "direct_stores \<Rightarrow> func list \<Rightarrow> u64 list \<Rightarrow> ((func \<times> bool) list \<times> u64 list) res" where
  "solve_functions ds [] solved = Inr ([], solved)"
| "solve_functions ds (f # fs) solved = rbind (performAnnotations ds f solved) (\<lambda>s.
     rbind (solve_functions ds fs (m_solvedPCs s)) (\<lambda>(rs, pcs). Inr ((s_func s, s_changed s) # rs, pcs)))"

definition solve_indirect :: "lmodule option list \<Rightarrow> lmodule \<Rightarrow> ((func \<times> bool) list \<times> string) res" where
  "solve_indirect files m = rbind (initialize_solver files) (\<lambda>ds.
     rbind (solve_functions ds (mfuncs m) []) (\<lambda>(rs, pcs). Inr (rs, json_file pcs)))"

section \<open>ARMDumpThumbBit\<close>

text \<open>The constant stored to a register at a known program counter.\<close>

definition thumb_store :: "instr \<Rightarrow> u64 option" where
  "thumb_store i = (if \<not> has_md i ''INS_currPC'' then None
     else (case store_to ''thumb'' i of None \<Rightarrow> None | Some v \<Rightarrow> const_int v))"

text \<open>Despite its name it looks for a store to \<open>thumb\<close>.\<close>

definition getStoreToPCInBB :: "bblock \<Rightarrow> u64 option" where
  "getStoreToPCInBB block = (case List.map_filter thumb_store (bins block) of [] \<Rightarrow> None | c # _ \<Rightarrow> Some c)"

definition dump_block :: "bblock \<Rightarrow> u64 list" where
  "dump_block bb = concat (map (\<lambda>i. if thumb_store i = Some 1
     then (case getStoreToPCInBB bb of None \<Rightarrow> [] | Some pcVal \<Rightarrow> [pcVal AND - 2]) else []) (bins bb))"

definition arm_dump_thumb_bit :: "lmodule \<Rightarrow> u64 list" where
  "arm_dump_thumb_bit m = concat (map (\<lambda>f. concat (map dump_block (fblocks f))) (mfuncs m))"

section \<open>What the pass solves\<close>

text \<open>
  A store no longer counts once its value has been replaced by a constant: it is a constant store then, as is every other
  store of the same value.
\<close>

definition covered :: "val set \<Rightarrow> instr \<Rightarrow> bool" where
  "covered X i \<longleftrightarrow> (case ikind i of Store v p \<Rightarrow> v \<in> X \<or> p \<in> X | _ \<Rightarrow> False)"

text \<open>
  The stores solved, in the order of the code: the instruction, the register and the constant of each, with the constants
  that replace values in the end.
\<close>

fun solve_trace :: "direct_stores \<Rightarrow> (val \<rightharpoonup> val) \<Rightarrow> instr list \<Rightarrow> (val \<rightharpoonup> val) \<times> (nat \<times> string \<times> u64) list" where
  "solve_trace ds \<sigma> [] = (\<sigma>, [])"
| "solve_trace ds \<sigma> (i # is) =
     (if covered (dom \<sigma>) i then solve_trace ds \<sigma> is
      else (case solvable ds i of
          Inr (Some (gv, v, w, c)) \<Rightarrow>
            let (\<tau>, hits) = solve_trace ds (if gv \<in> replace_globals then \<sigma>(v \<mapsto> ConstInt w c) else \<sigma>) is
            in (\<tau>, (iid i, gv, c) # hits)
        | _ \<Rightarrow> solve_trace ds \<sigma> is))"

definition pc_targets :: "(nat \<times> string \<times> u64) list \<Rightarrow> u64 list" where
  "pc_targets hits = map (\<lambda>(n, gv, c). c) (filter (\<lambda>(n, gv, c). gv = ''PC'') hits)"

definition computed_value :: "(nat \<times> string \<times> u64) list \<Rightarrow> instr \<Rightarrow> mdnode option" where
  "computed_value hits i = (case map_of hits (iid i) of
     Some (gv, c) \<Rightarrow> Some (hex_node c) | None \<Rightarrow> get_md i ''INS_computedValue'')"

text \<open>A store at a solved program counter that still has a computed value.\<close>

definition unsolved :: "direct_stores \<Rightarrow> instr \<Rightarrow> bool" where
  "unsolved ds i \<longleftrightarrow> (\<exists>gv v c. solvable ds i = Inr (Some (gv, v, c)) \<and> gv \<in> replace_globals)"

text \<open>What the pass makes of one function: its code, its metadata and what it reports.\<close>

definition solved_form :: "direct_stores \<Rightarrow> func \<Rightarrow> func \<times> bool \<Rightarrow> bool" where
  "solved_form ds f r = (case (solve_trace ds Map.empty (func_ins f), r) of ((\<sigma>, hits), F, changed) \<Rightarrow>
     skeleton F = skeleton (map_ins (\<lambda>i. i\<lparr>ikind := map_vals (val_env \<sigma>) (ikind i)\<rparr>) f)
     \<and> map (\<lambda>i. get_md i ''INS_computedValue'') (func_ins F) = map (computed_value hits) (func_ins f)
     \<and> list_all (\<lambda>i. \<not> unsolved ds i) (func_ins F)
     \<and> (changed \<longleftrightarrow> hits \<noteq> []) \<and> (hits = [] \<longrightarrow> F = f))"

section \<open>The pass follows its trace\<close>

definition const_map :: "(val \<rightharpoonup> val) \<Rightarrow> bool" where
  "const_map \<sigma> \<longleftrightarrow> (\<forall>x c. \<sigma> x = Some c \<longrightarrow> const_value x = None \<and> const_value c \<noteq> None)"

text \<open>The current form of each instruction, and what the form depends on.\<close>

definition current :: "(val \<rightharpoonup> val) \<Rightarrow> (nat \<times> string \<times> u64) list \<Rightarrow> (instr \<Rightarrow> instr) \<Rightarrow> bool" where
  "current \<sigma> hits h \<longleftrightarrow> (\<forall>i. iid (h i) = iid i \<and> ikind (h i) = map_vals (val_env \<sigma>) (ikind i)
     \<and> get_md (h i) ''INS_currPC'' = get_md i ''INS_currPC'' \<and> get_md (h i) ''INS_computedValue'' = computed_value hits i)"

lemma val_env_const: "const_map \<sigma> \<Longrightarrow> val_env \<sigma> v = GlobalVar g \<longleftrightarrow> v = GlobalVar g \<and> v \<notin> dom \<sigma>"
  by (force simp: val_env_def const_map_def split: option.splits)

lemma solvable_current:
  assumes "current \<sigma> hits h" and "const_map \<sigma>"
  shows "solvable ds (h i) = (if covered (dom \<sigma>) i then Inr None else solvable ds i)"
proof -
  have k: "ikind (h i) = map_vals (val_env \<sigma>) (ikind i)" and md: "get_md (h i) ''INS_currPC'' = get_md i ''INS_currPC''"
    using assms(1) by (simp_all add: current_def)
  have e: "getCurrentPCOfIns (h i) = getCurrentPCOfIns i" "has_md (h i) ''INS_currPC'' = has_md i ''INS_currPC''"
    using getHex_cong [OF md] md by (simp_all add: getCurrentPCOfIns_def has_md_def get_md_def)
  have g: "global_store k = (case k of Store v (GlobalVar gv) \<Rightarrow> Some (gv, v) | _ \<Rightarrow> None)" for k
    by (cases k rule: global_store.cases) auto
  have "global_store (ikind (h i)) = (if covered (dom \<sigma>) i
      then (case global_store (ikind i) of Some (gv, v) \<Rightarrow>
          if GlobalVar gv \<in> dom \<sigma> then None else Some (gv, val_env \<sigma> v) | None \<Rightarrow> None)
      else global_store (ikind i))"
    using val_env_const [OF assms(2)] unfolding k g
    by (cases "ikind i") (auto simp: covered_def val_env_def split: val.splits option.splits if_splits)
  moreover have "\<exists>q. const_value (val_env \<sigma> v) = Some q" if "v \<in> dom \<sigma>" for v
    using that assms(2) by (fastforce simp: val_env_def const_map_def)
  moreover have "v \<in> dom \<sigma> \<or> GlobalVar gv \<in> dom \<sigma>" if "covered (dom \<sigma>) i" "global_store (ikind i) = Some (gv, v)" for v gv
    using that unfolding g by (auto simp: covered_def split: ikind.splits val.splits)
  ultimately show ?thesis unfolding solvable_def e
    by (cases "global_store (ikind i)") (fastforce split: if_splits)+
qed

lemma solvable_Some:
  assumes "solvable ds i = Inr (Some (gv, v, w, c))"
  shows "ikind i = Store v (GlobalVar gv)" and "const_value v = None" and "gv \<in> annotate_globals"
proof -
  have g: "global_store k = Some (g, u) \<Longrightarrow> k = Store u (GlobalVar g)" for k g u
    by (cases k rule: global_store.cases) auto
  show "ikind i = Store v (GlobalVar gv)" "const_value v = None" "gv \<in> annotate_globals"
    using assms by (cases "const_value v"; auto simp: solvable_def rbind_eq_Inr annotate_globals_def replace_globals_def
        split: option.splits if_splits dest!: g)+
qed

lemma pc_targets_Cons: "pc_targets (x # hits) = pc_targets [x] @ pc_targets hits"
  by (simp add: pc_targets_def)

lemma current_find:
  assumes "current \<sigma> hits h" and "wf_func f" and "i \<in> set (func_ins f)"
  shows "find_ins (map_ins h f) (iid i) = Some (h i)"
  using assms find_map_ins [of h f "iid i"] find_ins_unique [OF assms(2,3)] by (simp add: current_def)

lemma solve_ins_skip:
  assumes "solve_ins ds (iid i) s = Inr s'" and "s_func s = map_ins h f" and "current \<sigma> hits h" and "const_map \<sigma>"
    and "wf_func f" and "i \<in> set (func_ins f)" and "covered (dom \<sigma>) i \<or> solvable ds i = Inr None"
  shows "s' = s"
  using assms(1,7) current_find [OF assms(3,5,6)] solvable_current [OF assms(3,4)]
  by (auto simp: solve_ins_def assms(2) split: if_splits)

lemma current_solved:
  fixes c :: u64
  assumes "current \<sigma> hits h" and "const_map \<sigma>" and "n \<notin> fst ` set hits" and "const_value v = None" and "\<sigma> v = None"
    and h1: "h1 = (\<lambda>i. if iid (h i) = n then set_md (h i) ''INS_computedValue'' (hex_node c) else h i)"
  shows "current \<sigma> (hits @ [(n, gv, c)]) h1"
    and "current (\<sigma>(v \<mapsto> ConstInt w c)) (hits @ [(n, gv, c)])
      (\<lambda>i. (h1 i)\<lparr>ikind := map_vals (subst_val v (ConstInt w c)) (ikind (h1 i))\<rparr>)"
proof -
  have "map_of hits n = None" using assms(3) by (simp add: map_of_eq_None_iff)
  then have m: "computed_value (hits @ [(n, gv, c)]) i = (if iid i = n then Some (hex_node c) else computed_value hits i)" for i
    by (simp add: computed_value_def map_add_def split: option.split)
  show c1: "current \<sigma> (hits @ [(n, gv, c)]) h1" using assms(1) by (auto simp: current_def h1 m)
  have "\<forall>x. \<sigma> x \<noteq> Some v" using assms(2,4) unfolding const_map_def by blast
  then have "(\<lambda>x. subst_val v (ConstInt w c) (val_env \<sigma> x)) = val_env (\<sigma>(v \<mapsto> ConstInt w c))"
    using val_env_update assms(5) by blast
  with c1 show "current (\<sigma>(v \<mapsto> ConstInt w c)) (hits @ [(n, gv, c)])
      (\<lambda>i. (h1 i)\<lparr>ikind := map_vals (subst_val v (ConstInt w c)) (ikind (h1 i))\<rparr>)"
    by (simp add: current_def map_vals_comp get_md_def del: subst_val.simps)
qed

lemma solve_ins_hit:
  assumes "solve_ins ds (iid i) s = Inr s'" and "s_func s = map_ins h f" and cur: "current \<sigma> hits h" "const_map \<sigma>"
    and "wf_func f" and "i \<in> set (func_ins f)" and "\<not> covered (dom \<sigma>) i" and hit: "solvable ds i = Inr (Some (gv, v, w, c))"
    and fresh: "iid i \<notin> fst ` set hits"
  shows "\<exists>h'. s_func s' = map_ins h' f
    \<and> current (if gv \<in> replace_globals then \<sigma>(v \<mapsto> ConstInt w c) else \<sigma>) (hits @ [(iid i, gv, c)]) h'
    \<and> const_map (if gv \<in> replace_globals then \<sigma>(v \<mapsto> ConstInt w c) else \<sigma>)
    \<and> m_solvedPCs s' = m_solvedPCs s @ pc_targets [(iid i, gv, c)] \<and> s_changed s'"
proof -
  note st = solvable_Some [OF hit]
  have v: "const_value v = None" "\<sigma> v = None" using st assms(7) by (auto simp: covered_def)
  define h1 where "h1 = (\<lambda>j. if iid (h j) = iid i then set_md (h j) ''INS_computedValue'' (hex_node c) else h j)"
  have F1: "map_ins (\<lambda>j. if iid j = iid i then set_md j ''INS_computedValue'' (hex_node c) else j) (map_ins h f) = map_ins h1 f"
    by (simp add: map_ins_comp h1_def)
  have s': "s' = \<lparr>s_func = (if gv \<in> replace_globals then rauw v (ConstInt w c) (map_ins h1 f) else map_ins h1 f),
      m_solvedPCs = m_solvedPCs s @ pc_targets [(iid i, gv, c)], s_changed = True\<rparr>"
    using assms(1) current_find [OF cur(1) assms(5,6)] solvable_current [OF cur] hit st(3) assms(7)
    by (auto simp: solve_ins_def assms(2) F1 Let_def pc_targets_def)
  have "const_map (\<sigma>(v \<mapsto> ConstInt w c))" using cur(2) v(1) by (simp add: const_map_def)
  then show ?thesis
    using current_solved [OF cur fresh v h1_def] cur(2)
    by (cases "gv \<in> replace_globals") (auto simp: s' rauw_map_ins simp del: subst_val.simps)
qed

lemma solve_fold:
  assumes "rfold (solve_ins ds) (map iid js) s = Inr s'" and "s_func s = map_ins h f" and "current \<sigma> hits h" and "const_map \<sigma>"
    and "wf_func f" and "set js \<subseteq> set (func_ins f)" and "distinct (map iid js)" and "fst ` set hits \<inter> iid ` set js = {}"
    and "solve_trace ds \<sigma> js = (\<tau>, mr)"
  shows "\<exists>h'. s_func s' = map_ins h' f \<and> current \<tau> (hits @ mr) h' \<and> const_map \<tau>
    \<and> m_solvedPCs s' = m_solvedPCs s @ pc_targets mr \<and> (s_changed s' \<longleftrightarrow> s_changed s \<or> mr \<noteq> []) \<and> (mr = [] \<longrightarrow> s' = s)"
  using assms
proof (induction js arbitrary: s h \<sigma> hits mr)
  case Nil
  then show ?case by (auto simp: pc_targets_def)
next
  case (Cons i js)
  obtain s1 where s1: "solve_ins ds (iid i) s = Inr s1" "rfold (solve_ins ds) (map iid js) s1 = Inr s'"
    using Cons.prems(1) by (auto simp: rbind_eq_Inr)
  have i: "i \<in> set (func_ins f)" "set js \<subseteq> set (func_ins f)" "distinct (map iid js)" "iid i \<notin> fst ` set hits"
    "fst ` set hits \<inter> iid ` set js = {}" "iid i \<notin> iid ` set js" using Cons.prems(6-8) by auto
  note find = current_find [OF Cons.prems(3,5) i(1)]
  have "solvable ds (h i) \<noteq> Inl e" for e using s1(1) Cons.prems(2) find by (auto simp: solve_ins_def)
  then have err: "covered (dom \<sigma>) i \<or> solvable ds i \<noteq> Inl e" for e using solvable_current [OF Cons.prems(3,4)] by metis
  show ?case
  proof (cases "covered (dom \<sigma>) i \<or> solvable ds i = Inr None")
    case True
    have "s1 = s" by (rule solve_ins_skip [OF s1(1) Cons.prems(2-5) i(1) True])
    moreover have "solve_trace ds \<sigma> js = (\<tau>, mr)" using Cons.prems(9) True by (auto split: if_splits)
    ultimately show ?thesis using Cons.IH [OF _ Cons.prems(2-5) i(2,3,5)] s1(2) by blast
  next
    case False
    then obtain gv v w c where hit: "solvable ds i = Inr (Some (gv, v, w, c))"
      using err by (cases "solvable ds i") auto
    obtain rest where t: "mr = (iid i, gv, c) # rest"
      "solve_trace ds (if gv \<in> replace_globals then \<sigma>(v \<mapsto> ConstInt w c) else \<sigma>) js = (\<tau>, rest)"
      using Cons.prems(9) False hit by (auto simp: Let_def split: prod.splits)
    obtain h1 where h1: "s_func s1 = map_ins h1 f"
      "current (if gv \<in> replace_globals then \<sigma>(v \<mapsto> ConstInt w c) else \<sigma>) (hits @ [(iid i, gv, c)]) h1"
      "const_map (if gv \<in> replace_globals then \<sigma>(v \<mapsto> ConstInt w c) else \<sigma>)"
      "m_solvedPCs s1 = m_solvedPCs s @ pc_targets [(iid i, gv, c)]" "s_changed s1"
      using solve_ins_hit [OF s1(1) Cons.prems(2-5) i(1) _ hit i(4)] False by blast
    have "fst ` set (hits @ [(iid i, gv, c)]) \<inter> iid ` set js = {}" using i(5,6) by auto
    from Cons.IH [OF s1(2) h1(1-3) Cons.prems(5) i(2,3) this t(2)] h1(4,5)
    show ?thesis by (auto simp: t(1) pc_targets_Cons [of _ rest])
  qed
qed

lemma trace_covers:
  assumes "solve_trace ds \<sigma> js = (\<tau>, hits)"
  shows "dom \<sigma> \<subseteq> dom \<tau>" and "i \<in> set js \<Longrightarrow> unsolved ds i \<Longrightarrow> covered (dom \<tau>) i"
proof -
  have mono: "X \<subseteq> Y \<Longrightarrow> covered X i \<Longrightarrow> covered Y i" for X Y i by (auto simp: covered_def split: ikind.splits)
  have "dom \<sigma> \<subseteq> dom \<tau> \<and> (\<forall>i \<in> set js. unsolved ds i \<longrightarrow> covered (dom \<tau>) i)"
    using assms
  proof (induction js arbitrary: \<sigma> hits)
    case (Cons i js)
    show ?case
    proof (cases "covered (dom \<sigma>) i \<or> (\<forall>q. solvable ds i \<noteq> Inr (Some q))")
      case True
      then have "solve_trace ds \<sigma> js = (\<tau>, hits)" using Cons.prems by (auto split: sum.splits option.splits)
      moreover have "covered (dom \<sigma>) i \<or> \<not> unsolved ds i" using True by (auto simp: unsolved_def)
      ultimately show ?thesis using Cons.IH mono by fastforce
    next
      case False
      then obtain gv v w c where hit: "solvable ds i = Inr (Some (gv, v, w, c))" by auto
      obtain rest where t: "solve_trace ds (if gv \<in> replace_globals then \<sigma>(v \<mapsto> ConstInt w c) else \<sigma>) js = (\<tau>, rest)"
        using Cons.prems False hit by (auto simp: Let_def split: prod.splits)
      have "gv \<in> replace_globals \<Longrightarrow> v \<in> dom \<tau>" using Cons.IH [OF t] by auto
      moreover have "unsolved ds i \<Longrightarrow> gv \<in> replace_globals" using hit by (auto simp: unsolved_def)
      ultimately show ?thesis using Cons.IH [OF t] solvable_Some(1) [OF hit] by (auto simp: covered_def split: if_splits)
    qed
  qed simp
  then show "dom \<sigma> \<subseteq> dom \<tau>" "i \<in> set js \<Longrightarrow> unsolved ds i \<Longrightarrow> covered (dom \<tau>) i" by auto
qed

lemma performAnnotations_form:
  assumes "performAnnotations ds f solved = Inr s" and "wf_func f"
  shows "solved_form ds f (s_func s, s_changed s)"
    and "m_solvedPCs s = solved @ pc_targets (snd (solve_trace ds Map.empty (func_ins f)))"
proof -
  obtain \<tau> hits where t: "solve_trace ds Map.empty (func_ins f) = (\<tau>, hits)" by fastforce
  let ?s0 = "\<lparr>s_func = f, m_solvedPCs = solved, s_changed = False\<rparr>"
  have "rfold (solve_ins ds) (map iid (func_ins f)) ?s0 = Inr s" using assms(1) by (simp add: performAnnotations_def ins_ids_def)
  moreover have "s_func ?s0 = map_ins (\<lambda>i. i) f" by (simp add: map_ins_def map_blocks_def)
  moreover have "current Map.empty [] (\<lambda>i. i)" "const_map Map.empty" by (simp_all add: current_def computed_value_def const_map_def)
  moreover have "distinct (map iid (func_ins f))" using assms(2) by (simp add: wf_func_def ins_ids_def)
  ultimately obtain h where h: "s_func s = map_ins h f" "current \<tau> ([] @ hits) h" "const_map \<tau>"
    "m_solvedPCs s = m_solvedPCs ?s0 @ pc_targets hits" "s_changed s \<longleftrightarrow> s_changed ?s0 \<or> hits \<noteq> []" "hits = [] \<longrightarrow> s = ?s0"
    using solve_fold [OF _ _ _ _ assms(2) subset_refl _ _ t] by fastforce
  have "\<not> unsolved ds (h i)" if "i \<in> set (func_ins f)" for i
    using trace_covers(2) [OF t that] solvable_current [OF h(2,3), of ds i] by (auto simp: unsolved_def split: if_splits)
  moreover have "skeleton (map_ins h f) = skeleton (map_ins (\<lambda>i. i\<lparr>ikind := map_vals (val_env \<tau>) (ikind i)\<rparr>) f)"
    using h(2) by (simp add: current_def skeleton_def map_ins_def map_blocks_def comp_def)
  moreover have "get_md (h i) ''INS_computedValue'' = computed_value hits i" for i using h(2) by (simp add: current_def)
  ultimately show "solved_form ds f (s_func s, s_changed s)" using h(1,5,6) by (auto simp: solved_form_def t list_all_iff)
  show "m_solvedPCs s = solved @ pc_targets (snd (solve_trace ds Map.empty (func_ins f)))" by (simp add: t h(4))
qed

lemma solve_functions_form:
  "solve_functions ds fs solved = Inr (rs, pcs) \<Longrightarrow> \<forall>f \<in> set fs. wf_func f \<Longrightarrow> list_all2 (solved_form ds) fs rs
    \<and> pcs = solved @ concat (map (\<lambda>f. pc_targets (snd (solve_trace ds Map.empty (func_ins f)))) fs)"
proof (induction fs arbitrary: solved rs)
  case (Cons f fs)
  then obtain s rs' where s: "performAnnotations ds f solved = Inr s" "rs = (s_func s, s_changed s) # rs'"
    "solve_functions ds fs (m_solvedPCs s) = Inr (rs', pcs)" by (auto simp: rbind_eq_Inr)
  from Cons.IH [OF s(3)] Cons.prems(2) performAnnotations_form [OF s(1)] s(2) show ?case by simp
qed simp

text \<open>The list of thumb program counters never has one: it holds the masked value of \<open>thumb\<close>.\<close>

lemma arm_dump_zero:
  assumes "\<forall>f \<in> set (mfuncs m). \<forall>i \<in> set (func_ins f). thumb_store i \<in> {None, Some 0, Some 1}"
  shows "set (arm_dump_thumb_bit m) \<subseteq> {0}"
proof -
  have "x = 0" if f: "f \<in> set (mfuncs m)" "b \<in> set (fblocks f)" and x: "x \<in> set (dump_block b)" for f b x
  proof -
    obtain pc where pc: "getStoreToPCInBB b = Some pc" "x = pc AND - 2"
      using x by (cases "getStoreToPCInBB b") (auto simp: dump_block_def split: if_splits)
    then have "pc \<in> set (List.map_filter thumb_store (bins b))"
      by (auto simp: getStoreToPCInBB_def split: list.splits)
    then obtain i where "i \<in> set (bins b)" "thumb_store i = Some pc" by (auto simp: map_filter_def)
    with assms f have "pc = 0 \<or> pc = 1" by (fastforce simp: func_ins_def)
    with pc(2) show "x = 0" by auto
  qed
  then show ?thesis by (auto simp: arm_dump_thumb_bit_def)
qed

section \<open>Properties\<close>

text \<open>
  C34. One run of the pass over a module. Each function comes out with the values of the solved stores to \<open>PC\<close> and
  \<open>thumb\<close> replaced by their constants and nothing else changed in its code, so that no such store holds a computed value;
  each solved store carries its constant as metadata, and a function is reported as changed exactly when a store of it
  was solved. The file written at the end lists the constants of the solved stores to \<open>PC\<close>, all of them and no other,
  in the order of the code.
\<close>

theorem solved_targets_recorded:
  assumes "solve_indirect files m = Inr (rs, solved_file)" and "\<forall>f \<in> set (mfuncs m). wf_func f"
  shows "\<exists>ds. initialize_solver files = Inr ds \<and> list_all2 (solved_form ds) (mfuncs m) rs
    \<and> solved_file = json_file (concat (map (\<lambda>f. pc_targets (snd (solve_trace ds Map.empty (func_ins f)))) (mfuncs m)))"
proof -
  obtain ds pcs where ds: "initialize_solver files = Inr ds" "solve_functions ds (mfuncs m) [] = Inr (rs, pcs)"
    "solved_file = json_file pcs" using assms(1) by (auto simp: solve_indirect_def rbind_eq_Inr)
  from solve_functions_form [OF ds(2) assms(2)] ds(1,3) show ?thesis by simp
qed

text \<open>Two computed stores of one value, at two program counters.\<close>

definition solve_store :: "nat \<Rightarrow> val \<Rightarrow> u64 \<Rightarrow> instr" where
  "solve_store n v pc = set_md (mk_ins n (Store v (GlobalVar ''PC''))) ''INS_currPC'' (hex_node pc)"

definition solve_tb :: func where
  "solve_tb = \<lparr>fid = 1, fname = ''f'', fblocks = [\<lparr>bid = 1, bname = ''entry'', bins =
     [mk_ins 1 (Load (GlobalVar ''R0'')), solve_store 2 (InsRef 1) 0x8000, solve_store 3 (InsRef 1) 0x8004,
      mk_ins 4 (Ret None)]\<rparr>]\<rparr>"

definition solve_ds :: direct_stores where
  "solve_ds gv pc = (if gv = ''PC'' then [0x8000 \<mapsto> (32, 0x9000), 0x8004 \<mapsto> (32, 0xa000)] pc else None)"

text \<open>The second store gets the constant of the first: all uses of the value are replaced.\<close>

lemma solve_shared_value:
  "(case performAnnotations solve_ds solve_tb [] of Inl e \<Rightarrow> False
    | Inr s \<Rightarrow> map (store_to ''PC'') (func_ins (s_func s)) = [None, Some (ConstInt 32 0x9000), Some (ConstInt 32 0x9000), None]
        \<and> m_solvedPCs s = [0x9000])"
  by (simp add: performAnnotations_def solve_tb_def solve_store_def ins_ids_def func_ins_def solve_ins_def find_ins_def
      solvable_def annotate_globals_def replace_globals_def getCurrentPCOfIns_def getHex_hex_node get_md_def
      solve_ds_def rauw_def map_ins_def map_blocks_def store_to_def has_md_def Let_def)

text \<open>One run over two functions, each with a store at the second program counter.\<close>

definition solve_opt :: lmodule where
  "solve_opt = \<lparr>mfuncs = [\<lparr>fid = 2, fname = ''g'', fblocks = [\<lparr>bid = 1, bname = ''entry'', bins =
     [solve_store 1 (ConstInt 32 0x9000) 0x8000, solve_store 2 (ConstInt 32 0xa000) 0x8004]\<rparr>]\<rparr>], mglobals = []\<rparr>"

definition solve_mod :: lmodule where
  "solve_mod = \<lparr>mfuncs = [solve_tb, \<lparr>fid = 3, fname = ''h'', fblocks = [\<lparr>bid = 1, bname = ''entry'', bins =
     [mk_ins 1 (Load (GlobalVar ''R1'')), solve_store 2 (InsRef 1) 0x8004, mk_ins 3 (Ret None)]\<rparr>]\<rparr>], mglobals = []\<rparr>"

lemma solve_opt_stores: "initialize_solver [None, Some solve_opt] = Inr solve_ds"
proof -
  have "initialize_solver [None, Some solve_opt]
      = Inr ((\<lambda>gv pc. None)(''PC'' := [0x8000 \<mapsto> (32, 0x9000), 0x8004 \<mapsto> (32, 0xa000)]))"
    by (simp add: initialize_solver_def expandDirectStoresWithModule_def solve_opt_def solve_store_def func_ins_def
        expand_ins_def getCurrentPCOfIns_def getHex_hex_node get_md_def has_md_def)
  also have "(\<lambda>gv pc. None)(''PC'' := [0x8000 \<mapsto> (32, 0x9000), 0x8004 \<mapsto> (32, 0xa000)]) = solve_ds"
    by (rule ext)+ (simp add: solve_ds_def)
  finally show ?thesis .
qed

lemma solve_traces: "map (\<lambda>f. snd (solve_trace solve_ds Map.empty (func_ins f))) (mfuncs solve_mod)
    = [[(2, ''PC'', 0x9000)], [(2, ''PC'', 0xa000)]]"
  by (simp add: solve_mod_def solve_tb_def solve_store_def func_ins_def covered_def
      solvable_def annotate_globals_def replace_globals_def getCurrentPCOfIns_def getHex_hex_node get_md_def
      solve_ds_def has_md_def Let_def)

lemma solve_run_ok: "\<exists>rs out. solve_indirect [None, Some solve_opt] solve_mod = Inr (rs, out)"
  by (simp add: solve_indirect_def solve_opt_stores solve_mod_def
      performAnnotations_def solve_tb_def solve_store_def ins_ids_def func_ins_def solve_ins_def find_ins_def
      solvable_def annotate_globals_def replace_globals_def getCurrentPCOfIns_def getHex_hex_node get_md_def
      solve_ds_def rauw_def map_ins_def map_blocks_def has_md_def Let_def)

theorem solved_targets_recorded_witness:
  "\<exists>rs. solve_indirect [None, Some solve_opt] solve_mod = Inr (rs, ''['' @ [CHR 0x0A] @ ''36864,40960]'' @ [CHR 0x0A])
    \<and> map snd rs = [True, True] \<and> list_all (\<lambda>r. list_all (\<lambda>i. \<not> unsolved solve_ds i) (func_ins (fst r))) rs"
proof -
  obtain rs out where r: "solve_indirect [None, Some solve_opt] solve_mod = Inr (rs, out)" using solve_run_ok by blast
  have "\<forall>f \<in> set (mfuncs solve_mod). wf_func f"
    by (simp add: wf_func_def solve_mod_def solve_tb_def solve_store_def ins_ids_def func_ins_def)
  from solved_targets_recorded [OF r this] have p: "list_all2 (solved_form solve_ds) (mfuncs solve_mod) rs"
    "out = json_file (concat (map pc_targets (map (\<lambda>f. snd (solve_trace solve_ds Map.empty (func_ins f))) (mfuncs solve_mod))))"
    by (simp_all add: solve_opt_stores comp_def)
  have "out = json_file [0x9000, 0xa000]" unfolding p(2) solve_traces by (simp add: pc_targets_def)
  moreover have "json_file [0x9000, 0xa000] = ''['' @ [CHR 0x0A] @ ''36864,40960]'' @ [CHR 0x0A]"
    by (simp add: json_file_def dec_digits.simps dec_digit_def)
  moreover obtain r1 r2 where "rs = [r1, r2]" "solved_form solve_ds (mfuncs solve_mod ! 0) r1" "solved_form solve_ds (mfuncs solve_mod ! 1) r2"
    using p(1) by (auto simp: solve_mod_def list_all2_Cons1)
  moreover have "snd (solve_trace solve_ds Map.empty (func_ins (mfuncs solve_mod ! 0))) \<noteq> []"
    "snd (solve_trace solve_ds Map.empty (func_ins (mfuncs solve_mod ! 1))) \<noteq> []"
    using solve_traces by (auto simp: solve_mod_def)
  ultimately show ?thesis using r by (auto simp: solved_form_def split: prod.splits)
qed

end
