(* ===== verification/Pass_Types.thy ===== *)
theory Pass_Types
  imports ARM_Mark Store_Passes Const_Loads Thumb_Merge Solve_Indirect
begin

text \<open>
  Well-formed code: identities are unique and every use of a result is a use of an instruction of the
  function that has one. The passes over a translated function keep it, so each of them may follow another.
\<close>

section \<open>Well-formed code\<close>

text \<open>Instructions with a result. The execution handler of S2E returns nothing.\<close>

fun yields :: "ikind \<Rightarrow> bool" where
  "yields (Store v p) = False"
| "yields (Ret v) = False"
| "yields (Br t) = False"
| "yields (CondBr v t e) = False"
| "yields (SwitchI v d cs) = False"
| "yields Unreachable = False"
| "yields (Call c xs) = (c \<noteq> FuncRef ''helper_s2e_tcg_execution_handler'')"
| "yields _ = True"

definition shape :: "func \<Rightarrow> (nat \<times> ikind) set" where
  "shape F = (\<lambda>i. (iid i, ikind i)) ` set (func_ins F)"

definition uses_defined :: "(nat \<times> ikind) set \<Rightarrow> bool" where
  "uses_defined S \<longleftrightarrow> (\<forall>n k m. (n, k) \<in> S \<longrightarrow> InsRef m \<in> set (operands k) \<longrightarrow> (\<exists>k'. (m, k') \<in> S \<and> yields k'))"

definition well_formed :: "func \<Rightarrow> bool" where
  "well_formed F \<longleftrightarrow> wf_func F \<and> uses_defined (shape F)"

section \<open>What keeps it\<close>

lemma uses_definedD:
  assumes "uses_defined S" and "(n, k) \<in> S" and "InsRef m \<in> set (operands k)"
  shows "\<exists>k'. (m, k') \<in> S \<and> yields k'"
  by (rule assms(1) [unfolded uses_defined_def, rule_format, OF assms(2,3)])

lemma shape_skeleton: "skeleton F' = skeleton F \<Longrightarrow> shape F' = shape F"
  using arg_cong [OF skeleton_func_ins, of F' F set] by (simp add: shape_def)

lemma well_formed_skeleton: "skeleton F' = skeleton F \<Longrightarrow> well_formed F' \<longleftrightarrow> well_formed F"
  unfolding well_formed_def using shape_skeleton skeleton_wf by metis

text \<open>Removing instructions that have no result or no use.\<close>

lemma uses_defined_subset:
  assumes "uses_defined S" and "T \<subseteq> S"
    and "\<And>m k n k'. (m, k) \<in> S - T \<Longrightarrow> yields k \<Longrightarrow> (n, k') \<in> T \<Longrightarrow> InsRef m \<notin> set (operands k')"
  shows "uses_defined T"
  unfolding uses_defined_def
proof (intro allI impI)
  fix n k m assume a: "(n, k) \<in> T" "InsRef m \<in> set (operands k)"
  then have "(n, k) \<in> S" using assms(2) by blast
  then obtain k' where k: "(m, k') \<in> S" "yields k'" using uses_definedD [OF assms(1) _ a(2)] by metis
  then have "(m, k') \<in> T" using assms(3) [of m k' n k] a by blast
  with k(2) show "\<exists>k'. (m, k') \<in> T \<and> yields k'" by blast
qed

lemma shape_drop: "shape (drop_ids X F) = {(n, k) \<in> shape F. n \<notin> X}"
  by (auto simp: shape_def)

lemma well_formed_drop:
  assumes "well_formed F" and "\<And>n k. (n, k) \<in> shape F \<Longrightarrow> n \<in> X \<Longrightarrow> yields k \<Longrightarrow> unused F n"
  shows "well_formed (drop_ids X F)"
proof -
  have "wf_func (drop_ids X F)"
    using assms(1) by (simp add: well_formed_def wf_func_def) (simp add: drop_ids_def map_blocks_def comp_def)
  moreover have "uses_defined (shape (drop_ids X F))"
  proof (rule uses_defined_subset [of "shape F"])
    show "uses_defined (shape F)" using assms(1) by (simp add: well_formed_def)
    show "shape (drop_ids X F) \<subseteq> shape F" by (auto simp: shape_drop)
    fix m k n k'
    assume "(m, k) \<in> shape F - shape (drop_ids X F)" "yields k" "(n, k') \<in> shape (drop_ids X F)"
    then have "unused F m" "(n, k') \<in> shape F" using assms(2) by (auto simp: shape_drop)
    then show "InsRef m \<notin> set (operands k')" by (auto simp: unused_def shape_def)
  qed
  ultimately show ?thesis by (simp add: well_formed_def)
qed

text \<open>Putting a constant in place of a value.\<close>

lemma yields_subst: "yields k \<Longrightarrow> yields (subst_kind a (ConstInt w c) k)"
  by (cases k) auto

lemma well_formed_const:
  assumes "well_formed F"
  shows "well_formed (rauw a (ConstInt w c) F)"
proof -
  have s: "shape (rauw a (ConstInt w c) F) = (\<lambda>(n, k). (n, subst_kind a (ConstInt w c) k)) ` shape F"
    by (auto simp: shape_def rauw_def image_iff)
  have u: "uses_defined (shape F)" using assms by (simp add: well_formed_def)
  have "uses_defined (shape (rauw a (ConstInt w c) F))"
    unfolding s uses_defined_def
  proof (intro allI impI)
    fix n k m
    assume "(n, k) \<in> (\<lambda>(n, k). (n, subst_kind a (ConstInt w c) k)) ` shape F" "InsRef m \<in> set (operands k)"
    then obtain k0 where k0: "(n, k0) \<in> shape F" "k = subst_kind a (ConstInt w c) k0" "InsRef m \<in> set (operands k0)"
      by (auto simp: operands_subst_kind split: if_splits)
    then obtain k' where k': "(m, k') \<in> shape F" "yields k'" using uses_definedD [OF u] by metis
    then have "(m, subst_kind a (ConstInt w c) k') \<in> (\<lambda>(n, k). (n, subst_kind a (ConstInt w c) k)) ` shape F" by force
    with yields_subst [OF k'(2)]
    show "\<exists>k'. (m, k') \<in> (\<lambda>(n, k). (n, subst_kind a (ConstInt w c) k)) ` shape F \<and> yields k'" by blast
  qed
  with assms show ?thesis by (simp add: well_formed_def)
qed

section \<open>The contract\<close>

locale typed_pass =
  fixes run :: "func \<Rightarrow> (func \<times> bool) res"
  assumes keeps_well_formed: "well_formed f \<Longrightarrow> run f = Inr (f', ch) \<Longrightarrow> well_formed f'"

sublocale annotating_pass \<subseteq> typed_pass
  by unfold_locales (simp add: well_formed_skeleton [OF keeps_skeleton])

lemma erasing_typed:
  assumes "erasing_pass run doomed" and "\<And>f i. well_formed f \<Longrightarrow> i \<in> set (func_ins f) \<Longrightarrow> doomed f i \<Longrightarrow> \<not> yields (ikind i)"
  shows "typed_pass run"
proof
  fix f f' ch assume w: "well_formed f" and r: "run f = Inr (f', ch)"
  then have wf: "wf_func f" by (simp add: well_formed_def)
  have shape: "shape f' = (\<lambda>i. (iid i, ikind i)) ` set (filter (\<lambda>i. \<not> doomed f i) (func_ins f))"
    using arg_cong [OF erasing_pass.survivors_flat [OF assms(1) wf r], of set] by (simp add: shape_def)
  have "uses_defined (shape f')"
  proof (rule uses_defined_subset [of "shape f"])
    show "uses_defined (shape f)" using w by (simp add: well_formed_def)
    show "shape f' \<subseteq> shape f" using shape by (auto simp: shape_def)
    fix m k n k'
    assume "(m, k) \<in> shape f - shape f'" "yields k"
    then show "InsRef m \<notin> set (operands k')" using assms(2) [OF w] shape by (auto simp: shape_def)
  qed
  with erasing_pass.keeps_wf [OF assms(1) wf r] show "well_formed f'" by (simp add: well_formed_def)
qed

interpretation typed_count: typed_pass s2e_delete_instruction_count
proof (rule erasing_typed [OF delete_count.erasing_pass_axioms])
  fix i assume "delete_count_ins i = Inr True"
  then show "\<not> yields (ikind i)" by (cases "ikind i"; auto simp: delete_count_ins_def split: val.splits)
qed

interpretation typed_trace: typed_pass remove_branch_trace
proof (rule erasing_typed [OF branch_trace.erasing_pass_axioms])
  fix i assume "branch_trace_ins i = Inr True"
  then show "\<not> yields (ikind i)" by (cases "ikind i"; simp add: branch_trace_ins_def)
qed

interpretation typed_extra: typed_pass remove_extra_store_to_pc
proof (rule erasing_typed [OF remove_extra.erasing_pass_axioms])
  fix f i assume "rm_doomed_ins f i"
  then obtain b where "rm_drops b i" by (auto simp: rm_doomed_ins_def)
  then show "\<not> yields (ikind i)" by (cases "ikind i"; simp add: rm_drops_def const_pc_store_def store_to_def)
qed

text \<open>\<open>ReplaceConstantLoads\<close> replaces loads by constants and then removes them.\<close>

lemma getMemoryValue_const: "getMemoryValue pools address w big = Inr (Some v) \<Longrightarrow> \<exists>c. v = ConstInt w c"
  by (auto simp: getMemoryValue_def rbind_eq_Inr split: option.splits)

lemma replace_load_well_formed:
  assumes "well_formed F" and "replace_load pools big n (F, es) = Inr (F', es')"
  shows "well_formed F'"
proof (cases "F' = F")
  case False
  then obtain w address v where "getMemoryValue pools address w big = Inr (Some v)" "F' = rauw (InsRef n) v F"
    using assms(2) by (auto simp: replace_load_def rbind_eq_Inr split: val.splits option.splits)
  with assms(1) getMemoryValue_const show ?thesis by (fastforce intro: well_formed_const)
qed (use assms in simp)

lemma replace_loads_well_formed:
  "rfold (replace_load pools big) ns (F, es) = Inr (F', es') \<Longrightarrow> well_formed F \<Longrightarrow> well_formed F'"
proof (induction ns arbitrary: F es)
  case (Cons n ns)
  then obtain F1 es1 where "replace_load pools big n (F, es) = Inr (F1, es1)"
    "rfold (replace_load pools big) ns (F1, es1) = Inr (F', es')"
    by (auto simp: rbind_eq_Inr)
  with Cons replace_load_well_formed show ?case by blast
qed simp

lemma replace_constant_loads_typed: "typed_pass (replace_constant_loads ps big)"
proof
  fix f f' ch assume w: "well_formed f" and r: "replace_constant_loads ps big f = Inr (f', ch)"
  obtain F1 es F2 where f: "rfold (replace_load (memory_pools ps) big) (ins_ids f) (f, []) = Inr (F1, es)"
    and a: "annotate_func ps big F1 = Inr F2" and e: "erase_all es F2 = Inr f'"
    using r by (auto simp: replace_constant_loads_def rbind_eq_Inr)
  have w2: "well_formed F2"
    using replace_loads_well_formed [OF f w] well_formed_skeleton [OF annotate_func_skeleton [OF a]] by blast
  have un: "unused G m \<longleftrightarrow> (\<forall>(n, k) \<in> shape G. InsRef m \<notin> set (operands k))" for G m
    by (auto simp: unused_def shape_def)
  have "\<forall>m \<in> set es. unused F2 m"
    using replace_loads_fold [OF f] un shape_skeleton [OF annotate_func_skeleton [OF a]] by simp
  with w2 show "well_formed f'" using erase_all_Inr [OF e] by (auto intro: well_formed_drop)
qed

text \<open>\<open>S2EArmMergePcThumbPass\<close> removes stores.\<close>

definition merge_run :: "iset_table \<Rightarrow> func \<Rightarrow> (func \<times> bool) res" where
  "merge_run m f = rbind (merge_pc_thumb m f) (\<lambda>(f', ch, _). Inr (f', ch))"

lemma merged_stores: "(n, k) \<in> shape f \<Longrightarrow> wf_func f \<Longrightarrow> n \<in> thumbStore ` set (pairs_of f) \<Longrightarrow> \<not> yields k"
proof -
  assume k: "(n, k) \<in> shape f" and wf: "wf_func f" and n: "n \<in> thumbStore ` set (pairs_of f)"
  have pair: "\<exists>i \<in> set is. iid i = thumbStore p \<and> to_thumb i" if "p \<in> set (block_pairs is)" for p "is"
    using that by (induction "is" rule: block_pairs.induct) (auto simp: pair_cases split: if_splits)
  obtain p where "p \<in> set (pairs_of f)" "n = thumbStore p" using n by blast
  then obtain i where i: "i \<in> set (func_ins f)" "iid i = n" "to_thumb i"
    using pair by (fastforce simp: pairs_of_def func_ins_def)
  moreover obtain j where "j \<in> set (func_ins f)" "iid j = n" "ikind j = k" using k by (auto simp: shape_def)
  ultimately have "ikind i = k" using wf find_ins_unique [of f] by (metis option.inject)
  with i(3) show "\<not> yields k" by (auto simp: to_thumb_def const_store_iff)
qed

lemma mark_pairs_skeleton: "skeleton (fold mark_pair ps f) = skeleton f"
proof (induction ps arbitrary: f)
  case (Cons p ps)
  have "skeleton (mark_pair p f) = skeleton f"
    by (simp add: skeleton_def mark_pair_def map_ins_def map_blocks_def comp_def cong: if_cong)
  with Cons show ?case by simp
qed simp

interpretation typed_merge: typed_pass "merge_run m"
proof
  fix f f' ch assume w: "well_formed f" and r: "merge_run m f = Inr (f', ch)"
  let ?g = "fold mark_pair (pairs_of f) f"
  have "f' = drop_ids (thumbStore ` set (pairs_of f)) ?g"
    using r by (auto simp: merge_run_def merge_pc_thumb_def Let_def rbind_eq_Inr dest: erase_all_Inr)
  moreover have "well_formed ?g" using w well_formed_skeleton [OF mark_pairs_skeleton] by blast
  moreover have "wf_func f" using w by (simp add: well_formed_def)
  ultimately show "well_formed f'"
    using merged_stores [of _ _ f] shape_skeleton [OF mark_pairs_skeleton] by (auto intro!: well_formed_drop)
qed

text \<open>\<open>SolveIndirectSingle\<close> puts constants in place of values.\<close>

definition solve_run :: "direct_stores \<Rightarrow> u64 list \<Rightarrow> func \<Rightarrow> (func \<times> bool) res" where
  "solve_run ds solved f = rbind (performAnnotations ds f solved) (\<lambda>s. Inr (s_func s, s_changed s))"

lemma solve_ins_well_formed:
  assumes "well_formed (s_func s)" and "solve_ins ds n s = Inr s'"
  shows "well_formed (s_func s')"
proof -
  have sk: "skeleton (map_ins (\<lambda>j. if iid j = n then set_md j k x else j) F) = skeleton F" for k x F
    by (simp add: skeleton_def map_ins_def map_blocks_def comp_def cong: if_cong)
  show ?thesis
  proof (cases "s' = s")
    case False
    then obtain i r where "find_ins (s_func s) n = Some i" "solvable ds i = Inr (Some r)"
      using assms(2) by (auto simp: solve_ins_def rbind_eq_Inr split: option.splits)
    moreover obtain gv v w c where "r = (gv, v, w, c)" by (cases r)
    ultimately show ?thesis
      using assms by (auto simp: solve_ins_def Let_def intro!: well_formed_const simp: well_formed_skeleton [OF sk])
  qed (use assms in simp)
qed

interpretation typed_solve: typed_pass "solve_run ds solved"
proof
  fix f f' ch assume "well_formed f" "solve_run ds solved f = Inr (f', ch)"
  moreover have "well_formed (s_func s')" if "rfold (solve_ins ds) ns s = Inr s'" "well_formed (s_func s)" for ns s s'
    using that by (induction ns arbitrary: s) (auto simp: rbind_eq_Inr dest: solve_ins_well_formed)
  ultimately show "well_formed f'" by (auto simp: solve_run_def performAnnotations_def rbind_eq_Inr)
qed

section \<open>Passes in any order\<close>

definition run_passes :: "(func \<Rightarrow> (func \<times> bool) res) list \<Rightarrow> func \<Rightarrow> func res" where
  "run_passes runs f = rfold (\<lambda>run f. rbind (run f) (\<lambda>r. Inr (fst r))) runs f"

lemma run_passes_well_formed:
  "run_passes runs f = Inr f' \<Longrightarrow> \<forall>run \<in> set runs. typed_pass run \<Longrightarrow> well_formed f \<Longrightarrow> well_formed f'"
proof (induction runs arbitrary: f)
  case (Cons run runs)
  then obtain f1 ch where r: "run f = Inr (f1, ch)" "run_passes runs f1 = Inr f'"
    by (auto simp: run_passes_def rbind_eq_Inr)
  have "well_formed f1" using Cons.prems r(1) typed_pass.keeps_well_formed [of run f f1 ch] by simp
  with Cons.IH [OF r(2)] Cons.prems(2) show ?case by simp
qed (simp add: run_passes_def)

text \<open>The passes over one function of the development.\<close>

definition function_passes :: "pools_state \<Rightarrow> bool \<Rightarrow> iset_table \<Rightarrow> direct_stores \<Rightarrow> u64 list \<Rightarrow>
    (func \<Rightarrow> (func \<times> bool) res) list" where
  "function_passes ps big m ds solved = [arm_mark_call, arm_mark_return, arm_mark_jumps, remove_extra_store_to_pc,
     s2e_delete_instruction_count, remove_branch_trace, replace_constant_loads ps big, merge_run m, solve_run ds solved]"

lemma function_passes_typed: "run \<in> set (function_passes ps big m ds solved) \<Longrightarrow> typed_pass run"
  using mark_call.typed_pass_axioms mark_return.typed_pass_axioms mark_jumps.typed_pass_axioms
    typed_extra.typed_pass_axioms typed_count.typed_pass_axioms typed_trace.typed_pass_axioms
    replace_constant_loads_typed typed_merge.typed_pass_axioms typed_solve.typed_pass_axioms
  by (auto simp: function_passes_def)

section \<open>Properties\<close>

text \<open>
  C37. Nine passes, run over a function in any order and any number of times, keep it well-formed: whatever they
  remove, replace or mark, identities stay unique and every use of a result is a use of an instruction of the
  function that yields one.
\<close>

theorem passes_keep_well_formed:
  assumes "well_formed f" and "set runs \<subseteq> set (function_passes ps big m ds solved)" and "run_passes runs f = Inr f'"
  shows "well_formed f'"
  using run_passes_well_formed [OF assms(3) _ assms(1)] assms(2) function_passes_typed by blast

lemma sample_well_formed: "well_formed sample_call_func"
  by (simp add: well_formed_def wf_func_def ins_ids_def func_ins_def uses_defined_def shape_def sample_defs)

theorem passes_keep_well_formed_witness:
  "\<exists>F. run_passes [arm_mark_call, arm_mark_return, arm_mark_jumps] sample_call_func = Inr F \<and> well_formed F"
proof -
  let ?runs = "[arm_mark_call, arm_mark_return, arm_mark_jumps]"
  obtain F where "arm_mark_all sample_call_func = Inr F" using sample_runs by blast
  then have r: "run_passes ?runs sample_call_func = Inr F"
    by (auto simp: run_passes_def arm_mark_all_def rbind_eq_Inr)
  have "set ?runs \<subseteq> set (function_passes \<lparr>memory_pools = [], jump_tables = Map.empty\<rparr> False Map.empty (\<lambda>_ _. None) [])"
    by (simp add: function_passes_def)
  from passes_keep_well_formed [OF sample_well_formed this r] r show ?thesis by blast
qed

end
