(* ===== verification/Module_Graph.thy ===== *)
theory Module_Graph
  imports LLVM_IR
begin

text \<open>
  A module as a graph of blocks that move between functions: looking a block up anywhere in the module, its
  function, its uses (the terminators that branch to it), inserting and erasing instructions by identity,
  \<open>BasicBlock::moveAfter\<close> and \<open>BasicBlock::eraseFromParent\<close>. Used by \<open>S2EExtractAndBuildPass\<close>.
\<close>

text \<open>Recursion under \<open>rbind\<close> knows the result of the first step.\<close>

lemma rbind_recursion [fundef_cong]: "m = m' \<Longrightarrow> (\<And>x. m' = Inr x \<Longrightarrow> k x = h x) \<Longrightarrow> rbind m k = rbind m' h"
  by (cases m') simp_all

lemma sum_list_less:
  "f \<in> set fs \<Longrightarrow> r f < l f \<Longrightarrow> (\<And>x. x \<in> set fs \<Longrightarrow> r x \<le> l x) \<Longrightarrow> sum_list (map r fs) < sum_list (map l fs :: nat list)"
proof (induction fs)
  case (Cons x fs)
  have "sum_list (map r fs) \<le> sum_list (map l fs)" using Cons.prems(3) by (intro sum_list_mono) simp
  moreover have "r x \<le> l x" using Cons.prems(3) by simp
  ultimately show ?case using Cons by (cases "x = f") fastforce+
qed simp

lemma find_map: "find P (map g xs) = map_option g (find (P \<circ> g) xs)"
  by (induction xs) simp_all

lemma find_mem: "find P xs = Some x \<Longrightarrow> x \<in> set xs \<and> P x"
  by (auto simp: find_Some_iff)

section \<open>Lookup\<close>

definition all_blocks :: "lmodule \<Rightarrow> bblock list" where
  "all_blocks M = concat (map fblocks (mfuncs M))"

definition mod_block :: "lmodule \<Rightarrow> nat \<Rightarrow> bblock res" where
  "mod_block M b = (case find (\<lambda>B. bid B = b) (all_blocks M) of
     None \<Rightarrow> Inl (NullDeref ''BasicBlock'') | Some B \<Rightarrow> Inr B)"

text \<open>\<open>getParent\<close>.\<close>

definition parent_of :: "lmodule \<Rightarrow> nat \<Rightarrow> nat option" where
  "parent_of M b = map_option fid (find (\<lambda>f. b \<in> bid ` set (fblocks f)) (mfuncs M))"

definition mod_func :: "lmodule \<Rightarrow> nat \<Rightarrow> func res" where
  "mod_func M p = (case find (\<lambda>f. fid f = p) (mfuncs M) of
     None \<Rightarrow> Inl (NullDeref ''Function'') | Some f \<Rightarrow> Inr f)"

definition term_of :: "lmodule \<Rightarrow> nat \<Rightarrow> instr res" where
  "term_of M b = rbind (mod_block M b) (\<lambda>B. case terminator B of
     None \<Rightarrow> Inl (NullDeref ''getTerminator'') | Some t \<Rightarrow> Inr t)"

definition succs_of :: "lmodule \<Rightarrow> nat \<Rightarrow> nat list res" where
  "succs_of M b = rbind (term_of M b) (\<lambda>t. Inr (succ_ids (ikind t)))"

text \<open>
  One pair (block, instruction) for every operand that names the block, in the order of the module; LLVM keeps
  them in the order they were added, which none of the code here depends on.
\<close>

definition uses_of :: "lmodule \<Rightarrow> nat \<Rightarrow> (nat \<times> nat) list" where
  "uses_of M b = concat (map (\<lambda>B. concat (map (\<lambda>i. replicate (count_list (succ_ids (ikind i)) b) (bid B, iid i)) (bins B)))
     (all_blocks M))"

section \<open>Instructions\<close>

definition mod_ids :: "lmodule \<Rightarrow> nat list" where
  "mod_ids M = concat (map ins_ids (mfuncs M))"

definition new_iid :: "lmodule \<Rightarrow> nat" where
  "new_iid M = Suc (fold max (mod_ids M) 0)"

definition new_bid :: "lmodule \<Rightarrow> nat" where
  "new_bid M = Suc (fold max (map bid (all_blocks M)) 0)"

definition map_mod :: "(bblock \<Rightarrow> bblock) \<Rightarrow> lmodule \<Rightarrow> lmodule" where
  "map_mod g M = M\<lparr>mfuncs := map (map_blocks g) (mfuncs M)\<rparr>"

text \<open>A new instruction at the end of a block, and in front of an instruction.\<close>

definition append_to :: "nat \<Rightarrow> ikind \<Rightarrow> lmodule \<Rightarrow> lmodule" where
  "append_to b k M = map_mod (\<lambda>B. if bid B = b then B\<lparr>bins := bins B @ [mk_ins (new_iid M) k]\<rparr> else B) M"

fun put_before :: "nat \<Rightarrow> instr \<Rightarrow> instr list \<Rightarrow> instr list" where
  "put_before n new [] = []"
| "put_before n new (i # is) = (if iid i = n then new # i # is else i # put_before n new is)"

definition insert_before :: "nat \<Rightarrow> ikind \<Rightarrow> lmodule \<Rightarrow> lmodule" where
  "insert_before n k M = map_mod (\<lambda>B. B\<lparr>bins := put_before n (mk_ins (new_iid M) k) (bins B)\<rparr>) M"

definition erase_ins :: "nat \<Rightarrow> lmodule \<Rightarrow> lmodule res" where
  "erase_ins n M = (if n \<in> set (mod_ids M) then Inr (M\<lparr>mfuncs := map (drop_ids {n}) (mfuncs M)\<rparr>)
     else Inl (UseAfterFree n))"

section \<open>Blocks\<close>

definition rename_block :: "nat \<Rightarrow> string \<Rightarrow> lmodule \<Rightarrow> lmodule" where
  "rename_block b nm M = map_mod (\<lambda>B. if bid B = b then B\<lparr>bname := nm\<rparr> else B) M"

definition in_func :: "nat \<Rightarrow> (func \<Rightarrow> func) \<Rightarrow> lmodule \<Rightarrow> lmodule" where
  "in_func p g M = M\<lparr>mfuncs := map (\<lambda>f. if fid f = p then g f else f) (mfuncs M)\<rparr>"

definition add_blocks :: "nat \<Rightarrow> bblock list \<Rightarrow> lmodule \<Rightarrow> lmodule" where
  "add_blocks p Bs M = in_func p (\<lambda>f. f\<lparr>fblocks := fblocks f @ Bs\<rparr>) M"

definition remove_block :: "nat \<Rightarrow> lmodule \<Rightarrow> lmodule" where
  "remove_block b M = M\<lparr>mfuncs := map (\<lambda>f. f\<lparr>fblocks := filter (\<lambda>B. bid B \<noteq> b) (fblocks f)\<rparr>) (mfuncs M)\<rparr>"

fun put_after :: "nat \<Rightarrow> bblock \<Rightarrow> bblock list \<Rightarrow> bblock list" where
  "put_after pos B [] = []"
| "put_after pos B (C # Cs) = (if bid C = pos then C # B # Cs else C # put_after pos B Cs)"

text \<open>\<open>moveAfter\<close>, to another block of the function \<open>p\<close>.\<close>

definition move_after :: "nat \<Rightarrow> nat \<Rightarrow> nat \<Rightarrow> lmodule \<Rightarrow> lmodule res" where
  "move_after b pos p M = rbind (mod_block M b) (\<lambda>B.
     Inr (in_func p (\<lambda>f. f\<lparr>fblocks := put_after pos B (fblocks f)\<rparr>) (remove_block b M)))"

text \<open>\<open>eraseFromParent\<close>: the destructor asserts that no use of the block is left.\<close>

definition erase_block :: "nat \<Rightarrow> lmodule \<Rightarrow> lmodule res" where
  "erase_block b M = (let M' = remove_block b M in
     rbind (require (uses_of M' b = []) (AssertFailed ''use_empty'')) (\<lambda>_. Inr M'))"

section \<open>What the operations on instructions leave alone\<close>

lemma block_ids_map_blocks: "(\<And>B. bid (g B) = bid B) \<Longrightarrow> bid ` set (fblocks (map_blocks g f)) = bid ` set (fblocks f)"
  by (simp add: map_blocks_def image_image)

lemma parent_map_mod: "(\<And>B. bid (g B) = bid B) \<Longrightarrow> parent_of (map_mod g M) b = parent_of M b"
  by (simp add: parent_of_def map_mod_def find_map comp_def block_ids_map_blocks option.map_comp)
    (simp add: map_blocks_def)

lemma parent_append [simp]: "parent_of (append_to b k M) x = parent_of M x"
  unfolding append_to_def by (rule parent_map_mod) simp

lemma parent_insert [simp]: "parent_of (insert_before n k M) x = parent_of M x"
  unfolding insert_before_def by (rule parent_map_mod) simp

end
