(* ===== verification/Extract_Build.thy ===== *)
theory Extract_Build
  imports Module_Graph Save_BBs Switch_Meta Extract_Targets
begin

unbundle bit_operations_syntax

text \<open>
  \<open>S2EExtractAndBuildPass\<close>: functions are built while the program is translated. Each translated block is cloned
  into the function it belongs to and linked by its last stores to \<open>PC\<close> and \<open>LR\<close>: a jump inside the function goes
  through an intermediate block \<open>Trans_...\<close> until its target is translated, a jump into another function is a tail
  call, and a block that turns out to be called becomes a function of its own, with everything reachable from it.
  The ARM build is modelled.
\<close>

section \<open>The state\<close>

record builder =
  built_module :: lmodule
  initialized :: bool
  targetMap :: "nat \<rightharpoonup> u64"
  hasImplicitTarget :: bool
  currBlockAddr :: u64
  nextBlockAddr :: u64
  basicBlocks :: "string \<rightharpoonup> nat"
  functionMap :: "string \<rightharpoonup> nat"

text \<open>\<open>intToString\<close> takes an \<open>unsigned int\<close>: only the low 32 bits of an address are in a name.\<close>

definition intToString :: "u64 \<Rightarrow> string" where
  "intToString num = dec_digits (unat (ucast num :: u32))"

abbreviation name_at :: "string \<Rightarrow> u64 \<Rightarrow> string" where
  "name_at prefix a \<equiv> prefix @ intToString a"

abbreviation false_ret :: ikind where
  "false_ret \<equiv> Ret (Some (ConstInt 1 0))"

definition setBlockAddr :: "u64 \<Rightarrow> u64 \<Rightarrow> builder \<Rightarrow> builder" where
  "setBlockAddr startAddr endAddr s = s\<lparr>currBlockAddr := startAddr, nextBlockAddr := endAddr\<rparr>"

definition initialize_builder :: "builder \<Rightarrow> builder" where
  "initialize_builder s = s\<lparr>built_module := \<lparr>mfuncs = [], mglobals = []\<rparr>, initialized := True\<rparr>"

section \<open>Stores to PC and LR\<close>

text \<open>Whether a pointer is the address of the register at an offset into the CPU state.\<close>

definition env_pointer :: "(val \<Rightarrow> string) \<Rightarrow> u32 \<Rightarrow> func \<Rightarrow> val \<Rightarrow> bool res" where
  "env_pointer getName off F ptr = (case def_of F ptr of
     Some (IntToPtr (InsRef m)) \<Rightarrow> (case find_ins F m of
         None \<Rightarrow> Inr False
       | Some add \<Rightarrow> (case operands (ikind add) of
           [] \<Rightarrow> Inl (AssertFailed ''getOperand(0)'')
         | a # rest \<Rightarrow>
             if \<not> startswith (getName a) ''env_v'' then Inr False
             else (case rest of
                 [] \<Rightarrow> Inl (AssertFailed ''getOperand(1)'')
               | ConstInt w c # _ \<Rightarrow> Inr (env_offset w c = off)
               | _ # _ \<Rightarrow> Inr False)))
   | _ \<Rightarrow> Inr False)"

definition constStoreToPC :: "(val \<Rightarrow> string) \<Rightarrow> func \<Rightarrow> val \<Rightarrow> val \<Rightarrow> u64 option res" where
  "constStoreToPC getName F v ptr = rbind (env_pointer getName pc_offset F ptr) (\<lambda>r. Inr (if r then const_int v else None))"

definition constStoreToLR :: "(val \<Rightarrow> string) \<Rightarrow> func \<Rightarrow> val \<Rightarrow> val \<Rightarrow> u64 option res" where
  "constStoreToLR getName F v ptr = rbind (env_pointer getName lr_offset F ptr) (\<lambda>r. Inr (if r then const_int v else None))"

definition isIndirectStoreToPC :: "(val \<Rightarrow> string) \<Rightarrow> func \<Rightarrow> val \<Rightarrow> val \<Rightarrow> bool res" where
  "isIndirectStoreToPC getName F v ptr = rbind (env_pointer getName pc_offset F ptr) (\<lambda>r. Inr (r \<and> const_int v = None))"

definition scan_ins :: "(val \<Rightarrow> string) \<Rightarrow> func \<Rightarrow> nat \<Rightarrow> instr \<Rightarrow> builder \<Rightarrow> builder res" where
  "scan_ins getName F ibb i s = (case ikind i of
     Store v ptr \<Rightarrow>
       rbind (constStoreToPC getName F v ptr) (\<lambda>constPC.
       rbind (isIndirectStoreToPC getName F v ptr) (\<lambda>indirect.
       rbind (constStoreToLR getName F v ptr) (\<lambda>constLR.
         let t1 = (case constPC of Some c \<Rightarrow> (targetMap s)(ibb \<mapsto> c) | None \<Rightarrow> targetMap s);
             t2 = (if indirect then t1(ibb := None) else t1);
             imp = (case constLR of None \<Rightarrow> False
               | Some l \<Rightarrow> nextBlockAddr s \<noteq> - 1 \<and> l AND - 2 = nextBlockAddr s AND - 2) in
         Inr (s\<lparr>targetMap := t2, hasImplicitTarget := hasImplicitTarget s \<or> imp\<rparr>))))
   | _ \<Rightarrow> Inr s)"

definition scan_block :: "(val \<Rightarrow> string) \<Rightarrow> func \<Rightarrow> bblock \<Rightarrow> builder \<times> nat list \<Rightarrow> (builder \<times> nat list) res" where
  "scan_block getName F ibb st = rbind (is_exit ibb) (\<lambda>returning.
     if \<not> returning then Inr st
     else rbind (rfold (scan_ins getName F (bid ibb)) (bins ibb) (fst st)) (\<lambda>s. Inr (s, snd st @ [bid ibb])))"

definition searchNextBasicBlockAddr :: "(val \<Rightarrow> string) \<Rightarrow> func \<Rightarrow> builder \<Rightarrow> (bool \<times> builder) res" where
  "searchNextBasicBlockAddr getName F s = (if nextBlockAddr s = - 1 then Inr (False, s)
     else rbind (rfold (\<lambda>i found. if found then Inr True else (case ikind i of
            Store v ptr \<Rightarrow> rbind (constStoreToLR getName F v ptr) (\<lambda>lr. Inr (lr = Some (nextBlockAddr s)))
          | _ \<Rightarrow> Inr False)) (func_ins F) False)
       (\<lambda>found. Inr (found, if found then s\<lparr>hasImplicitTarget := True\<rparr> else s)))"

text \<open>One use of \<open>PC\<close> by an instruction of the block \<open>b\<close>; \<open>getSExtValue\<close> extends from the width of the constant.\<close>

definition processPCUse :: "bblock \<Rightarrow> instr \<Rightarrow> builder \<Rightarrow> builder res" where
  "processPCUse b i s = (case ikind i of
     Store v ptr \<Rightarrow> rbind (is_exit b) (\<lambda>returning. Inr (
       if \<not> returning then s
       else (case v of
           ConstInt w c \<Rightarrow> s\<lparr>targetMap := (targetMap s)(bid b \<mapsto> signed_take_bit (w - 1) c)\<rparr>
         | _ \<Rightarrow> s\<lparr>targetMap := (targetMap s)(bid b := None)\<rparr>)))
   | _ \<Rightarrow> Inr s)"

section \<open>Moving blocks\<close>

text \<open>The first loop of \<open>validateMove\<close>: the blocks reachable from the list.\<close>

function visit_all :: "lmodule \<Rightarrow> nat list \<Rightarrow> nat set \<Rightarrow> nat set res" where
  "visit_all M [] visited = Inr visited"
| "visit_all M (head # blockList) visited =
     (if head \<in> visited then visit_all M blockList visited
      else rbind (succs_of M head) (\<lambda>ss. visit_all M (blockList @ ss) (insert head visited)))"
  by pat_completeness auto

lemma succs_of_block: "succs_of M b = Inr ss \<Longrightarrow> b \<in> bid ` set (all_blocks M)"
  by (auto simp: succs_of_def term_of_def mod_block_def rbind_eq_Inr find_Some_iff split: option.splits)

termination visit_all
proof (relation "measures [\<lambda>(M, bs, V). card (bid ` set (all_blocks M) - V), \<lambda>(M, bs, V). length bs]")
  fix M head blockList visited ss
  assume n: "head \<notin> visited" and s: "succs_of M head = Inr ss"
  from succs_of_block [OF s] n
  have "card (bid ` set (all_blocks M) - insert head visited) < card (bid ` set (all_blocks M) - visited)"
    by (intro psubset_card_mono) auto
  then show "((M, blockList @ ss, insert head visited), M, head # blockList, visited)
    \<in> measures [\<lambda>(M, bs, V). card (bid ` set (all_blocks M) - V), \<lambda>(M, bs, V). length bs]" by simp
qed simp_all

definition validateMove :: "lmodule \<Rightarrow> nat \<Rightarrow> bool res" where
  "validateMove M block = rbind (visit_all M [block] {}) (\<lambda>visited.
     Inr (\<forall>bb \<in> visited. list_all (\<lambda>u. fst u \<in> visited) (uses_of M bb)))"

text \<open>\<open>moveBasicBlockToNewFunction\<close>; \<open>getSinglePredecessor\<close> is null when the block has several uses or none.\<close>

definition moveBasicBlockToNewFunction :: "nat \<Rightarrow> nat \<Rightarrow> lmodule \<Rightarrow> lmodule res" where
  "moveBasicBlockToNewFunction block parent M =
     rbind (mod_block M block) (\<lambda>B. rbind (mod_func M parent) (\<lambda>f.
     (case fblocks f of
        [] \<Rightarrow> Inl (NullDeref ''getEntryBlock'')
      | entryBlock # _ \<Rightarrow>
          let link = move_after block (bid entryBlock) parent (append_to (bid entryBlock) (Br block) M) in
          if \<not> strstr (bname B) ''BB_'' then move_after block (bid (last (fblocks f))) parent M
          else (case uses_of M block of
              [(transBlock, _)] \<Rightarrow>
                if parent_of M transBlock = Some parent then move_after block transBlock parent M else link
            | _ \<Rightarrow> link))))"

text \<open>
  \<open>moveBasicBlocksToNewFunction\<close> calls itself on each successor in turn. The stack holds the calls still to be
  made: a block that is moved puts its successors in front.
\<close>

definition outside :: "nat \<Rightarrow> lmodule \<Rightarrow> nat" where
  "outside p M = sum_list (map (\<lambda>f. if fid f = p then 0 else length (fblocks f)) (mfuncs M))"

function move_stack :: "nat \<Rightarrow> nat list \<Rightarrow> lmodule \<Rightarrow> lmodule res" where
  "move_stack parent [] M = Inr M"
| "move_stack parent (block # stack) M =
     (if parent_of M block = Some parent then move_stack parent stack M
      else rbind (moveBasicBlockToNewFunction block parent M) (\<lambda>M'.
        rbind (succs_of M' block) (\<lambda>ss. move_stack parent (ss @ stack) M')))"
  by pat_completeness auto

lemma outside_append [simp]: "outside p (append_to b k M) = outside p M"
  by (simp add: outside_def append_to_def map_mod_def map_blocks_def comp_def if_distrib cong: if_cong)

lemma outside_move:
  assumes "move_after b pos p M = Inr M'" and "parent_of M b \<noteq> Some p"
  shows "outside p M' < outside p M"
proof -
  obtain B where "find (\<lambda>B. bid B = b) (all_blocks M) = Some B"
    and M': "M' = in_func p (\<lambda>f. f\<lparr>fblocks := put_after pos B (fblocks f)\<rparr>) (remove_block b M)"
    using assms(1) by (auto simp: move_after_def mod_block_def rbind_eq_Inr split: option.splits)
  then have "\<exists>f \<in> set (mfuncs M). b \<in> bid ` set (fblocks f)" by (force dest!: find_mem simp: all_blocks_def)
  then obtain f where f: "find (\<lambda>f. b \<in> bid ` set (fblocks f)) (mfuncs M) = Some f"
    by (cases "find (\<lambda>f. b \<in> bid ` set (fblocks f)) (mfuncs M)") (auto simp: find_None_iff)
  then have p: "fid f \<noteq> p" using assms(2) by (simp add: parent_of_def)
  have m: "f \<in> set (mfuncs M)" "b \<in> bid ` set (fblocks f)" using f by (auto simp: find_Some_iff)
  have "outside p M' = sum_list (map (\<lambda>f. if fid f = p then 0 else length (filter (\<lambda>B. bid B \<noteq> b) (fblocks f))) (mfuncs M))"
    by (simp add: M' outside_def in_func_def remove_block_def comp_def if_distrib cong: if_cong)
  also have "\<dots> < outside p M"
    unfolding outside_def using m p by (intro sum_list_less [of f]) (auto intro: length_filter_less)
  finally show ?thesis .
qed

text \<open>A block is moved behind a block of the function, and perhaps the entry gets a branch to it.\<close>

lemma moved_cases:
  assumes "moveBasicBlockToNewFunction b p M = Inr M'"
  obtains f entry rest pos N where "mod_func M p = Inr f" "fblocks f = entry # rest" "move_after b pos p N = Inr M'"
    "N = M \<and> (pos = bid (last (fblocks f)) \<or> parent_of M pos = Some p)
     \<or> N = append_to (bid entry) (Br b) M \<and> pos = bid entry"
proof -
  obtain B f where B: "mod_block M b = Inr B" and f: "mod_func M p = Inr f"
    using assms by (auto simp: moveBasicBlockToNewFunction_def rbind_eq_Inr)
  obtain E rest where E: "fblocks f = E # rest"
    using assms B f by (cases "fblocks f") (simp_all add: moveBasicBlockToNewFunction_def)
  note r = assms [unfolded moveBasicBlockToNewFunction_def B f E Let_def, simplified]
  show thesis
  proof (cases "\<not> strstr (bname B) ''BB_'' \<or> (\<exists>t n. uses_of M b = [(t, n)] \<and> parent_of M t = Some p)")
    case True
    with r have "move_after b (bid (last (fblocks f))) p M = Inr M' \<or>
        (\<exists>t. parent_of M t = Some p \<and> move_after b t p M = Inr M')"
      by (auto simp: E split: if_splits)
    with that [OF f E] show thesis by metis
  next
    case False
    with r have "move_after b (bid E) p (append_to (bid E) (Br b) M) = Inr M'"
      by (auto simp: E split: if_splits list.splits)
    with that [OF f E] show thesis by metis
  qed
qed

lemma outside_moved:
  assumes "moveBasicBlockToNewFunction b p M = Inr M'" and "parent_of M b \<noteq> Some p"
  shows "outside p M' < outside p M"
  by (rule moved_cases [OF assms(1)]) (use outside_move assms(2) in fastforce)

termination move_stack
proof (relation "measures [\<lambda>(p, bs, M). outside p M, \<lambda>(p, bs, M). length bs]")
  fix parent block stack M M' ss
  assume "parent_of M block \<noteq> Some parent" "moveBasicBlockToNewFunction block parent M = Inr M'"
  with outside_moved show "((parent, ss @ stack, M'), parent, block # stack, M)
    \<in> measures [\<lambda>(p, bs, M). outside p M, \<lambda>(p, bs, M). length bs]" by simp
qed simp_all

definition moveBasicBlocksToNewFunction :: "nat \<Rightarrow> nat \<Rightarrow> lmodule \<Rightarrow> lmodule res" where
  "moveBasicBlocksToNewFunction block parent M = move_stack parent [block] M"

section \<open>Blocks and functions by name\<close>

definition getBasicBlock :: "string \<Rightarrow> builder \<Rightarrow> nat option" where
  "getBasicBlock nm s = basicBlocks s nm"

definition getOrCreateBasicBlock :: "nat \<Rightarrow> string \<Rightarrow> builder \<Rightarrow> nat \<times> builder" where
  "getOrCreateBasicBlock parent nm s = (case basicBlocks s nm of
     Some b \<Rightarrow> (b, s)
   | None \<Rightarrow> (let newBB = new_bid (built_module s) in
       (newBB, s\<lparr>built_module := add_blocks parent [\<lparr>bid = newBB, bname = nm, bins = []\<rparr>] (built_module s),
         basicBlocks := (basicBlocks s)(nm \<mapsto> newBB)\<rparr>)))"

definition getFunction :: "string \<Rightarrow> builder \<Rightarrow> nat option" where
  "getFunction nm s = functionMap s nm"

definition getOrCreateTransBasicBlock :: "nat \<Rightarrow> u64 \<Rightarrow> builder \<Rightarrow> (nat \<times> builder) res" where
  "getOrCreateTransBasicBlock parent addr s =
     (case getOrCreateBasicBlock parent (name_at ''Trans_'' addr) s of (ret, s1) \<Rightarrow>
       rbind (require (getFunction (name_at ''Function_'' addr) s1 = None) (AssertFailed ''getFunction == NULL'')) (\<lambda>_.
       rbind (mod_block (built_module s1) ret) (\<lambda>B. Inr (ret,
         if terminator B = None then s1\<lparr>built_module := append_to ret false_ret (built_module s1)\<rparr> else s1))))"

text \<open>
  Every branch to the intermediate block gets a call of the new function and a return in front; the branches are
  the list of instructions to erase.
\<close>

definition relinkOldTransBasicBlock :: "string \<Rightarrow> nat \<Rightarrow> lmodule \<Rightarrow> lmodule \<times> nat list" where
  "relinkOldTransBasicBlock newF transBlock M =
     (let terminatorList = map snd (uses_of M transBlock) in
      (fold (\<lambda>n M. insert_before n false_ret (insert_before n (Call (FuncRef newF) []) M)) terminatorList M, terminatorList))"

text \<open>A new function for an address: whether its block is known, only its intermediate block, or neither.\<close>

definition new_function :: "string \<Rightarrow> builder \<Rightarrow> nat \<times> builder" where
  "new_function nm s = (let p = fresh_fid (built_module s);
       M = (built_module s)\<lparr>mfuncs := mfuncs (built_module s) @ [\<lparr>fid = p, fname = nm, fblocks = []\<rparr>]\<rparr> in
     (p, s\<lparr>built_module := add_blocks p [\<lparr>bid = new_bid M, bname = ''entry'', bins = []\<rparr>] M,
       functionMap := (functionMap s)(nm \<mapsto> p)\<rparr>))"

definition fake_function :: "string \<Rightarrow> nat \<Rightarrow> builder \<Rightarrow> builder res" where
  "fake_function addr newF s = rbind (mod_func (built_module s) newF) (\<lambda>f. case fblocks f of
     [] \<Rightarrow> Inl (NullDeref ''getEntryBlock'')
   | entry # _ \<Rightarrow> Inr (s\<lparr>functionMap := (functionMap s)(''Function_'' @ addr := None, ''FakeFunction_'' @ addr := Some newF),
       built_module := in_func newF (\<lambda>f. f\<lparr>fname := ''FakeFunction_'' @ addr\<rparr>)
         (append_to (bid entry) false_ret (built_module s))\<rparr>))"

text \<open>The intermediate block goes: out of the table, and out of the module.\<close>

definition drop_trans :: "nat \<Rightarrow> builder \<Rightarrow> builder res" where
  "drop_trans transBlock s = rbind (mod_block (built_module s) transBlock) (\<lambda>T.
     rbind (erase_block transBlock (built_module s)) (\<lambda>M.
       Inr (s\<lparr>basicBlocks := (basicBlocks s)(bname T := None), built_module := M\<rparr>)))"

definition take_over :: "string \<Rightarrow> nat \<Rightarrow> nat \<Rightarrow> builder \<Rightarrow> builder res" where
  "take_over addr newF head s = (case getBasicBlock (''Trans_'' @ addr) s of
     None \<Rightarrow> Inl (AssertFailed ''transBlock'')
   | Some transBlock \<Rightarrow>
       (case relinkOldTransBasicBlock (''Function_'' @ addr) transBlock (built_module s) of (M1, terminatorList) \<Rightarrow>
         rbind (moveBasicBlocksToNewFunction head newF M1) (\<lambda>M2.
         rbind (rfold erase_ins terminatorList M2) (\<lambda>M3.
         rbind (require (16 \<le> length (uses_of M3 head) \<or> transBlock \<in> fst ` set (uses_of M3 head)) (AssertFailed ''removePredecessor'')) (\<lambda>_.
           drop_trans transBlock (s\<lparr>built_module := M3\<rparr>))))))"

definition take_over_trans :: "string \<Rightarrow> builder \<Rightarrow> builder res" where
  "take_over_trans addr s = (case getBasicBlock (''Trans_'' @ addr) s of
     None \<Rightarrow> Inr s
   | Some transBlock \<Rightarrow>
       (case relinkOldTransBasicBlock (''Function_'' @ addr) transBlock (built_module s) of (M1, terminatorList) \<Rightarrow>
         rbind (rfold erase_ins terminatorList M1) (\<lambda>M2. drop_trans transBlock (s\<lparr>built_module := M2\<rparr>))))"

definition getOrCreateFunction :: "u64 \<Rightarrow> builder \<Rightarrow> (nat \<times> builder) res" where
  "getOrCreateFunction a s = (let addr = intToString a in
     (case functionMap s (''Function_'' @ addr) of
        Some f \<Rightarrow> Inr (f, s)
      | None \<Rightarrow> (case new_function (''Function_'' @ addr) s of (newF, s1) \<Rightarrow>
          rbind (case getBasicBlock (''BB_'' @ addr) s1 of
              Some head \<Rightarrow> rbind (validateMove (built_module s1) head) (\<lambda>ok.
                if \<not> ok then fake_function addr newF s1 else take_over addr newF head s1)
            | None \<Rightarrow> take_over_trans addr s1)
          (\<lambda>s2. Inr (newF, s2)))))"

section \<open>Edges\<close>

definition at_term :: "nat \<Rightarrow> (nat \<Rightarrow> lmodule \<Rightarrow> lmodule res) \<Rightarrow> builder \<Rightarrow> builder res" where
  "at_term block g s = rbind (term_of (built_module s) block) (\<lambda>t. rbind (g (iid t) (built_module s)) (\<lambda>M. Inr (s\<lparr>built_module := M\<rparr>)))"

text \<open>\<open>Create(..., terminator)\<close> and then \<open>terminator->eraseFromParent()\<close>.\<close>

definition replace_term :: "nat \<Rightarrow> ikind \<Rightarrow> lmodule \<Rightarrow> lmodule res" where
  "replace_term n k M = erase_ins n (insert_before n k M)"

definition createIndirectEdge :: "nat \<Rightarrow> builder \<Rightarrow> builder res" where
  "createIndirectEdge block s = at_term block (\<lambda>n. replace_term n false_ret) s"

definition block_parent :: "nat \<Rightarrow> builder \<Rightarrow> nat res" where
  "block_parent block s = (case parent_of (built_module s) block of None \<Rightarrow> Inl (NullDeref ''getParent'') | Some p \<Rightarrow> Inr p)"

text \<open>A branch to the intermediate block of an address in place of the terminator.\<close>

definition branch_to :: "nat \<Rightarrow> nat \<Rightarrow> u64 \<Rightarrow> builder \<Rightarrow> builder res" where
  "branch_to block t addr s = rbind (block_parent block s) (\<lambda>p.
     rbind (getOrCreateTransBasicBlock p addr s) (\<lambda>(target, s1).
     rbind (replace_term t (Br target) (built_module s1)) (\<lambda>M. Inr (s1\<lparr>built_module := M\<rparr>))))"

definition call_function :: "nat \<Rightarrow> u64 \<Rightarrow> builder \<Rightarrow> builder res" where
  "call_function t target s = rbind (getOrCreateFunction target s) (\<lambda>(targetFunction, s1).
     rbind (mod_func (built_module s1) targetFunction) (\<lambda>f.
       Inr (s1\<lparr>built_module := insert_before t (Call (FuncRef (fname f)) []) (built_module s1)\<rparr>)))"

text \<open>\<open>createCallEdge\<close>, for a tail call and for a call that returns to the next block.\<close>

definition tail_call_edge :: "nat \<Rightarrow> u64 \<Rightarrow> builder \<Rightarrow> builder res" where
  "tail_call_edge block target s = rbind (term_of (built_module s) block) (\<lambda>t.
     rbind (call_function (iid t) target s) (\<lambda>s1.
     rbind (replace_term (iid t) false_ret (built_module s1)) (\<lambda>M. Inr (s1\<lparr>built_module := M\<rparr>))))"

definition return_edge :: "nat \<Rightarrow> nat \<Rightarrow> builder \<Rightarrow> builder res" where
  "return_edge block t s = (if getFunction (name_at ''Function_'' (nextBlockAddr s)) s = None
     then branch_to block t (nextBlockAddr s) s else tail_call_edge block (nextBlockAddr s) s)"

definition createCallEdge :: "nat \<Rightarrow> u64 \<Rightarrow> bool \<Rightarrow> builder \<Rightarrow> builder res" where
  "createCallEdge block target isTailCall s =
     (if isTailCall then tail_call_edge block target s
      else rbind (term_of (built_module s) block) (\<lambda>t.
        rbind (call_function (iid t) target s) (\<lambda>s1. return_edge block (iid t) s1)))"

definition in_other_function :: "string \<Rightarrow> nat \<Rightarrow> builder \<Rightarrow> bool" where
  "in_other_function nm block s = (case getBasicBlock nm s of None \<Rightarrow> False
     | Some d \<Rightarrow> parent_of (built_module s) d \<noteq> parent_of (built_module s) block)"

definition createDirectEdge :: "nat \<Rightarrow> u64 \<Rightarrow> builder \<Rightarrow> builder res" where
  "createDirectEdge block target s =
     (if getFunction (name_at ''Function_'' target) s \<noteq> None
        \<or> in_other_function (name_at ''BB_'' target) block s
        \<or> in_other_function (name_at ''Trans_'' target) block s
      then createCallEdge block target True s
      else rbind (term_of (built_module s) block) (\<lambda>t. branch_to block (iid t) target s))"

definition createIndirectCallEdge :: "nat \<Rightarrow> builder \<Rightarrow> builder res" where
  "createIndirectCallEdge block s = rbind (term_of (built_module s) block) (\<lambda>t.
     let n = iid t;
         M1 = insert_before n (Load (GlobalVar ''PC'')) (getOrInsertGlobal ''PC'' (built_module s));
         M2 = insert_before n (IntToPtr (InsRef (new_iid (built_module s)))) M1;
         M3 = insert_before n (Call (InsRef (new_iid M1)) []) M2 in
     return_edge block n (s\<lparr>built_module := M3\<rparr>))"

section \<open>runOnFunction\<close>

definition findParentFunction :: "builder \<Rightarrow> (nat \<times> builder) res" where
  "findParentFunction s = (case getFunction (name_at ''Function_'' (currBlockAddr s)) s of
     Some f \<Rightarrow> Inr (f, s)
   | None \<Rightarrow> (case getBasicBlock (name_at ''Trans_'' (currBlockAddr s)) s of
       Some transBlock \<Rightarrow> rbind (block_parent transBlock s) (\<lambda>p. Inr (p, s))
     | None \<Rightarrow> getOrCreateFunction (currBlockAddr s) s))"

definition declare_globals :: "func \<Rightarrow> builder \<Rightarrow> builder" where
  "declare_globals F s = s\<lparr>built_module := copyGlobalReferences F (built_module s)\<rparr>"

text \<open>
  \<open>CloneFunctionInto\<close> puts copies of the blocks at the end of the function; \<open>VMap\<close> leads from a block to its copy.
\<close>

type_synonym build_clone = "lmodule \<Rightarrow> func \<Rightarrow> bblock list \<times> (nat \<rightharpoonup> nat)"

definition mapped :: "(nat \<rightharpoonup> nat) \<Rightarrow> nat \<Rightarrow> nat res" where
  "mapped VMap b = (case VMap b of None \<Rightarrow> Inl (NullDeref ''VMap'') | Some b' \<Rightarrow> Inr b')"

text \<open>The link to the first block, from the intermediate block or from the entry of the function.\<close>

definition link_first :: "nat \<Rightarrow> nat \<Rightarrow> builder \<Rightarrow> builder res" where
  "link_first firstBlock newF s = (case getBasicBlock (name_at ''Trans_'' (currBlockAddr s)) s of
     Some transBlock \<Rightarrow> rbind (term_of (built_module s) transBlock) (\<lambda>t.
       rbind (erase_ins (iid t) (built_module s)) (\<lambda>M.
         Inr (s\<lparr>built_module := append_to transBlock (Br firstBlock) M\<rparr>)))
   | None \<Rightarrow> rbind (mod_func (built_module s) newF) (\<lambda>f. case fblocks f of
         [] \<Rightarrow> Inl (NullDeref ''getEntryBlock'')
       | entryBlock # _ \<Rightarrow> Inr (s\<lparr>built_module := append_to (bid entryBlock) (Br firstBlock) (built_module s)\<rparr>)))"

definition jump_edge :: "(nat \<rightharpoonup> nat) \<Rightarrow> nat \<Rightarrow> builder \<Rightarrow> builder res" where
  "jump_edge VMap oldBlock s = rbind (mapped VMap oldBlock) (\<lambda>newBlock.
     case targetMap s oldBlock of Some t \<Rightarrow> createDirectEdge newBlock t s | None \<Rightarrow> createIndirectEdge newBlock s)"

definition call_edge :: "(nat \<rightharpoonup> nat) \<Rightarrow> nat \<Rightarrow> builder \<Rightarrow> builder res" where
  "call_edge VMap oldBlock s = rbind (mapped VMap oldBlock) (\<lambda>newBlock.
     case targetMap s oldBlock of Some t \<Rightarrow> createCallEdge newBlock t False s | None \<Rightarrow> createIndirectCallEdge newBlock s)"

definition make_edges :: "(nat \<rightharpoonup> nat) \<Rightarrow> nat list \<Rightarrow> builder \<Rightarrow> builder res" where
  "make_edges VMap terminatorList s = (case terminatorList of
     [oldBlock] \<Rightarrow> if hasImplicitTarget s then call_edge VMap oldBlock s else jump_edge VMap oldBlock s
   | _ \<Rightarrow> rfold (jump_edge VMap) terminatorList s)"

definition build_block :: "build_clone \<Rightarrow> (val \<Rightarrow> string) \<Rightarrow> func \<Rightarrow> builder \<Rightarrow> builder res" where
  "build_block clone getName F s =
     (let bb = name_at ''BB_'' (currBlockAddr s) in
      rbind (rfold (scan_block getName F) (fblocks F) (s\<lparr>targetMap := Map.empty, hasImplicitTarget := False\<rparr>, []))
        (\<lambda>(s1, terminatorList).
      rbind (findParentFunction s1) (\<lambda>(newF, s2).
        let s3 = declare_globals F s2 in
      (case clone (built_module s3) F of (Bs, VMap) \<Rightarrow>
      (case fblocks F of
        [] \<Rightarrow> Inl (NullDeref ''getEntryBlock'')
      | entry # _ \<Rightarrow>
        rbind (mapped VMap (bid entry)) (\<lambda>firstBlock.
          let s4 = s3\<lparr>built_module := rename_block firstBlock bb (add_blocks newF Bs (built_module s3)),
                basicBlocks := (basicBlocks s3)(bb \<mapsto> firstBlock)\<rparr> in
        rbind (link_first firstBlock newF s4) (\<lambda>s5.
        rbind (moveBasicBlockToNewFunction firstBlock newF (built_module s5)) (\<lambda>M.
          make_edges VMap terminatorList (s5\<lparr>built_module := M\<rparr>)))))))))"

definition extract_and_build :: "build_clone \<Rightarrow> (val \<Rightarrow> string) \<Rightarrow> func \<Rightarrow> builder \<Rightarrow> (builder \<times> bool) res" where
  "extract_and_build clone getName F s =
     (let s0 = (if initialized s then s else initialize_builder s) in
      if getBasicBlock (name_at ''BB_'' (currBlockAddr s0)) s0 \<noteq> None then Inr (s0, False)
      else rbind (build_block clone getName F s0) (\<lambda>s1. Inr (s1, False)))"

end
