(* ===== verification/Extract_Moves.thy ===== *)
theory Extract_Moves
  imports Extract_Build
begin

text \<open>
  What moving a block with everything behind it does to the module: \<open>validateMove\<close> accepts exactly the regions
  that are entered only from themselves, and moving such a region leaves no branch from one function into another.
\<close>

section \<open>Where the blocks of a module are\<close>

definition located :: "lmodule \<Rightarrow> (nat \<times> bblock) set" where
  "located M = {(fid f, B) | f B. f \<in> set (mfuncs M) \<and> B \<in> set (fblocks f)}"

definition uniq :: "lmodule \<Rightarrow> bool" where
  "uniq M \<longleftrightarrow> (\<forall>p B q C. (p, B) \<in> located M \<longrightarrow> (q, C) \<in> located M \<longrightarrow> bid B = bid C \<longrightarrow> p = q \<and> B = C)"

lemma uniqD: "uniq M \<Longrightarrow> (p, B) \<in> located M \<Longrightarrow> (q, C) \<in> located M \<Longrightarrow> bid B = bid C \<Longrightarrow> p = q \<and> B = C"
  unfolding uniq_def by blast

lemma located_iff: "(p, B) \<in> located M \<longleftrightarrow> (\<exists>f \<in> set (mfuncs M). fid f = p \<and> B \<in> set (fblocks f))"
  by (auto simp: located_def)

lemma located_map:
  "mfuncs N = map h (mfuncs M) \<Longrightarrow> (\<And>f. fid (h f) = fid f) \<Longrightarrow>
   (r, D) \<in> located N \<longleftrightarrow> (\<exists>f \<in> set (mfuncs M). fid f = r \<and> D \<in> set (fblocks (h f)))"
  by (simp add: located_iff)

lemma all_blocks_located: "set (all_blocks M) = snd ` located M"
  by (force simp: all_blocks_def located_def)

lemma mod_block_iff: "uniq M \<Longrightarrow> mod_block M x = Inr B \<longleftrightarrow> (\<exists>p. (p, B) \<in> located M \<and> bid B = x)"
proof
  assume "mod_block M x = Inr B"
  then have "B \<in> set (all_blocks M) \<and> bid B = x" by (auto simp: mod_block_def dest: find_mem split: option.splits)
  then show "\<exists>p. (p, B) \<in> located M \<and> bid B = x" by (force simp: all_blocks_located)
next
  assume u: "uniq M" and "\<exists>p. (p, B) \<in> located M \<and> bid B = x"
  then obtain p where p: "(p, B) \<in> located M" "bid B = x" by blast
  then have "B \<in> set (all_blocks M)" by (force simp: all_blocks_located)
  then obtain C where C: "find (\<lambda>B. bid B = x) (all_blocks M) = Some C"
    using p(2) by (cases "find (\<lambda>B. bid B = x) (all_blocks M)") (auto simp: find_None_iff)
  then obtain q where "(q, C) \<in> located M" "bid C = x" using find_mem [OF C] by (force simp: all_blocks_located)
  with uniqD [OF u p(1), of q C] p(2) C show "mod_block M x = Inr B" by (simp add: mod_block_def)
qed

lemma parent_of_iff: "uniq M \<Longrightarrow> parent_of M x = Some p \<longleftrightarrow> (\<exists>B. (p, B) \<in> located M \<and> bid B = x)"
proof
  assume "parent_of M x = Some p"
  then obtain f where "find (\<lambda>f. x \<in> bid ` set (fblocks f)) (mfuncs M) = Some f" "fid f = p" by (auto simp: parent_of_def)
  with find_mem [OF this(1)] show "\<exists>B. (p, B) \<in> located M \<and> bid B = x" by (auto simp: located_def)
next
  assume u: "uniq M" and "\<exists>B. (p, B) \<in> located M \<and> bid B = x"
  then obtain B f where B: "(p, B) \<in> located M" "bid B = x" "f \<in> set (mfuncs M)" "B \<in> set (fblocks f)" by (auto simp: located_def)
  then obtain g where g: "find (\<lambda>f. x \<in> bid ` set (fblocks f)) (mfuncs M) = Some g"
    by (cases "find (\<lambda>f. x \<in> bid ` set (fblocks f)) (mfuncs M)") (auto simp: find_None_iff)
  then obtain C where "(fid g, C) \<in> located M" "bid C = x" using find_mem [OF g] by (auto simp: located_def)
  with uniqD [OF u B(1), of "fid g" C] B(2) g show "parent_of M x = Some p" by (simp add: parent_of_def)
qed

lemma mod_block_none: "mod_block M x = Inl e \<Longrightarrow> e = NullDeref ''BasicBlock''"
  by (auto simp: mod_block_def split: option.splits)

lemma mod_block_same:
  assumes "uniq M" and "uniq N"
    and "\<And>p B. (p, B) \<in> located M \<Longrightarrow> bid B = x \<Longrightarrow> \<exists>q. (q, B) \<in> located N"
    and "\<And>p B. (p, B) \<in> located N \<Longrightarrow> bid B = x \<Longrightarrow> \<exists>q. (q, B) \<in> located M"
  shows "mod_block M x = mod_block N x"
proof (cases "mod_block M x")
  case (Inr B)
  then obtain q where "(q, B) \<in> located N" "bid B = x" using assms(3) mod_block_iff [OF assms(1)] by meson
  then have "mod_block N x = Inr B" using mod_block_iff [OF assms(2)] by blast
  with Inr show ?thesis by simp
next
  case (Inl e)
  show ?thesis
  proof (cases "mod_block N x")
    case (Inr B)
    then obtain q where "(q, B) \<in> located M" "bid B = x" using assms(4) mod_block_iff [OF assms(2)] by meson
    then have "mod_block M x = Inr B" using mod_block_iff [OF assms(1)] by blast
    with Inl show ?thesis by simp
  next
    case r: (Inl e')
    show ?thesis using mod_block_none [OF Inl] mod_block_none [OF r] Inl r by simp
  qed
qed

lemma parent_of_same:
  assumes "uniq M" and "uniq N"
    and "\<And>p B. (p, B) \<in> located M \<Longrightarrow> bid B = x \<Longrightarrow> \<exists>C. (p, C) \<in> located N \<and> bid C = x"
    and "\<And>p B. (p, B) \<in> located N \<Longrightarrow> bid B = x \<Longrightarrow> \<exists>C. (p, C) \<in> located M \<and> bid C = x"
  shows "parent_of M x = parent_of N x"
proof (rule option.expand)
  show "(parent_of M x = None) = (parent_of N x = None)"
    using assms(3,4) parent_of_iff [OF assms(1)] parent_of_iff [OF assms(2)] by (metis not_None_eq)
  fix p q assume "parent_of M x \<noteq> None" "parent_of N x \<noteq> None"
  then show "the (parent_of M x) = the (parent_of N x)"
    using assms(3) parent_of_iff [OF assms(1)] parent_of_iff [OF assms(2)] by (metis option.collapse option.sel)
qed

section \<open>Moving one block\<close>

lemma set_put_after: "set (put_after pos B Cs) = set Cs \<union> (if pos \<in> bid ` set Cs then {B} else {})"
  by (induction Cs) auto

lemma located_moved:
  assumes "move_after b pos p M = Inr M'" and "uniq M" and "parent_of M pos = Some p" and "pos \<noteq> b"
  obtains q B where "(q, B) \<in> located M" "bid B = b" "located M' = located M - {(q, B)} \<union> {(p, B)}"
proof -
  obtain B where B: "mod_block M b = Inr B"
    and M': "M' = in_func p (\<lambda>f. f\<lparr>fblocks := put_after pos B (fblocks f)\<rparr>) (remove_block b M)"
    using assms(1) by (auto simp: move_after_def rbind_eq_Inr)
  then obtain q where q: "(q, B) \<in> located M" "bid B = b" using assms(2) by (auto simp: mod_block_iff)
  obtain f C where f: "f \<in> set (mfuncs M)" "fid f = p" "C \<in> set (fblocks f)" "bid C = pos"
    using assms(2,3) by (auto simp: parent_of_iff located_def)
  let ?cut = "\<lambda>f. filter (\<lambda>B. bid B \<noteq> b) (fblocks f)"
  have pos: "pos \<in> bid ` set (?cut f)" using f(3,4) assms(4) by force
  have e: "(r, D) \<in> located M' \<longleftrightarrow> (\<exists>f \<in> set (mfuncs M). fid f = r \<and>
      D \<in> (if r = p then set (put_after pos B (?cut f)) else set (?cut f)))" for r D
  proof -
    have "mfuncs M' = map (\<lambda>f. f\<lparr>fblocks := if fid f = p then put_after pos B (?cut f) else ?cut f\<rparr>) (mfuncs M)"
      unfolding M' in_func_def remove_block_def by simp
    from located_map [OF this, of r D] show ?thesis by (auto split: if_splits)
  qed
  have "(r, D) \<in> located M' \<longleftrightarrow> (r, D) \<in> located M \<and> bid D \<noteq> b \<or> r = p \<and> D = B" for r D
  proof (cases "r = p \<and> D = B")
    case True
    then show ?thesis using f(1,2) pos unfolding e by (auto simp: set_put_after intro!: bexI [of _ f])
  next
    case False
    then have "D \<in> set (put_after pos B (?cut g)) \<longleftrightarrow> D \<in> set (fblocks g) \<and> bid D \<noteq> b" if "r = p" for g
      using that by (auto simp: set_put_after)
    with False show ?thesis unfolding e unfolding located_iff by (cases "r = p") auto
  qed
  then have "located M' = {(r, D). (r, D) \<in> located M \<and> bid D \<noteq> b} \<union> {(p, B)}" by auto
  also have "{(r, D). (r, D) \<in> located M \<and> bid D \<noteq> b} = located M - {(q, B)}"
    using uniqD [OF assms(2) q(1)] q(2) by force
  finally show thesis using that q by blast
qed

lemma moved_effect:
  assumes "move_after b pos p M = Inr M'" and "uniq M" and "parent_of M pos = Some p" and "pos \<noteq> b"
  shows "uniq M'" and "mod_block M' x = mod_block M x" and "parent_of M' x = (if x = b then Some p else parent_of M x)"
proof -
  obtain q B where q: "(q, B) \<in> located M" "bid B = b" and e: "located M' = located M - {(q, B)} \<union> {(p, B)}"
    using located_moved [OF assms] by blast
  have other: "bid C \<noteq> b" if "(r, C) \<in> located M - {(q, B)}" for r C
    using that uniqD [OF assms(2) q(1), of r C] q(2) by auto
  show u: "uniq M'"
    unfolding uniq_def e using other uniqD [OF assms(2)] q(2) by (auto; metis)
  show "mod_block M' x = mod_block M x"
    by (rule mod_block_same [OF u assms(2)]) (use q e in auto)
  show "parent_of M' x = (if x = b then Some p else parent_of M x)"
  proof (cases "x = b")
    case True
    then show ?thesis using q(2) by (auto simp: parent_of_iff [OF u] e)
  next
    case False
    then have "parent_of M' x = parent_of M x"
      by (intro parent_of_same [OF u assms(2)]) (use q e in auto)
    with False show ?thesis by simp
  qed
qed

abbreviation appended :: "nat \<Rightarrow> ikind \<Rightarrow> lmodule \<Rightarrow> bblock \<Rightarrow> bblock" where
  "appended b k M B \<equiv> (if bid B = b then B\<lparr>bins := bins B @ [mk_ins (new_iid M) k]\<rparr> else B)"

lemma located_append: "(p, C) \<in> located (append_to b k M) \<longleftrightarrow> (\<exists>B. (p, B) \<in> located M \<and> C = appended b k M B)"
proof
  assume "(p, C) \<in> located (append_to b k M)"
  then obtain f where "f \<in> set (mfuncs M)" "fid f = p" "C \<in> appended b k M ` set (fblocks f)"
    by (auto simp: located_iff append_to_def map_mod_def map_blocks_def)
  then show "\<exists>B. (p, B) \<in> located M \<and> C = appended b k M B" by (auto simp: located_iff)
next
  assume "\<exists>B. (p, B) \<in> located M \<and> C = appended b k M B"
  then obtain f where "f \<in> set (mfuncs M)" "fid f = p" "C \<in> appended b k M ` set (fblocks f)"
    by (auto simp: located_iff)
  then show "(p, C) \<in> located (append_to b k M)"
    by (auto simp: located_iff append_to_def map_mod_def map_blocks_def)
qed

lemma append_effect:
  assumes "uniq M"
  shows "uniq (append_to b k M)" and "x \<noteq> b \<Longrightarrow> mod_block (append_to b k M) x = mod_block M x"
    and "mod_block M b = Inr B \<Longrightarrow> mod_block (append_to b k M) b = Inr (B\<lparr>bins := bins B @ [mk_ins (new_iid M) k]\<rparr>)"
proof -
  have g: "bid (appended b k M B) = bid B" for B by simp
  show u: "uniq (append_to b k M)"
    unfolding uniq_def
  proof (intro allI impI)
    fix p B q C assume "(p, B) \<in> located (append_to b k M)" "(q, C) \<in> located (append_to b k M)" "bid B = bid C"
    then obtain B0 C0 where l: "(p, B0) \<in> located M" "(q, C0) \<in> located M" "B = appended b k M B0" "C = appended b k M C0"
      unfolding located_append by blast
    then have "bid B0 = bid C0" using \<open>bid B = bid C\<close> g [of B0] g [of C0] by simp
    from uniqD [OF assms l(1,2) this] l(3,4) show "p = q \<and> B = C" by simp
  qed
  show "mod_block (append_to b k M) x = mod_block M x" if "x \<noteq> b"
  proof (rule mod_block_same [OF u assms])
    fix p B assume "(p, B) \<in> located (append_to b k M)" "bid B = x"
    then obtain B0 where "(p, B0) \<in> located M" "B = appended b k M B0" unfolding located_append by blast
    then show "\<exists>q. (q, B) \<in> located M" using \<open>bid B = x\<close> that by (cases "bid B0 = b") auto
  next
    fix p B assume "(p, B) \<in> located M" "bid B = x"
    moreover from this that have "appended b k M B = B" by simp
    ultimately show "\<exists>q. (q, B) \<in> located (append_to b k M)" unfolding located_append by metis
  qed
  show "mod_block M b = Inr B \<Longrightarrow> mod_block (append_to b k M) b = Inr (B\<lparr>bins := bins B @ [mk_ins (new_iid M) k]\<rparr>)"
    unfolding mod_block_iff [OF u] mod_block_iff [OF assms] located_append by force
qed

section \<open>Regions\<close>

text \<open>The branches of the module, and what is reachable from a block.\<close>

definition branches :: "lmodule \<Rightarrow> nat \<Rightarrow> nat \<Rightarrow> bool" where
  "branches M x y \<longleftrightarrow> (\<exists>ss. succs_of M x = Inr ss \<and> y \<in> set ss)"

definition region :: "lmodule \<Rightarrow> nat \<Rightarrow> nat set" where
  "region M b = {y. (branches M)\<^sup>*\<^sup>* b y}"

lemma region_self [simp]: "b \<in> region M b"
  by (simp add: region_def)

lemma region_closed: "x \<in> region M b \<Longrightarrow> branches M x y \<Longrightarrow> y \<in> region M b"
  by (auto simp: region_def intro: rtranclp.rtrancl_into_rtrancl)

lemma region_least: "b \<in> S \<Longrightarrow> (\<And>x y. x \<in> S \<Longrightarrow> branches M x y \<Longrightarrow> y \<in> S) \<Longrightarrow> region M b \<subseteq> S"
proof
  fix y assume s: "b \<in> S" "\<And>x y. x \<in> S \<Longrightarrow> branches M x y \<Longrightarrow> y \<in> S" and "y \<in> region M b"
  from this(3) have "(branches M)\<^sup>*\<^sup>* b y" by (simp add: region_def)
  then show "y \<in> S" by (induction rule: rtranclp_induct) (use s in auto)
qed

lemma region_succ: "succs_of M b = Inr ss \<Longrightarrow> y \<in> set ss \<Longrightarrow> region M y \<subseteq> region M b"
  by (intro region_least) (auto intro: region_closed simp: branches_def intro: region_closed [OF region_self])

text \<open>\<open>visit_all\<close> adds what is reachable from the list and needs a terminator on every block it adds.\<close>

lemma visit_all_sound:
  "visit_all M bs V = Inr W \<Longrightarrow> V \<union> set bs \<subseteq> W \<and> W \<subseteq> V \<union> (\<Union>b \<in> set bs. region M b)
     \<and> (\<forall>x \<in> W - V. \<exists>ss. succs_of M x = Inr ss \<and> set ss \<subseteq> W)"
proof (induction M bs V rule: visit_all.induct)
  case (2 M head blockList visited)
  show ?case
  proof (cases "head \<in> visited")
    case True
    with 2 show ?thesis by auto
  next
    case False
    with 2(3) obtain ss where ss: "succs_of M head = Inr ss" "visit_all M (blockList @ ss) (insert head visited) = Inr W"
      by (auto simp: rbind_eq_Inr)
    note ih = 2(2) [OF False ss, THEN conjunct1] 2(2) [OF False ss, THEN conjunct2, THEN conjunct1]
      2(2) [OF False ss, THEN conjunct2, THEN conjunct2]
    have "visited \<union> set (head # blockList) \<subseteq> W" using ih(1) by simp
    moreover have "W \<subseteq> visited \<union> (\<Union>b \<in> set (head # blockList). region M b)"
    proof
      fix x assume "x \<in> W"
      with ih(2) consider "x = head" | "x \<in> visited" | b where "b \<in> set blockList" "x \<in> region M b"
        | b where "b \<in> set ss" "x \<in> region M b" by auto
      then show "x \<in> visited \<union> (\<Union>b \<in> set (head # blockList). region M b)"
        by cases (use region_succ [OF ss(1)] in auto)
    qed
    moreover have "\<forall>x \<in> W - visited. \<exists>ss. succs_of M x = Inr ss \<and> set ss \<subseteq> W"
      using ih(1,3) ss(1) by auto
    ultimately show ?thesis by blast
  qed
qed simp

lemma visit_all_region: "visit_all M [b] {} = Inr W \<Longrightarrow> W = region M b"
proof
  assume v: "visit_all M [b] {} = Inr W"
  from visit_all_sound [OF this] show "W \<subseteq> region M b" by simp
  have "y \<in> W" if "x \<in> W" "branches M x y" for x y
    using visit_all_sound [OF v] that by (fastforce simp: branches_def)
  then show "region M b \<subseteq> W" using visit_all_sound [OF v] by (intro region_least) auto
qed

lemma visit_all_fault:
  "visit_all M bs V = Inl e \<Longrightarrow> \<exists>b \<in> set bs. \<exists>x \<in> region M b. succs_of M x = Inl e"
proof (induction M bs V rule: visit_all.induct)
  case (2 M head blockList visited)
  show ?case
  proof (cases "head \<in> visited")
    case True
    with 2 show ?thesis by auto
  next
    case False
    show ?thesis
    proof (cases "succs_of M head")
      case (Inl e')
      with 2(3) False show ?thesis by (auto intro: bexI [of _ head])
    next
      case (Inr ss)
      with 2(3) False have "visit_all M (blockList @ ss) (insert head visited) = Inl e" by simp
      from 2(2) [OF False Inr this] obtain b x where b: "b \<in> set (blockList @ ss)" "x \<in> region M b" "succs_of M x = Inl e" by blast
      with region_succ [OF Inr, of b] show ?thesis by auto
    qed
  qed
qed simp

lemma validateMove_spec:
  "validateMove M b = Inr ok \<Longrightarrow> ok \<longleftrightarrow> (\<forall>y \<in> region M b. \<forall>u \<in> set (uses_of M y). fst u \<in> region M b)"
  unfolding validateMove_def rbind_eq_Inr list_all_iff by (auto dest!: visit_all_region simp del: visit_all.simps)

lemma validateMove_total:
  "(\<exists>ok. validateMove M b = Inr ok) \<longleftrightarrow> (\<forall>x \<in> region M b. \<exists>ss. succs_of M x = Inr ss)"
proof (cases "visit_all M [b] {}")
  case (Inl e)
  then show ?thesis using visit_all_fault [OF Inl] by (fastforce simp: validateMove_def)
next
  case (Inr W)
  from visit_all_sound [OF Inr] visit_all_region [OF Inr] Inr show ?thesis
    by (fastforce simp: validateMove_def)
qed

text \<open>A branch is a use of its target.\<close>

lemma branch_is_use: "branches M x y \<Longrightarrow> \<exists>n. (x, n) \<in> set (uses_of M y)"
proof -
  assume "branches M x y"
  then obtain B t where B: "mod_block M x = Inr B" "terminator B = Some t" "y \<in> set (succ_ids (ikind t))"
    by (auto simp: branches_def succs_of_def term_of_def rbind_eq_Inr split: option.splits)
  have "B \<in> set (all_blocks M)" "bid B = x" using B(1) by (auto simp: mod_block_def dest: find_mem split: option.splits)
  moreover have "t \<in> set (bins B)" using B(2) by (auto simp: terminator_def split: if_splits)
  moreover have "count_list (succ_ids (ikind t)) y \<noteq> 0" using B(3) by (simp add: count_list_0_iff)
  ultimately show ?thesis by (fastforce simp: uses_of_def)
qed

text \<open>An accepted region is entered only from itself.\<close>

lemma validated_entered: "validateMove M b = Inr True \<Longrightarrow> branches M x y \<Longrightarrow> y \<in> region M b \<Longrightarrow> x \<in> region M b"
  using validateMove_spec [of M b True] branch_is_use [of M x y] by force

section \<open>Moving a region\<close>

text \<open>The entry block of a function stays its entry.\<close>

definition entry_of :: "lmodule \<Rightarrow> nat \<Rightarrow> nat option" where
  "entry_of M p = (case mod_func M p of Inl e \<Rightarrow> None
     | Inr f \<Rightarrow> (case fblocks f of [] \<Rightarrow> None | E # _ \<Rightarrow> Some (bid E)))"

lemma entry_of_iff: "entry_of M p = Some e \<longleftrightarrow> (\<exists>f E rest. mod_func M p = Inr f \<and> fblocks f = E # rest \<and> bid E = e)"
  by (auto simp: entry_of_def split: sum.splits list.splits)

lemma mod_func_map:
  assumes "mfuncs N = map h (mfuncs M)" and "\<And>f. fid (h f) = fid f" and "mod_func M p = Inr f"
  shows "mod_func N p = Inr (h f)"
proof -
  have "find (\<lambda>f. fid f = p) (mfuncs M) = Some f" using assms(3) by (auto simp: mod_func_def split: option.splits)
  then have "find (\<lambda>f. fid f = p) (mfuncs N) = Some (h f)" by (simp add: assms(1,2) find_map comp_def)
  then show ?thesis by (simp add: mod_func_def)
qed

lemma entry_parent:
  assumes "uniq M" and "mod_func M p = Inr f" and "C \<in> set (fblocks f)"
  shows "parent_of M (bid C) = Some p"
proof -
  have "f \<in> set (mfuncs M)" "fid f = p" using assms(2) by (auto simp: mod_func_def dest: find_mem split: option.splits)
  then show ?thesis using assms(3) by (auto simp: parent_of_iff [OF assms(1)] located_iff)
qed

lemma entry_append: "entry_of M p = Some e \<Longrightarrow> entry_of (append_to b k M) p = Some e"
proof -
  assume "entry_of M p = Some e"
  then obtain f E rest where f: "mod_func M p = Inr f" "fblocks f = E # rest" "bid E = e" by (auto simp: entry_of_iff)
  have "mod_func (append_to b k M) p = Inr (map_blocks (appended b k M) f)"
    by (rule mod_func_map [OF _ _ f(1)]) (simp_all add: append_to_def map_mod_def map_blocks_def)
  then show ?thesis using f(2,3) by (simp add: entry_of_iff map_blocks_def)
qed

lemma entry_move:
  assumes "move_after b pos p M = Inr M'" and "entry_of M p = Some e" and "e \<noteq> b"
  shows "entry_of M' p = Some e"
proof -
  obtain B where M': "M' = in_func p (\<lambda>f. f\<lparr>fblocks := put_after pos B (fblocks f)\<rparr>) (remove_block b M)"
    using assms(1) by (auto simp: move_after_def rbind_eq_Inr)
  let ?h = "\<lambda>f. if fid f = p then f\<lparr>fblocks := put_after pos B (filter (\<lambda>B. bid B \<noteq> b) (fblocks f))\<rparr>
    else f\<lparr>fblocks := filter (\<lambda>B. bid B \<noteq> b) (fblocks f)\<rparr>"
  obtain f E rest where f: "mod_func M p = Inr f" "fblocks f = E # rest" "bid E = e"
    using assms(2) by (auto simp: entry_of_iff)
  have "fid f = p" using f(1) by (auto simp: mod_func_def dest: find_mem split: option.splits)
  moreover have "mod_func M' p = Inr (?h f)"
    by (rule mod_func_map [OF _ _ f(1)]) (simp_all add: M' in_func_def remove_block_def comp_def)
  ultimately show ?thesis using f(2,3) assms(3) by (auto simp: entry_of_iff)
qed

text \<open>One block: only its function changes, and perhaps the end of the entry block.\<close>

lemma moved_step:
  assumes "moveBasicBlockToNewFunction b p M = Inr M'" and "uniq M" and "parent_of M b \<noteq> Some p"
  obtains e where "entry_of M p = Some e" "parent_of M e = Some p" "entry_of M' p = Some e" "uniq M'"
    "\<And>x. parent_of M' x = (if x = b then Some p else parent_of M x)"
    "\<And>x. x \<noteq> e \<Longrightarrow> mod_block M' x = mod_block M x"
    "\<And>y. branches M' e y \<Longrightarrow> branches M e y \<or> y = b"
proof (rule moved_cases [OF assms(1)])
  fix f E rest pos N
  assume f: "mod_func M p = Inr f" "fblocks f = E # rest" and m: "move_after b pos p N = Inr M'"
    and N: "N = M \<and> (pos = bid (last (fblocks f)) \<or> parent_of M pos = Some p)
      \<or> N = append_to (bid E) (Br b) M \<and> pos = bid E"
  note in_p = entry_parent [OF assms(2) f(1)]
  have E: "parent_of M (bid E) = Some p" using in_p [of E] f(2) by simp
  then have eb: "bid E \<noteq> b" using assms(3) by auto
  have "parent_of M (bid (last (fblocks f))) = Some p" using in_p [of "last (fblocks f)"] f(2) by simp
  then have pos: "parent_of M pos = Some p" using N E by auto
  then have pb: "pos \<noteq> b" using assms(3) by auto
  obtain B where B: "mod_block M (bid E) = Inr B"
    using E by (auto simp: parent_of_iff [OF assms(2)] mod_block_iff [OF assms(2)])
  have N': "uniq N" "parent_of N x = parent_of M x" "x \<noteq> bid E \<Longrightarrow> mod_block N x = mod_block M x"
    "mod_block N (bid E) = mod_block M (bid E) \<or> mod_block N (bid E) = Inr (B\<lparr>bins := bins B @ [mk_ins (new_iid M) (Br b)]\<rparr>)" for x
    using N assms(2) append_effect [OF assms(2)] B by auto
  note e = moved_effect [OF m N'(1) _ pb]
  have e1: "entry_of M p = Some (bid E)" using f by (simp add: entry_of_iff)
  then have eN: "entry_of N p = Some (bid E)" using N entry_append by auto
  show thesis
  proof (rule that [OF e1 E entry_move [OF m eN eb]])
    show "uniq M'" using e(1) N'(2) pos by simp
    show "parent_of M' x = (if x = b then Some p else parent_of M x)" for x using e(3) N'(2) pos by simp
    show "mod_block M' x = mod_block M x" if "x \<noteq> bid E" for x using e(2) [of x] N'(2,3) pos that by simp
    show "branches M (bid E) y \<or> y = b" if "branches M' (bid E) y" for y
      using N'(4) that e(2) [of "bid E"] N'(2) pos
      by (auto simp: branches_def succs_of_def term_of_def terminator_def)
  qed
qed

definition local_branches :: "lmodule \<Rightarrow> bool" where
  "local_branches M \<longleftrightarrow> (\<forall>x y. branches M x y \<longrightarrow> parent_of M x = parent_of M y)"

definition moving :: "lmodule \<Rightarrow> nat \<Rightarrow> nat set \<Rightarrow> nat \<Rightarrow> nat list \<Rightarrow> lmodule \<Rightarrow> bool" where
  "moving M0 p R e stack M \<longleftrightarrow> uniq M \<and> entry_of M p = Some e
     \<and> (\<forall>x. x \<noteq> e \<longrightarrow> mod_block M x = mod_block M0 x) \<and> (\<forall>y. branches M e y \<longrightarrow> branches M0 e y \<or> y \<in> R)
     \<and> (\<forall>x. x \<notin> R \<longrightarrow> parent_of M x = parent_of M0 x) \<and> set stack \<subseteq> R
     \<and> (\<forall>x \<in> R. \<forall>y. parent_of M x = Some p \<longrightarrow> branches M0 x y \<longrightarrow> y \<in> set stack \<or> parent_of M y = Some p)"

lemma branches_same: "mod_block M x = mod_block N x \<Longrightarrow> branches M x y = branches N x y"
  by (simp add: branches_def succs_of_def term_of_def)

lemma moving_step:
  assumes inv: "moving M0 p R e (b # stack) M" and out: "parent_of M b \<noteq> Some p" and e: "e \<notin> R"
    and m: "moveBasicBlockToNewFunction b p M = Inr M'" and ss: "succs_of M' b = Inr ss"
    and closed: "\<And>x y. x \<in> R \<Longrightarrow> branches M0 x y \<Longrightarrow> y \<in> R"
  shows "moving M0 p R e (ss @ stack) M'"
proof -
  have i: "uniq M" "entry_of M p = Some e" "\<And>x. x \<noteq> e \<Longrightarrow> mod_block M x = mod_block M0 x"
    "\<And>y. branches M e y \<Longrightarrow> branches M0 e y \<or> y \<in> R" "\<And>x. x \<notin> R \<Longrightarrow> parent_of M x = parent_of M0 x"
    "b \<in> R" "set stack \<subseteq> R"
    "\<And>x y. x \<in> R \<Longrightarrow> parent_of M x = Some p \<Longrightarrow> branches M0 x y \<Longrightarrow> y \<in> insert b (set stack) \<or> parent_of M y = Some p"
    using inv by (auto simp: moving_def)
  obtain e' where e': "entry_of M p = Some e'" "parent_of M e' = Some p" "entry_of M' p = Some e'" "uniq M'"
    "\<And>x. parent_of M' x = (if x = b then Some p else parent_of M x)"
    "\<And>x. x \<noteq> e' \<Longrightarrow> mod_block M' x = mod_block M x"
    "\<And>y. branches M' e' y \<Longrightarrow> branches M e' y \<or> y = b"
    using moved_step [OF m i(1) out] by metis
  have same: "e' = e" using e'(1) i(2) by simp
  have b: "mod_block M' b = mod_block M0 b" using e'(6) i(3,6) e same by metis
  then have ssb: "y \<in> set ss \<longleftrightarrow> branches M0 b y" for y
    using ss branches_same [OF b] by (auto simp: branches_def)
  have "y \<in> set (ss @ stack) \<or> parent_of M' y = Some p" if "x \<in> R" "parent_of M' x = Some p" "branches M0 x y" for x y
    using i(8) [of x y] that ssb e'(5) by (cases "x = b") auto
  moreover have "set ss \<subseteq> R" using ssb closed i(6) by blast
  moreover have "branches M0 e y \<or> y \<in> R" if "branches M' e y" for y using e'(7) i(4,6) same that by auto
  moreover have "mod_block M' x = mod_block M0 x" if "x \<noteq> e" for x using e'(6) i(3) same that by metis
  moreover have "parent_of M' x = parent_of M0 x" if "x \<notin> R" for x using e'(5) i(5,6) that by auto
  moreover have "set (ss @ stack) \<subseteq> R" using \<open>set ss \<subseteq> R\<close> i(7) by simp
  ultimately show ?thesis using e'(3,4) same unfolding moving_def by blast
qed

lemma moving_stack:
  assumes "move_stack p stack M = Inr M'" and "moving M0 p R e stack M" and "e \<notin> R"
    and "\<And>x y. x \<in> R \<Longrightarrow> branches M0 x y \<Longrightarrow> y \<in> R"
  shows "moving M0 p R e [] M' \<and> (\<forall>x. x \<in> set stack \<or> parent_of M x = Some p \<longrightarrow> parent_of M' x = Some p)"
  using assms(1,2)
proof (induction p stack M rule: move_stack.induct)
  case (2 p block stack M)
  show ?case
  proof (cases "parent_of M block = Some p")
    case True
    then have "moving M0 p R e stack M" using 2(4) by (auto simp: moving_def)
    with 2(1) [OF True] 2(3) True show ?thesis by auto
  next
    case False
    with 2(3) obtain M1 ss where m: "moveBasicBlockToNewFunction block p M = Inr M1" "succs_of M1 block = Inr ss"
      "move_stack p (ss @ stack) M1 = Inr M'"
      by (auto simp: rbind_eq_Inr)
    have u: "uniq M" using 2(4) by (simp add: moving_def)
    have par: "parent_of M1 x = (if x = block then Some p else parent_of M x)" for x
      using moved_step [OF m(1) u False] by metis
    have "moving M0 p R e (ss @ stack) M1"
      using moving_step [OF 2(4) False assms(3) m(1,2)] assms(4) by blast
    from 2(2) [OF False m(1,2,3) this] par show ?thesis by auto
  qed
qed (simp add: moving_def)

text \<open>A region that is entered only from itself can go to another function without a branch left behind.\<close>

lemma moved_region:
  assumes "uniq M" "local_branches M" and v: "\<And>x y. branches M x y \<Longrightarrow> y \<in> region M head \<Longrightarrow> x \<in> region M head"
    and m: "moveBasicBlocksToNewFunction head p M = Inr M'"
  shows "uniq M'" "local_branches M'" "parent_of M' x = (if x \<in> region M head then Some p else parent_of M x)"
    "entry_of M p \<noteq> Some x \<Longrightarrow> mod_block M' x = mod_block M x"
proof -
  have inside: "parent_of M y = parent_of M head" if "y \<in> region M head" for y
  proof -
    have "region M head \<subseteq> {y. parent_of M y = parent_of M head}"
    proof (rule region_least)
      fix x y assume "x \<in> {y. parent_of M y = parent_of M head}" "branches M x y"
      moreover from this(2) assms(2) have "parent_of M x = parent_of M y" unfolding local_branches_def by blast
      ultimately show "y \<in> {y. parent_of M y = parent_of M head}" by simp
    qed simp
    with that show ?thesis by blast
  qed
  have "uniq M' \<and> local_branches M' \<and> (\<forall>x. parent_of M' x = (if x \<in> region M head then Some p else parent_of M x))
    \<and> (\<forall>x. entry_of M p \<noteq> Some x \<longrightarrow> mod_block M' x = mod_block M x)"
  proof (cases "parent_of M head = Some p")
    case True
    then have "M' = M" using m by (simp add: moveBasicBlocksToNewFunction_def)
    moreover have "parent_of M x = Some p" if "x \<in> region M head" for x using inside [OF that] True by simp
    ultimately show ?thesis using assms(1,2) by simp
  next
    case False
    obtain M1 where "moveBasicBlockToNewFunction head p M = Inr M1"
      using m False by (auto simp: moveBasicBlocksToNewFunction_def rbind_eq_Inr)
    from moved_step [OF this assms(1) False] obtain e where e: "entry_of M p = Some e" "parent_of M e = Some p" by metis
    have not_p: "parent_of M y \<noteq> Some p" if "y \<in> region M head" for y using inside [OF that] False by simp
    then have out: "e \<notin> region M head" using e(2) by blast
    have "moving M p (region M head) e [head] M"
      unfolding moving_def using assms(1) e(1) not_p by simp
    from moving_stack [OF m [unfolded moveBasicBlocksToNewFunction_def] this out region_closed]
    have mv: "moving M p (region M head) e [] M'" and h: "parent_of M' head = Some p" by simp_all
    have all: "parent_of M' y = Some p" if "y \<in> region M head" for y
    proof -
      have "region M head \<subseteq> {y \<in> region M head. parent_of M' y = Some p}"
        using h mv region_closed by (intro region_least) (auto simp: moving_def)
      with that show ?thesis by blast
    qed
    have e': "parent_of M' e = Some p" using mv out e(2) by (simp add: moving_def)
    have "parent_of M' x = parent_of M' y" if "branches M' x y" for x y
    proof (cases "x = e")
      case True
      then have "y \<in> region M head \<or> branches M e y" using that mv by (auto simp: moving_def)
      then show ?thesis using True e' all [of y] assms(2) e(2) mv
        by (cases "y \<in> region M head") (auto simp: moving_def local_branches_def)
    next
      case False
      then have b: "branches M x y" using that mv branches_same [of M' x M y] by (simp add: moving_def)
      then have "x \<in> region M head \<longleftrightarrow> y \<in> region M head" using v region_closed by blast
      then show ?thesis using b all mv assms(2) by (cases "x \<in> region M head") (simp_all add: moving_def local_branches_def)
    qed
    then show ?thesis using mv all e(1) by (auto simp: moving_def local_branches_def)
  qed
  then show "uniq M'" "local_branches M'" "parent_of M' x = (if x \<in> region M head then Some p else parent_of M x)"
    "entry_of M p \<noteq> Some x \<Longrightarrow> mod_block M' x = mod_block M x" by simp_all
qed

section \<open>Properties\<close>

text \<open>Two blocks that form a loop, and a new function for them.\<close>

definition loop_module :: lmodule where
  "loop_module = \<lparr>mfuncs =
     [\<lparr>fid = 0, fname = ''Function_4096'', fblocks =
        [\<lparr>bid = 0, bname = ''entry'', bins = [mk_ins 0 false_ret]\<rparr>,
         \<lparr>bid = 1, bname = ''BB_8192'', bins = [mk_ins 1 (Br 2)]\<rparr>,
         \<lparr>bid = 2, bname = ''Trans_8192'', bins = [mk_ins 2 (Br 1)]\<rparr>]\<rparr>,
      \<lparr>fid = 1, fname = ''Function_8192'', fblocks = [\<lparr>bid = 3, bname = ''entry'', bins = []\<rparr>]\<rparr>], mglobals = []\<rparr>"

lemmas block_simps = mod_block_def all_blocks_def succs_of_def term_of_def terminator_def

lemma loop_module_ok: "uniq loop_module" "local_branches loop_module"
  by (auto simp: uniq_def located_def loop_module_def)
    (auto simp: local_branches_def branches_def block_simps parent_of_def loop_module_def split: if_splits)

lemma loop_validate: "validateMove loop_module 1 = Inr True"
  by (simp add: validateMove_def loop_module_def block_simps uses_of_def)

definition moved_blocks :: "lmodule res \<Rightarrow> nat list list" where
  "moved_blocks r = (case r of Inl _ \<Rightarrow> [] | Inr M \<Rightarrow> map (\<lambda>f. map bid (fblocks f)) (mfuncs M))"

lemma loop_moves: "moved_blocks (moveBasicBlocksToNewFunction 1 1 loop_module) = [[0], [3, 1, 2]]"
  by code_simp

text \<open>
  C23. \<open>validateMove\<close> returns exactly when every block reachable from the block has a terminator, and it says yes
  exactly when each use of a reachable block is in a reachable block.
\<close>

theorem validateMove_decides:
  "validateMove M b = Inr ok \<longleftrightarrow> (\<forall>x \<in> region M b. \<exists>ss. succs_of M x = Inr ss)
     \<and> ok = (\<forall>y \<in> region M b. \<forall>u \<in> set (uses_of M y). fst u \<in> region M b)"
proof
  assume "validateMove M b = Inr ok"
  with validateMove_total [of M b] validateMove_spec [OF this] show "(\<forall>x \<in> region M b. \<exists>ss. succs_of M x = Inr ss)
     \<and> ok = (\<forall>y \<in> region M b. \<forall>u \<in> set (uses_of M y). fst u \<in> region M b)" by blast
next
  assume r: "(\<forall>x \<in> region M b. \<exists>ss. succs_of M x = Inr ss)
     \<and> ok = (\<forall>y \<in> region M b. \<forall>u \<in> set (uses_of M y). fst u \<in> region M b)"
  then obtain ok' where "validateMove M b = Inr ok'" using validateMove_total [of M b] by blast
  with validateMove_spec [OF this] r show "validateMove M b = Inr ok" by simp
qed

theorem validateMove_decides_witness:
  "validateMove loop_module 1 = Inr True \<and> fst ` set (uses_of loop_module 1) \<subseteq> region loop_module 1"
  using loop_validate validateMove_decides [of loop_module 1 True] by auto

text \<open>
  C22. A region that \<open>validateMove\<close> accepts is moved whole, and only it: every block of the region is in the new
  function and every other block where it was, blocks keep what they hold except for the end of the entry block of
  the new function, and no branch leads from one function into another when none did before.
\<close>

theorem region_moves_whole:
  assumes "uniq M" and "local_branches M" and "validateMove M head = Inr True"
    and "moveBasicBlocksToNewFunction head parent M = Inr M'"
  shows "uniq M' \<and> local_branches M' \<and> (\<forall>x. parent_of M' x = (if x \<in> region M head then Some parent else parent_of M x))
    \<and> (\<forall>x. entry_of M parent = Some x \<or> mod_block M' x = mod_block M x)"
  using moved_region [OF assms(1,2) _ assms(4)] validated_entered [OF assms(3)] by blast

theorem region_moves_whole_witness:
  "case moveBasicBlocksToNewFunction 1 1 loop_module of Inl _ \<Rightarrow> False
    | Inr M' \<Rightarrow> local_branches M' \<and> parent_of M' 1 = Some 1"
proof (cases "moveBasicBlocksToNewFunction 1 1 loop_module")
  case (Inl e)
  then show ?thesis using loop_moves by (simp add: moved_blocks_def)
next
  case (Inr M')
  from region_moves_whole [OF loop_module_ok loop_validate Inr] Inr show ?thesis by simp
qed

end
