(* ===== verification/Graph_Edits.thy ===== *)
theory Graph_Edits
  imports Extract_Moves "HOL-Library.Multiset"
begin

text \<open>
  Edits of a module graph: what appending, inserting and erasing an instruction, adding, moving and erasing a block
  do to the addresses in use, to the function each block is in and to the branches.
\<close>

section \<open>Distinct addresses\<close>

definition wf_built :: "lmodule \<Rightarrow> bool" where
  "wf_built M \<longleftrightarrow> distinct (map bid (all_blocks M)) \<and> distinct (map fid (mfuncs M)) \<and> distinct (mod_ids M)"

abbreviation ids_of :: "bblock \<Rightarrow> nat list" where
  "ids_of B \<equiv> map iid (bins B)"

lemma mod_ids_blocks: "mod_ids M = concat (map ids_of (all_blocks M))"
proof -
  have "concat (map ins_ids fs) = concat (map ids_of (concat (map fblocks fs)))" for fs
    by (induction fs) (simp_all add: ins_ids_def func_ins_def map_concat comp_def)
  then show ?thesis by (simp add: mod_ids_def all_blocks_def)
qed

lemma distinct_concat_place:
  "distinct (concat (map fblocks fs)) \<Longrightarrow> f \<in> set fs \<Longrightarrow> g \<in> set fs \<Longrightarrow> B \<in> set (fblocks f) \<Longrightarrow> B \<in> set (fblocks g) \<Longrightarrow> f = g"
  by (induction fs) auto

lemma wf_uniq: "wf_built M \<Longrightarrow> uniq M"
  unfolding uniq_def
proof (intro allI impI)
  fix p B q C
  assume w: "wf_built M" and l: "(p, B) \<in> located M" "(q, C) \<in> located M" "bid B = bid C"
  have "B \<in> set (all_blocks M)" "C \<in> set (all_blocks M)" using l by (force simp: all_blocks_located)+
  then have e: "B = C" using w l(3) by (auto simp: wf_built_def distinct_map dest: inj_onD)
  moreover have "p = q" using l(1,2) distinct_concat_place [of "mfuncs M"] w e
    by (fastforce simp: located_iff wf_built_def all_blocks_def distinct_map)
  ultimately show "p = q \<and> B = C" by simp
qed

text \<open>One fresh address in at most one block.\<close>

lemma distinct_one_more:
  assumes "distinct (concat (map ids_of Bs))" and "n \<notin> set (concat (map ids_of Bs))" and "distinct (map bid Bs)"
    and "\<And>B. B \<in> set Bs \<Longrightarrow> distinct (h B) \<and> set (h B) \<subseteq> insert n (set (ids_of B)) \<and> (n \<in> set (h B) \<longrightarrow> bid B = b)"
  shows "distinct (concat (map h Bs))"
  using assms
proof (induction Bs)
  case (Cons C Cs)
  have "distinct (concat (map h Cs))" using Cons by simp
  moreover have "set (h C) \<inter> set (concat (map h Cs)) = {}"
  proof (rule ccontr)
    assume "set (h C) \<inter> set (concat (map h Cs)) \<noteq> {}"
    then obtain x D where x: "x \<in> set (h C)" "D \<in> set Cs" "x \<in> set (h D)" by auto
    have "bid D \<noteq> bid C" using Cons.prems(3) imageI [OF x(2), of bid] by auto
    then have "x \<noteq> n" using x Cons.prems(4) [of C] Cons.prems(4) [of D] by auto
    then have "x \<in> set (ids_of C)" "x \<in> set (ids_of D)" using x Cons.prems(4) [of C] Cons.prems(4) [of D] by auto
    then show False using Cons.prems(1) x(2) by auto
  qed
  ultimately show ?case using Cons.prems(4) [of C] by simp
qed simp

lemma new_iid_fresh: "new_iid M \<notin> set (mod_ids M)"
  using le_fold_max [of _ "mod_ids M"] by (fastforce simp: new_iid_def)

lemma new_bid_fresh: "new_bid M \<notin> bid ` set (all_blocks M)"
  using le_fold_max [of _ "map bid (all_blocks M)"] by (fastforce simp: new_bid_def)

section \<open>Edits inside blocks\<close>

lemma all_blocks_map_mod: "all_blocks (map_mod g M) = map g (all_blocks M)"
  by (simp add: all_blocks_def map_mod_def map_blocks_def map_concat comp_def)

lemma fids_map_mod [simp]: "map fid (mfuncs (map_mod g M)) = map fid (mfuncs M)"
  by (simp add: map_mod_def map_blocks_def comp_def)

lemma mod_block_map_mod:
  "(\<And>B. bid (g B) = bid B) \<Longrightarrow> mod_block (map_mod g M) x = rbind (mod_block M x) (\<lambda>B. Inr (g B))"
  by (simp add: mod_block_def all_blocks_map_mod find_map comp_def split: option.splits)

lemma wf_map_mod:
  assumes "wf_built M" and "\<And>B. bid (g B) = bid B" and "n \<notin> set (mod_ids M)"
    and "\<And>B. B \<in> set (all_blocks M) \<Longrightarrow>
      distinct (ids_of (g B)) \<and> set (ids_of (g B)) \<subseteq> insert n (set (ids_of B)) \<and> (n \<in> set (ids_of (g B)) \<longrightarrow> bid B = b)"
  shows "wf_built (map_mod g M)"
proof -
  have "distinct (concat (map (\<lambda>B. ids_of (g B)) (all_blocks M)))"
  proof (rule distinct_one_more [where n = n and b = b])
    show "distinct (concat (map ids_of (all_blocks M)))" "distinct (map bid (all_blocks M))"
      using assms(1) by (simp_all only: wf_built_def mod_ids_blocks)
    show "n \<notin> set (concat (map ids_of (all_blocks M)))" using assms(3) by (simp only: mod_ids_blocks not_False_eq_True)
  qed (rule assms(4))
  moreover have "map bid (all_blocks (map_mod g M)) = map bid (all_blocks M)"
    by (simp add: all_blocks_map_mod assms(2))
  moreover have "mod_ids (map_mod g M) = concat (map (\<lambda>B. ids_of (g B)) (all_blocks M))"
    by (simp add: mod_ids_blocks all_blocks_map_mod comp_def)
  ultimately show ?thesis using assms(1) by (simp only: wf_built_def fids_map_mod)
qed

lemma wf_block_ids: "wf_built M \<Longrightarrow> B \<in> set (all_blocks M) \<Longrightarrow> distinct (ids_of B)"
  unfolding wf_built_def mod_ids_blocks by (auto simp: distinct_concat_iff)

lemma block_ids: "B \<in> set (all_blocks M) \<Longrightarrow> set (ids_of B) \<subseteq> set (mod_ids M)"
  unfolding mod_ids_blocks by auto

lemma new_iid_block: "B \<in> set (all_blocks M) \<Longrightarrow> new_iid M \<notin> set (ids_of B)"
  using new_iid_fresh block_ids by blast

lemma wf_append:
  assumes "wf_built M"
  shows "wf_built (append_to b k M)"
  unfolding append_to_def
proof (rule wf_map_mod [OF assms _ new_iid_fresh])
  fix B assume "B \<in> set (all_blocks M)"
  then show "distinct (ids_of (appended b k M B)) \<and> set (ids_of (appended b k M B)) \<subseteq> insert (new_iid M) (set (ids_of B))
      \<and> (new_iid M \<in> set (ids_of (appended b k M B)) \<longrightarrow> bid B = b)"
    using wf_block_ids [OF assms] new_iid_block by auto
qed simp

lemma put_before_ids: "set (map iid (put_before n new is)) = set (map iid is) \<union> (if n \<in> set (map iid is) then {iid new} else {})"
  by (induction "is") auto

lemma put_before_distinct:
  "distinct (map iid is) \<Longrightarrow> iid new \<notin> set (map iid is) \<Longrightarrow> distinct (map iid (put_before n new is))"
  by (induction "is") (use put_before_ids in auto)

lemma id_in_one_block:
  assumes "wf_built M"
  shows "\<exists>b. \<forall>B \<in> set (all_blocks M). n \<in> set (ids_of B) \<longrightarrow> bid B = b"
proof (cases "\<exists>C \<in> set (all_blocks M). n \<in> set (ids_of C)")
  case True
  then obtain C i where C: "C \<in> set (all_blocks M)" "i \<in> set (bins C)" "iid i = n" by auto
  have "B = C" if "B \<in> set (all_blocks M)" "n \<in> set (ids_of B)" for B
    using that same_id_same_place [OF _ C(1,2), of B] C(3) assms by (auto simp: wf_built_def mod_ids_blocks)
  then show ?thesis by blast
qed blast

lemma wf_insert:
  assumes "wf_built M"
  shows "wf_built (insert_before n k M)"
proof -
  obtain b where b: "\<forall>B \<in> set (all_blocks M). n \<in> set (ids_of B) \<longrightarrow> bid B = b" using id_in_one_block [OF assms] by blast
  let ?new = "mk_ins (new_iid M) k"
  let ?g = "\<lambda>B. B\<lparr>bins := put_before n ?new (bins B)\<rparr>"
  show ?thesis
    unfolding insert_before_def
  proof (rule wf_map_mod [OF assms _ new_iid_fresh])
    fix B assume B: "B \<in> set (all_blocks M)"
    show "distinct (ids_of (?g B)) \<and> set (ids_of (?g B)) \<subseteq> insert (new_iid M) (set (ids_of B))
      \<and> (new_iid M \<in> set (ids_of (?g B)) \<longrightarrow> bid B = b)"
      using put_before_ids [of n ?new "bins B"] put_before_distinct [of "bins B" ?new n]
        wf_block_ids [OF assms B] new_iid_block [OF B] b B by auto
  qed simp
qed

text \<open>\<open>eraseFromParent\<close> of an instruction, anywhere in the module.\<close>

abbreviation without :: "nat \<Rightarrow> bblock \<Rightarrow> bblock" where
  "without n B \<equiv> B\<lparr>bins := filter (\<lambda>i. iid i \<noteq> n) (bins B)\<rparr>"

lemma erase_ins_map: "erase_ins n M = Inr M' \<Longrightarrow> M' = map_mod (without n) M"
  by (auto simp: erase_ins_def map_mod_def drop_ids_def split: if_splits)

lemma ids_erase: "erase_ins n M = Inr M' \<Longrightarrow> mod_ids M' = filter (\<lambda>m. m \<noteq> n) (mod_ids M)"
  by (drule erase_ins_map) (simp add: mod_ids_blocks all_blocks_map_mod filter_concat filter_map comp_def)

lemma wf_erase:
  assumes "wf_built M" and "erase_ins n M = Inr M'"
  shows "wf_built M'"
proof -
  have M': "M' = map_mod (without n) M" using assms(2) by (rule erase_ins_map)
  note ids_erase [OF assms(2)]
  moreover have "map bid (all_blocks M') = map bid (all_blocks M)" by (simp add: M' all_blocks_map_mod)
  ultimately show ?thesis using assms(1) unfolding wf_built_def by (simp add: M')
qed

section \<open>Branches\<close>

lemma branches_iff: "branches M x y \<longleftrightarrow> (\<exists>B t. mod_block M x = Inr B \<and> terminator B = Some t \<and> y \<in> set (succ_ids (ikind t)))"
  by (cases "mod_block M x") (auto simp: branches_def succs_of_def term_of_def split: option.splits)

lemma mod_block_id: "mod_block M x = Inr B \<Longrightarrow> bid B = x \<and> B \<in> set (all_blocks M)"
  by (auto simp: mod_block_def dest: find_mem split: option.splits)

lemma branches_map_mod:
  "(\<And>B. bid (g B) = bid B) \<Longrightarrow>
   branches (map_mod g M) x y \<longleftrightarrow> (\<exists>B t. mod_block M x = Inr B \<and> terminator (g B) = Some t \<and> y \<in> set (succ_ids (ikind t)))"
  by (auto simp: branches_iff mod_block_map_mod rbind_eq_Inr)

lemma branches_append:
  assumes "branches (append_to b k M) x y"
  shows "branches M x y \<or> x = b \<and> y \<in> set (succ_ids k)"
proof -
  obtain B t where B: "mod_block M x = Inr B" "terminator (appended b k M B) = Some t" "y \<in> set (succ_ids (ikind t))"
    using assms unfolding append_to_def by (subst (asm) branches_map_mod) auto
  show ?thesis
  proof (cases "x = b")
    case True
    then show ?thesis using B mod_block_id [OF B(1)] by (auto simp: terminator_def split: if_splits)
  next
    case False
    then show ?thesis using B mod_block_id [OF B(1)] by (auto simp: branches_iff)
  qed
qed

lemma last_put_before: "is \<noteq> [] \<Longrightarrow> put_before n new is \<noteq> [] \<and> last (put_before n new is) = last is"
  by (induction "is") auto

lemma terminator_put_before: "terminator (B\<lparr>bins := put_before n new (bins B)\<rparr>) = terminator B"
  using last_put_before [of "bins B" n new] by (cases "bins B = []") (simp_all add: terminator_def)

lemma branches_insert [simp]: "branches (insert_before n k M) = branches M"
proof (intro ext)
  fix x y show "branches (insert_before n k M) x y = branches M x y"
    unfolding insert_before_def by (subst branches_map_mod) (simp_all add: terminator_put_before branches_iff)
qed

text \<open>A new terminator takes the place of the old one.\<close>

lemma put_and_erase:
  "distinct (map iid is) \<Longrightarrow> iid new \<noteq> n \<Longrightarrow>
   filter (\<lambda>i. iid i \<noteq> n) (put_before n new is) = map (\<lambda>i. if iid i = n then new else i) is"
proof (induction "is")
  case (Cons i "is")
  show ?case
  proof (cases "iid i = n")
    case True
    then have "n \<notin> iid ` set is" using Cons.prems(1) by simp
    then have "\<forall>j \<in> set is. iid j \<noteq> n" by blast
    with True Cons.prems(2) show ?thesis by (simp add: map_idI)
  qed (use Cons in auto)
qed simp

lemma replace_term_map:
  assumes "wf_built M" and "replace_term n k M = Inr M'"
  shows "mod_block M' x = rbind (mod_block M x) (\<lambda>B. Inr (B\<lparr>bins := map (\<lambda>i. if iid i = n then mk_ins (new_iid M) k else i) (bins B)\<rparr>))"
proof -
  let ?new = "mk_ins (new_iid M) k"
  have M': "M' = map_mod (without n) (insert_before n k M)" using assms(2) unfolding replace_term_def by (rule erase_ins_map)
  have "n \<in> set (mod_ids (insert_before n k M))" using assms(2) by (auto simp: replace_term_def erase_ins_def split: if_splits)
  then obtain C where C: "C \<in> set (all_blocks M)" "n \<in> set (ids_of (C\<lparr>bins := put_before n ?new (bins C)\<rparr>))"
    unfolding mod_ids_blocks insert_before_def all_blocks_map_mod by auto
  then have "n \<in> set (ids_of C)" using put_before_ids [of n ?new "bins C"] by (auto split: if_splits)
  then have nn: "new_iid M \<noteq> n" using new_iid_block [OF C(1)] by blast
  show ?thesis
  proof (cases "mod_block M x")
    case (Inr B)
    then have "B \<in> set (all_blocks M)" by (auto simp: mod_block_def dest: find_mem split: option.splits)
    from put_and_erase [OF wf_block_ids [OF assms(1) this], of ?new n] nn show ?thesis
      by (simp add: M' insert_before_def mod_block_map_mod Inr)
  qed (simp add: M' insert_before_def mod_block_map_mod)
qed

lemma replace_term_branches:
  assumes "wf_built M" and "replace_term n k M = Inr M'" and "branches M' x y"
  shows "branches M x y \<or> (\<exists>B. mod_block M x = Inr B \<and> n \<in> set (ids_of B)) \<and> y \<in> set (succ_ids k)"
proof -
  let ?g = "\<lambda>i. if iid i = n then mk_ins (new_iid M) k else i"
  obtain B t where B: "mod_block M x = Inr B" "terminator (B\<lparr>bins := map ?g (bins B)\<rparr>) = Some t" "y \<in> set (succ_ids (ikind t))"
    using assms(3) unfolding branches_iff replace_term_map [OF assms(1,2)] rbind_eq_Inr by auto
  then have ne: "bins B \<noteq> []" and t: "t = ?g (last (bins B))" "is_term_kind (ikind t)"
    by (auto simp: terminator_def last_map split: if_splits)
  have m: "last (bins B) \<in> set (bins B)" using ne by simp
  show ?thesis
  proof (cases "iid (last (bins B)) = n")
    case True
    then have "n \<in> set (ids_of B)" using m by force
    then show ?thesis using True t(1) B(1,3) by simp
  next
    case False
    then show ?thesis using t B(1,3) ne by (auto simp: branches_iff terminator_def)
  qed
qed

section \<open>Blocks that come and go\<close>

lemma fids_in_func [simp]: "(\<And>f. fid (h f) = fid f) \<Longrightarrow> map fid (mfuncs (in_func p h M)) = map fid (mfuncs M)"
  by (simp add: in_func_def)

lemma in_func_mset:
  assumes "distinct (map fid fs)" and "\<And>f. f \<in> set fs \<Longrightarrow> fid f = p \<Longrightarrow> mset (fblocks (h f)) = mset (fblocks f) + X"
  shows "mset (concat (map fblocks (map (\<lambda>f. if fid f = p then h f else f) fs)))
    = mset (concat (map fblocks fs)) + (if p \<in> fid ` set fs then X else {#})"
  using assms
proof (induction fs)
  case (Cons f fs)
  show ?case
  proof (cases "fid f = p")
    case True
    then have "p \<notin> fid ` set fs" using Cons.prems(1) by simp
    then show ?thesis using Cons True by auto
  qed (use Cons in auto)
qed simp

lemma all_blocks_in_func:
  assumes "distinct (map fid (mfuncs M))" and "p \<in> fid ` set (mfuncs M)"
    and "\<And>f. f \<in> set (mfuncs M) \<Longrightarrow> fid f = p \<Longrightarrow> mset (fblocks (h f)) = mset (fblocks f) + X"
  shows "mset (all_blocks (in_func p h M)) = mset (all_blocks M) + X"
proof -
  have "all_blocks (in_func p h M) = concat (map fblocks (map (\<lambda>f. if fid f = p then h f else f) (mfuncs M)))"
    unfolding all_blocks_def in_func_def by simp
  with in_func_mset [OF assms(1,3)] assms(2) show ?thesis by (simp only: all_blocks_def if_True)
qed

lemma add_blocks_mset:
  "distinct (map fid (mfuncs M)) \<Longrightarrow> p \<in> fid ` set (mfuncs M) \<Longrightarrow>
   mset (all_blocks (add_blocks p Bs M)) = mset (all_blocks M) + mset Bs"
  unfolding add_blocks_def by (rule all_blocks_in_func) simp_all

lemma mset_concat_cong: "mset xs = mset ys \<Longrightarrow> mset (concat xs) = mset (concat ys)"
  by (metis mset_concat mset_map sum_mset_sum_list)

lemma wf_built_mset:
  assumes "mset (all_blocks N) = mset (all_blocks M) + mset Bs" and "map fid (mfuncs N) = map fid (mfuncs M)" and "wf_built M"
    and "distinct (map bid Bs)" "distinct (concat (map ids_of Bs))"
    and "bid ` set Bs \<inter> bid ` set (all_blocks M) = {}" "set (concat (map ids_of Bs)) \<inter> set (mod_ids M) = {}"
  shows "wf_built N"
proof -
  have m: "mset (map g (all_blocks N)) = mset (map g (all_blocks M @ Bs))" for g :: "bblock \<Rightarrow> 'b"
    using assms(1) by simp
  have "distinct (map bid (all_blocks N)) \<longleftrightarrow> distinct (map bid (all_blocks M @ Bs))"
    using m by (rule mset_eq_imp_distinct_iff)
  moreover have "mset (concat (map ids_of (all_blocks N))) = mset (concat (map ids_of (all_blocks M @ Bs)))"
    using m by (rule mset_concat_cong)
  then have "distinct (mod_ids N) \<longleftrightarrow> distinct (concat (map ids_of (all_blocks M @ Bs)))"
    unfolding mod_ids_blocks by (rule mset_eq_imp_distinct_iff)
  ultimately show ?thesis
    using assms(2-) by (simp add: wf_built_def mod_ids_blocks) blast
qed

lemma all_blocks_remove: "all_blocks (remove_block b M) = filter (\<lambda>B. bid B \<noteq> b) (all_blocks M)"
  by (simp add: all_blocks_def remove_block_def comp_def filter_concat)

lemma distinct_concat_filter: "distinct (concat (map g xs)) \<Longrightarrow> distinct (concat (map g (filter P xs)))"
  by (induction xs) auto

lemma wf_remove: "wf_built M \<Longrightarrow> wf_built (remove_block b M)"
  unfolding wf_built_def mod_ids_blocks all_blocks_remove
  by (simp add: distinct_concat_filter distinct_map_filter) (simp add: remove_block_def comp_def)

lemma mset_put_after: "mset (put_after pos B Cs) = mset Cs + (if pos \<in> bid ` set Cs then {#B#} else {#})"
  by (induction Cs) auto

lemma filter_one: "distinct (map bid Bs) \<Longrightarrow> B \<in> set Bs \<Longrightarrow> bid B = b \<Longrightarrow> filter (\<lambda>C. bid C = b) Bs = [B]"
proof (induction Bs)
  case (Cons C Cs)
  show ?case
  proof (cases "bid C = b")
    case True
    then have "b \<notin> bid ` set Cs" using Cons.prems(1) by simp
    then have no: "\<forall>D \<in> set Cs. bid D \<noteq> b" by blast
    then have "filter (\<lambda>C. bid C = b) Cs = []" "B \<notin> set Cs" using Cons.prems(3) by (auto simp: filter_empty_conv)
    then show ?thesis using True Cons.prems by auto
  qed (use Cons in auto)
qed simp

lemma wf_move:
  assumes "move_after b pos p M = Inr M'" and "wf_built M" and "parent_of M pos = Some p" and "pos \<noteq> b"
  shows "wf_built M'" and "mset (all_blocks M') = mset (all_blocks M)"
proof -
  obtain B where B: "mod_block M b = Inr B"
    and M': "M' = in_func p (\<lambda>f. f\<lparr>fblocks := put_after pos B (fblocks f)\<rparr>) (remove_block b M)"
    using assms(1) by (auto simp: move_after_def rbind_eq_Inr)
  let ?R = "remove_block b M"
  have R: "wf_built ?R" using wf_remove assms(2) by blast
  obtain C where C: "(p, C) \<in> located M" "bid C = pos" using assms(3) parent_of_iff [OF wf_uniq [OF assms(2)]] by auto
  let ?cut = "\<lambda>f. f\<lparr>fblocks := filter (\<lambda>B. bid B \<noteq> b) (fblocks f)\<rparr>"
  obtain f1 where f1: "f1 \<in> set (mfuncs M)" "fid f1 = p" "C \<in> set (fblocks f1)" using C(1) unfolding located_iff by blast
  have at: "pos \<in> bid ` set (fblocks f)" if "f \<in> set (mfuncs ?R)" "fid f = p" for f
  proof -
    have "f \<in> ?cut ` set (mfuncs M)" using that(1) by (simp add: remove_block_def)
    then obtain f0 where f0: "f0 \<in> set (mfuncs M)" "f = ?cut f0" by blast
    then have "fid f0 = p" using that(2) by simp
    then have "f1 = f0" using assms(2) f0(1) f1(1,2) unfolding wf_built_def distinct_map inj_on_def by blast
    then have "C \<in> set (fblocks f)" using f0(2) f1(3) C(2) assms(4) by simp
    then show ?thesis using C(2) by blast
  qed
  have "fid ` set (mfuncs ?R) = fid ` set (mfuncs M)" by (simp add: remove_block_def image_image)
  then have p: "p \<in> fid ` set (mfuncs ?R)" using f1(1,2) by auto
  have "mset (all_blocks M') = mset (all_blocks ?R) + {#B#}"
    unfolding M' using R p at by (intro all_blocks_in_func) (auto simp: mset_put_after wf_built_def)
  also have "\<dots> = mset (all_blocks M)"
  proof -
    have "B \<in> set (all_blocks M)" "bid B = b" using mod_block_id [OF B] by simp_all
    then have "filter (\<lambda>C. bid C = b) (all_blocks M) = [B]"
      using assms(2) by (intro filter_one) (simp_all add: wf_built_def)
    then have "filter_mset (\<lambda>C. bid C = b) (mset (all_blocks M)) = {#B#}" by (metis mset_filter mset_single_iff)
    then show ?thesis unfolding all_blocks_remove using multiset_partition [of "mset (all_blocks M)" "\<lambda>C. bid C = b"]
      by (simp add: add.commute)
  qed
  finally show m: "mset (all_blocks M') = mset (all_blocks M)" .
  show "wf_built M'" by (rule wf_built_mset [where M = M and Bs = "[]"]) (use m assms(2) in \<open>simp_all add: M' remove_block_def comp_def\<close>)
qed

text \<open>Where the blocks are after adding and removing some.\<close>

lemma located_add: "(q, C) \<in> located (add_blocks p Bs M) \<longleftrightarrow> (q, C) \<in> located M \<or> q = p \<and> p \<in> fid ` set (mfuncs M) \<and> C \<in> set Bs"
proof -
  have "mfuncs (add_blocks p Bs M) = map (\<lambda>f. if fid f = p then f\<lparr>fblocks := fblocks f @ Bs\<rparr> else f) (mfuncs M)"
    by (simp add: add_blocks_def in_func_def)
  then have "(q, C) \<in> located (add_blocks p Bs M) \<longleftrightarrow>
      (\<exists>f \<in> set (mfuncs M). fid f = q \<and> C \<in> set (fblocks (if fid f = p then f\<lparr>fblocks := fblocks f @ Bs\<rparr> else f)))"
    by (rule located_map) simp
  also have "\<dots> \<longleftrightarrow> (\<exists>f \<in> set (mfuncs M). fid f = q \<and> (C \<in> set (fblocks f) \<or> q = p \<and> C \<in> set Bs))"
    by (intro bex_cong) auto
  also have "\<dots> \<longleftrightarrow> (q, C) \<in> located M \<or> q = p \<and> p \<in> fid ` set (mfuncs M) \<and> C \<in> set Bs"
    unfolding located_iff by (auto simp: image_iff)
  finally show ?thesis .
qed

lemma located_remove: "(q, C) \<in> located (remove_block b M) \<longleftrightarrow> (q, C) \<in> located M \<and> bid C \<noteq> b"
proof -
  have "mfuncs (remove_block b M) = map (\<lambda>f. f\<lparr>fblocks := filter (\<lambda>B. bid B \<noteq> b) (fblocks f)\<rparr>) (mfuncs M)"
    by (simp add: remove_block_def)
  from located_map [OF this, of q C] show ?thesis by (auto simp: located_iff)
qed

lemma wf_add:
  assumes "wf_built M" and "p \<in> fid ` set (mfuncs M)" and "distinct (map bid Bs)" "distinct (concat (map ids_of Bs))"
    and "bid ` set Bs \<inter> bid ` set (all_blocks M) = {}" "set (concat (map ids_of Bs)) \<inter> set (mod_ids M) = {}"
  shows "wf_built (add_blocks p Bs M)"
proof (rule wf_built_mset [OF add_blocks_mset _ assms(1,3-6)])
  show "distinct (map fid (mfuncs M))" using assms(1) by (simp add: wf_built_def)
  show "map fid (mfuncs (add_blocks p Bs M)) = map fid (mfuncs M)" by (simp add: add_blocks_def)
qed (rule assms(2))

lemma add_blocks_effect:
  assumes "wf_built M" and "wf_built (add_blocks p Bs M)" and "p \<in> fid ` set (mfuncs M)"
    and "bid ` set Bs \<inter> bid ` set (all_blocks M) = {}"
  shows "x \<notin> bid ` set Bs \<Longrightarrow> parent_of (add_blocks p Bs M) x = parent_of M x"
    and "x \<in> bid ` set Bs \<Longrightarrow> parent_of (add_blocks p Bs M) x = Some p"
    and "x \<notin> bid ` set Bs \<Longrightarrow> mod_block (add_blocks p Bs M) x = mod_block M x"
    and "B \<in> set Bs \<Longrightarrow> mod_block (add_blocks p Bs M) (bid B) = Inr B"
proof -
  note u = wf_uniq [OF assms(1)] wf_uniq [OF assms(2)]
  show "parent_of (add_blocks p Bs M) x = parent_of M x" if "x \<notin> bid ` set Bs"
    by (rule parent_of_same [OF u(2,1)]) (use that located_add in auto)
  show "parent_of (add_blocks p Bs M) x = Some p" if "x \<in> bid ` set Bs"
    using that assms(3) by (auto simp: parent_of_iff [OF u(2)] located_add)
  show "mod_block (add_blocks p Bs M) x = mod_block M x" if "x \<notin> bid ` set Bs"
    by (rule mod_block_same [OF u(2,1)]) (use that located_add in auto)
  show "mod_block (add_blocks p Bs M) (bid B) = Inr B" if "B \<in> set Bs"
    using that assms(3) by (auto simp: mod_block_iff [OF u(2)] located_add)
qed

lemma remove_effect:
  assumes "wf_built M" and "x \<noteq> b"
  shows "parent_of (remove_block b M) x = parent_of M x" and "mod_block (remove_block b M) x = mod_block M x"
proof -
  note u = wf_uniq [OF assms(1)] wf_uniq [OF wf_remove [OF assms(1)]]
  show "parent_of (remove_block b M) x = parent_of M x"
    by (rule parent_of_same [OF u(2,1)]) (use assms(2) located_remove in auto)
  show "mod_block (remove_block b M) x = mod_block M x"
    by (rule mod_block_same [OF u(2,1)]) (use assms(2) located_remove in auto)
qed

lemma removed_block: "mod_block (remove_block b M) b = Inl (NullDeref ''BasicBlock'')"
  by (simp add: mod_block_def all_blocks_remove find_None_iff split: option.splits)

section \<open>Edits that keep every branch inside its function\<close>

definition local_module :: "lmodule \<Rightarrow> bool" where
  "local_module M \<longleftrightarrow> wf_built M \<and> local_branches M"

lemma local_moduleI:
  "wf_built M' \<Longrightarrow> (\<And>x. parent_of M' x = parent_of M x) \<Longrightarrow> local_module M \<Longrightarrow>
   (\<And>x y. branches M' x y \<Longrightarrow> branches M x y \<or> parent_of M x = parent_of M y) \<Longrightarrow> local_module M'"
  unfolding local_module_def local_branches_def by metis

lemma local_append:
  assumes "local_module M" and "\<And>y. y \<in> set (succ_ids k) \<Longrightarrow> parent_of M y = parent_of M b"
  shows "local_module (append_to b k M)"
proof (rule local_moduleI [OF _ _ assms(1)])
  show "wf_built (append_to b k M)" using assms(1) wf_append by (simp add: local_module_def)
  show "branches M x y \<or> parent_of M x = parent_of M y" if "branches (append_to b k M) x y" for x y
    using branches_append [OF that] assms(2) by auto
qed simp

lemma local_insert: "local_module M \<Longrightarrow> local_module (insert_before n k M)"
  by (rule local_moduleI [where M = M]) (auto simp: wf_insert local_module_def)

lemma parent_erase: "erase_ins n M = Inr M' \<Longrightarrow> parent_of M' x = parent_of M x"
  by (drule erase_ins_map) (simp add: parent_map_mod)

lemma parent_replace: "replace_term n k M = Inr M' \<Longrightarrow> parent_of M' x = parent_of M x"
  unfolding replace_term_def by (drule parent_erase [where x = x]) simp

lemma local_replace:
  assumes "local_module M" and "replace_term n k M = Inr M'"
    and "\<And>x B y. mod_block M x = Inr B \<Longrightarrow> n \<in> set (ids_of B) \<Longrightarrow> y \<in> set (succ_ids k) \<Longrightarrow> parent_of M x = parent_of M y"
  shows "local_module M'"
proof (rule local_moduleI [OF _ _ assms(1)])
  have w: "wf_built M" using assms(1) by (simp add: local_module_def)
  show "wf_built M'" using assms(2) wf_erase wf_insert [OF w] unfolding replace_term_def by blast
  show "parent_of M' x = parent_of M x" for x using assms(2) by (rule parent_replace)
  show "branches M x y \<or> parent_of M x = parent_of M y" if "branches M' x y" for x y
    using replace_term_branches [OF w assms(2) that] assms(3) by blast
qed

lemma local_erase_block:
  assumes "local_module M" and "erase_block b M = Inr M'"
  shows "local_module M'" and "x \<noteq> b \<Longrightarrow> parent_of M' x = parent_of M x"
proof -
  have M': "M' = remove_block b M" "uses_of M' b = []" using assms(2) by (auto simp: erase_block_def Let_def rbind_eq_Inr)
  have w: "wf_built M" using assms(1) by (simp add: local_module_def)
  have "parent_of M' x = parent_of M' y" if "branches M' x y" for x y
  proof -
    have "x \<noteq> b" using that removed_block [of b M] by (auto simp: branches_iff M'(1))
    moreover have "y \<noteq> b" using branch_is_use [OF that] M'(2) by auto
    ultimately show ?thesis using that assms(1) remove_effect [OF w, of _ b] M'(1) branches_same [of M' x M y]
      by (simp add: local_module_def local_branches_def)
  qed
  then show "local_module M'" using wf_remove [OF w] M'(1) by (simp add: local_module_def local_branches_def)
  show "x \<noteq> b \<Longrightarrow> parent_of M' x = parent_of M x" using remove_effect [OF w] M'(1) by simp
qed

lemma local_add:
  assumes "local_module M" and "wf_built (add_blocks p Bs M)" and "p \<in> fid ` set (mfuncs M)"
    and "bid ` set Bs \<inter> bid ` set (all_blocks M) = {}"
    and "\<And>B t y. B \<in> set Bs \<Longrightarrow> terminator B = Some t \<Longrightarrow> y \<in> set (succ_ids (ikind t)) \<Longrightarrow> y \<in> bid ` set Bs"
    and old: "\<And>x y. branches M x y \<Longrightarrow> y \<notin> bid ` set Bs"
  shows "local_module (add_blocks p Bs M)"
proof -
  note e = add_blocks_effect [OF _ assms(2-4)]
  have w: "wf_built M" using assms(1) by (simp add: local_module_def)
  have "parent_of (add_blocks p Bs M) x = parent_of (add_blocks p Bs M) y" if b: "branches (add_blocks p Bs M) x y" for x y
  proof (cases "x \<in> bid ` set Bs")
    case True
    then have "y \<in> bid ` set Bs" using b e(4) [OF w] assms(5) by (force simp: branches_iff)
    with True show ?thesis using e(2) [OF w] by simp
  next
    case False
    then have "branches M x y" using b branches_same [OF e(3) [OF w False]] by simp
    then show ?thesis using old False e(1) [OF w] assms(1) by (simp add: local_module_def local_branches_def)
  qed
  then show ?thesis using assms(2) by (simp add: local_module_def local_branches_def)
qed

end
