(* ===== verification/Extract_Edges.thy ===== *)
theory Extract_Edges
  imports Graph_Edits
begin

text \<open>
  What \<open>S2EExtractAndBuildPass\<close> does to the module when it makes functions and edges: a new function takes its
  blocks over without leaving a branch into another function, and so do the edges of a jump.
\<close>

section \<open>Branches that are about to be erased\<close>

text \<open>
  \<open>relinkOldTransBasicBlock\<close> puts a return in front of every branch it collects, and the branches are erased later.
  A collected branch at the end of its block has an instruction in front that returns and stays.
\<close>

definition safe_ends :: "nat set \<Rightarrow> nat set \<Rightarrow> lmodule \<Rightarrow> bool" where
  "safe_ends L D M \<longleftrightarrow> L \<subseteq> set (mod_ids M) \<and> (\<forall>B \<in> set (all_blocks M). \<forall>xs t. bins B = xs @ [t] \<longrightarrow> iid t \<in> D \<longrightarrow>
     xs \<noteq> [] \<and> is_ret_kind (ikind (last xs)) \<and> iid (last xs) \<notin> L)"

lemma safe_endsD: "safe_ends L D M \<Longrightarrow> B \<in> set (all_blocks M) \<Longrightarrow> bins B = xs @ [t] \<Longrightarrow> iid t \<in> D \<Longrightarrow>
  xs \<noteq> [] \<and> is_ret_kind (ikind (last xs)) \<and> iid (last xs) \<notin> L"
  unfolding safe_ends_def by blast

lemma put_before_snoc: "put_before n new (xs @ [t]) =
  (if n \<in> set (map iid xs) then put_before n new xs @ [t] else if iid t = n then xs @ [new, t] else xs @ [t])"
  by (induction xs) auto

lemma ids_insert: "set (mod_ids M) \<subseteq> set (mod_ids (insert_before n k M))"
  unfolding insert_before_def mod_ids_blocks all_blocks_map_mod by (auto simp: put_before_ids [simplified])

lemma ids_append: "set (mod_ids M) \<subseteq> set (mod_ids (append_to b k M))"
  unfolding append_to_def mod_ids_blocks all_blocks_map_mod by auto

definition relink_step :: "string \<Rightarrow> nat \<Rightarrow> lmodule \<Rightarrow> lmodule" where
  "relink_step newF n M = insert_before n false_ret (insert_before n (Call (FuncRef newF) []) M)"

lemma relink_fold: "relinkOldTransBasicBlock newF b M = (fold (relink_step newF) (map snd (uses_of M b)) M, map snd (uses_of M b))"
  by (simp add: relinkOldTransBasicBlock_def relink_step_def [abs_def] Let_def)

lemma relink_step_frame [simp]:
  "branches (relink_step newF n M) = branches M" "parent_of (relink_step newF n M) x = parent_of M x"
  by (simp_all add: relink_step_def)

lemma safe_relink_step:
  assumes s: "safe_ends L D M" and "n \<in> L" and w: "wf_built M"
  shows "safe_ends L (insert n D) (relink_step newF n M)"
  unfolding safe_ends_def
proof (intro conjI ballI allI impI)
  let ?M1 = "insert_before n (Call (FuncRef newF) []) M"
  let ?c = "mk_ins (new_iid M) (Call (FuncRef newF) [])" and ?r = "mk_ins (new_iid ?M1) false_ret"
  have L: "L \<subseteq> set (mod_ids M)" using s by (simp add: safe_ends_def)
  then have L1: "L \<subseteq> set (mod_ids ?M1)" using ids_insert by blast
  then show "L \<subseteq> set (mod_ids (relink_step newF n M))" using ids_insert unfolding relink_step_def by blast
  have c: "iid ?c \<notin> L" using L new_iid_fresh [of M] by auto
  have r: "iid ?r \<notin> L" using L1 new_iid_fresh [of ?M1] by auto
  fix C xs t
  assume "C \<in> set (all_blocks (relink_step newF n M))" "bins C = xs @ [t]" "iid t \<in> insert n D"
  then obtain B where B: "B \<in> set (all_blocks M)" and e: "put_before n ?r (put_before n ?c (bins B)) = xs @ [t]" and t: "iid t \<in> insert n D"
    unfolding relink_step_def insert_before_def all_blocks_map_mod by auto
  from e have "bins B \<noteq> []" by auto
  then obtain us u where us: "bins B = us @ [u]" by (cases "bins B" rule: rev_cases) auto
  have d: "iid u \<notin> set (map iid us)" using wf_block_ids [OF w B] us by simp
  consider "n \<in> set (map iid us)" | "n \<notin> set (map iid us)" "iid u = n" | "n \<notin> set (map iid us)" "iid u \<noteq> n" by blast
  then have "us \<noteq> [] \<and> last xs = last us \<and> xs \<noteq> [] \<and> t = u \<and> iid u \<noteq> n \<or> last xs = ?r \<and> xs \<noteq> [] \<or> xs = us \<and> t = u \<and> iid u \<noteq> n"
  proof cases
    case 1
    then have ne: "us \<noteq> []" by auto
    have "n \<in> set (map iid (put_before n ?c us))" using 1 put_before_ids by blast
    then have "xs = put_before n ?r (put_before n ?c us)" "t = u"
      using e 1 by (simp_all add: us put_before_snoc del: set_map)
    moreover have "iid u \<noteq> n" using d 1 by auto
    ultimately show ?thesis using ne last_put_before [OF ne, of n ?c] last_put_before [of "put_before n ?c us" n ?r] by simp
  next
    case 2
    then have "n \<notin> set (map iid (us @ [?c]))" using c assms(2) by auto
    then have "put_before n ?r ((us @ [?c]) @ [u]) = (us @ [?c]) @ [?r, u]" using 2(2) put_before_snoc by metis
    then show ?thesis using e 2 by (auto simp: us put_before_snoc simp del: set_map)
  next
    case 3
    then show ?thesis using e by (auto simp: us put_before_snoc simp del: set_map)
  qed
  then show "xs \<noteq> []" "is_ret_kind (ikind (last xs))" "iid (last xs) \<notin> L"
    using safe_endsD [OF s B us] t r by auto
qed

lemma safe_relink:
  assumes "safe_ends L D M" and "set ns \<subseteq> L" and "wf_built M"
  shows "safe_ends L (set ns \<union> D) (fold (relink_step newF) ns M) \<and> wf_built (fold (relink_step newF) ns M)
    \<and> branches (fold (relink_step newF) ns M) = branches M \<and> (\<forall>x. parent_of (fold (relink_step newF) ns M) x = parent_of M x)"
  using assms
proof (induction ns arbitrary: D M)
  case (Cons n ns)
  let ?N = "relink_step newF n M"
  have w: "wf_built ?N" using Cons.prems(3) wf_insert by (simp add: relink_step_def)
  have "n \<in> L" "set ns \<subseteq> L" using Cons.prems(2) by simp_all
  from Cons.IH [OF safe_relink_step [OF Cons.prems(1) this(1) Cons.prems(3)] this(2) w] show ?case by simp
qed simp

text \<open>Moving blocks keeps that.\<close>

lemma safe_append:
  assumes "safe_ends L D M" and "D \<subseteq> L"
  shows "safe_ends L D (append_to b k M)"
  unfolding safe_ends_def
proof (intro conjI ballI allI impI)
  have L: "L \<subseteq> set (mod_ids M)" using assms by (simp add: safe_ends_def)
  then show "L \<subseteq> set (mod_ids (append_to b k M))" using ids_append by blast
  fix C xs t
  assume C: "C \<in> set (all_blocks (append_to b k M))" "bins C = xs @ [t]" "iid t \<in> D"
  from C(1) have "C \<in> appended b k M ` set (all_blocks M)" unfolding append_to_def all_blocks_map_mod by simp
  then obtain B where B: "B \<in> set (all_blocks M)" "C = appended b k M B" by (rule imageE)
  have "iid t \<in> set (mod_ids M)" using C(3) assms(2) L by blast
  then have "iid t \<noteq> new_iid M" using new_iid_fresh [of M] by metis
  moreover have "bins B @ [mk_ins (new_iid M) k] = xs @ [t] \<Longrightarrow> iid t = new_iid M" by auto
  ultimately have "bins B = xs @ [t]" using C(2) unfolding B(2) by (cases "bid B = b") simp_all
  then show "xs \<noteq> []" "is_ret_kind (ikind (last xs))" "iid (last xs) \<notin> L"
    using safe_endsD [OF assms(1) B(1) _ C(3)] by auto
qed

lemma safe_mset:
  assumes "mset (all_blocks N) = mset (all_blocks M)" and "safe_ends L D M"
  shows "safe_ends L D N"
proof -
  have "set (all_blocks N) = set (all_blocks M)" using assms(1) by (rule mset_eq_setD)
  then show ?thesis using assms(2) unfolding safe_ends_def mod_ids_blocks by simp
qed

lemma move_stack_keeps:
  assumes "move_stack p stack M = Inr M'" and "wf_built M" and "P M"
    and ap: "\<And>M b k. wf_built M \<Longrightarrow> P M \<Longrightarrow> P (append_to b k M)"
    and mv: "\<And>M N. wf_built M \<Longrightarrow> P M \<Longrightarrow> mset (all_blocks N) = mset (all_blocks M) \<Longrightarrow> P N"
  shows "wf_built M' \<and> P M'"
  using assms(1-3)
proof (induction p stack M rule: move_stack.induct)
  case (2 p block stack M)
  show ?case
  proof (cases "parent_of M block = Some p")
    case True
    with 2 show ?thesis by simp
  next
    case False
    with 2(3) obtain M1 ss where m: "moveBasicBlockToNewFunction block p M = Inr M1" "succs_of M1 block = Inr ss"
      "move_stack p (ss @ stack) M1 = Inr M'" by (auto simp: rbind_eq_Inr)
    have "wf_built M1 \<and> P M1"
    proof (rule moved_cases [OF m(1)])
      fix f E rest pos N
      assume f: "mod_func M p = Inr f" "fblocks f = E # rest" and a: "move_after block pos p N = Inr M1"
        and N: "N = M \<and> (pos = bid (last (fblocks f)) \<or> parent_of M pos = Some p) \<or> N = append_to (bid E) (Br block) M \<and> pos = bid E"
      note in_p = entry_parent [OF wf_uniq [OF 2(4)] f(1)]
      have "parent_of M (bid E) = Some p" "parent_of M (bid (last (fblocks f))) = Some p"
        using in_p [of E] in_p [of "last (fblocks f)"] f(2) by simp_all
      then have pos: "parent_of N pos = Some p" using N by auto
      then have "pos \<noteq> block" using N False by auto
      have N': "wf_built N" "P N" using N 2(4,5) ap wf_append by auto
      from wf_move [OF a N'(1) pos \<open>pos \<noteq> block\<close>] mv [OF N'] show ?thesis by blast
    qed
    with 2(2) [OF False m] show ?thesis by blast
  qed
qed simp

abbreviation without_all :: "nat set \<Rightarrow> bblock \<Rightarrow> bblock" where
  "without_all L B \<equiv> B\<lparr>bins := filter (\<lambda>i. iid i \<notin> L) (bins B)\<rparr>"

lemma map_mod_map_mod: "map_mod g (map_mod h M) = map_mod (\<lambda>B. g (h B)) M"
  by (simp add: map_mod_def map_blocks_def comp_def)

lemma map_mod_id: "map_mod (\<lambda>B. B) M = M"
proof -
  have "map_blocks (\<lambda>B. B) = (\<lambda>f. f)" by (rule ext) (simp add: map_blocks_def)
  then show ?thesis by (simp add: map_mod_def)
qed

lemma erase_each: "rfold erase_ins ns M = Inr M' \<Longrightarrow> M' = map_mod (without_all (set ns)) M"
proof (induction ns arbitrary: M)
  case Nil
  then show ?case by (simp add: map_mod_id)
next
  case (Cons n ns)
  then obtain N where N: "erase_ins n M = Inr N" "rfold erase_ins ns N = Inr M'" by (auto simp: rbind_eq_Inr)
  have "M' = map_mod (without_all (set ns)) (map_mod (without n) M)" using Cons.IH [OF N(2)] erase_ins_map [OF N(1)] by simp
  then show ?case by (simp add: map_mod_map_mod conj_commute)
qed

lemma local_erase_each:
  assumes "local_module M" and "safe_ends (set ns) (set ns) M" and e: "rfold erase_ins ns M = Inr M'"
  shows "local_module M'" and "parent_of M' x = parent_of M x"
proof -
  have M': "M' = map_mod (without_all (set ns)) M" by (rule erase_each [OF e])
  show p: "parent_of M' x = parent_of M x" for x unfolding M' by (rule parent_map_mod) simp
  have w: "wf_built M'"
    by (rule rfold_invariant [OF e]) (use assms(1) wf_erase in \<open>auto simp: local_module_def\<close>)
  show "local_module M'"
  proof (rule local_moduleI [OF w p assms(1)])
    fix x y assume "branches M' x y"
    then obtain B t where B: "mod_block M x = Inr B" "terminator (without_all (set ns) B) = Some t" "y \<in> set (succ_ids (ikind t))"
      unfolding M' by (subst (asm) branches_map_mod) auto
    have Bm: "B \<in> set (all_blocks M)" using mod_block_id [OF B(1)] by simp
    have "bins B \<noteq> []" using B(2) by (auto simp: terminator_def split: if_splits)
    then obtain xs u where u: "bins B = xs @ [u]" by (cases "bins B" rule: rev_cases) auto
    have "iid u \<notin> set ns"
    proof
      assume "iid u \<in> set ns"
      with safe_endsD [OF assms(2) Bm u] have "xs \<noteq> []" "is_ret_kind (ikind (last xs))" "iid (last xs) \<notin> set ns" by auto
      moreover from this obtain zs v where "xs = zs @ [v]" by (cases xs rule: rev_cases) auto
      ultimately have "t = v" "is_ret_kind (ikind v)" using B(2) u \<open>iid u \<in> set ns\<close> by (auto simp: terminator_def split: if_splits)
      then show False using B(3) by (cases "ikind v") auto
    qed
    then have "terminator B = Some t" using B(2) u by (simp add: terminator_def split: if_splits)
    then show "branches M x y \<or> parent_of M x = parent_of M y" using B by (auto simp: branches_iff)
  qed
qed

section \<open>Making a function\<close>

lemma uses_ids: "set (map snd (uses_of M b)) \<subseteq> set (mod_ids M)"
  unfolding uses_of_def mod_ids_blocks by auto

lemma region_cong: "branches M = branches N \<Longrightarrow> region M b = region N b"
  by (simp add: region_def)

lemma fresh_fid_mod: "fresh_fid M \<notin> fid ` set (mfuncs M)"
  using le_fold_max [of _ "map fid (mfuncs M)"] by (fastforce simp: fresh_fid_def)

lemma branch_blocks:
  assumes "local_module M" and "branches M x y"
  shows "x \<in> bid ` set (all_blocks M)" and "y \<in> bid ` set (all_blocks M)"
proof -
  have m: "parent_of M z = Some p \<Longrightarrow> z \<in> bid ` set (all_blocks M)" for z p
    using assms(1) parent_of_iff [OF wf_uniq] by (force simp: local_module_def all_blocks_located)
  show x: "x \<in> bid ` set (all_blocks M)" using assms(2) mod_block_id by (force simp: branches_iff)
  then obtain B p where "(p, B) \<in> located M" "bid B = x" by (force simp: all_blocks_located)
  then have "parent_of M x = Some p" using assms(1) parent_of_iff [OF wf_uniq] by (auto simp: local_module_def)
  then show "y \<in> bid ` set (all_blocks M)" using assms m by (auto simp: local_module_def local_branches_def)
qed

lemma find_snoc: "\<not> P y \<Longrightarrow> find P (xs @ [y]) = find P xs"
  by (induction xs) simp_all

lemma new_function_local:
  assumes "new_function nm s = (p, s')" and g: "local_module (built_module s)"
  shows "local_module (built_module s')" and "functionMap s' = (functionMap s)(nm \<mapsto> p)" and "basicBlocks s' = basicBlocks s"
    and "\<exists>b. parent_of (built_module s') b = Some p"
    and "x \<in> bid ` set (all_blocks (built_module s)) \<Longrightarrow> parent_of (built_module s') x = parent_of (built_module s) x"
proof -
  let ?M = "built_module s"
  let ?N = "?M\<lparr>mfuncs := mfuncs ?M @ [\<lparr>fid = p, fname = nm, fblocks = []\<rparr>]\<rparr>"
  let ?e = "\<lparr>bid = new_bid ?N, bname = ''entry'', bins = []\<rparr>"
  have s': "s' = s\<lparr>built_module := add_blocks p [?e] ?N, functionMap := (functionMap s)(nm \<mapsto> p)\<rparr>" and p: "p = fresh_fid ?M"
    using assms(1) by (auto simp: new_function_def Let_def)
  have blocks: "all_blocks ?N = all_blocks ?M" by (simp add: all_blocks_def)
  have "p \<notin> fid ` set (mfuncs ?M)" using fresh_fid_mod [of ?M] p by simp
  then have wN: "wf_built ?N" using g by (simp add: wf_built_def local_module_def mod_ids_blocks blocks)
  have par: "parent_of ?N x = parent_of ?M x" for x
    by (simp add: parent_of_def find_snoc)
  have gN: "local_module ?N"
    by (rule local_moduleI [OF wN par g]) (auto simp: branches_iff mod_block_def blocks)
  have e: "bid ` set [?e] \<inter> bid ` set (all_blocks ?N) = {}" using new_bid_fresh [of ?N] by simp
  have pN: "p \<in> fid ` set (mfuncs ?N)" by simp
  have w: "wf_built (add_blocks p [?e] ?N)" by (rule wf_add [OF wN pN _ _ e]) simp_all
  have "local_module (add_blocks p [?e] ?N)"
    by (rule local_add [OF gN w pN e]) (use branch_blocks [OF gN] new_bid_fresh [of ?N] in \<open>auto simp: terminator_def\<close>)
  then show "local_module (built_module s')" by (simp add: s')
  show "functionMap s' = (functionMap s)(nm \<mapsto> p)" "basicBlocks s' = basicBlocks s" by (simp_all add: s')
  show "\<exists>b. parent_of (built_module s') b = Some p" using add_blocks_effect(2) [OF wN w pN e, of "new_bid ?N"] by (auto simp: s')
  show "parent_of (built_module s') x = parent_of ?M x" if "x \<in> bid ` set (all_blocks ?M)"
  proof -
    have "x \<noteq> new_bid ?N" using new_bid_fresh [of ?N] that unfolding blocks by metis
    then have "parent_of (add_blocks p [?e] ?N) x = parent_of ?N x" by (intro add_blocks_effect(1) [OF wN w pN e]) simp
    then show ?thesis using par [of x] by (simp add: s')
  qed
qed

lemma drop_trans_local:
  assumes "drop_trans b s = Inr s'" and "local_module (built_module s)"
  shows "local_module (built_module s')" and "functionMap s' = functionMap s"
    and "x \<noteq> b \<Longrightarrow> parent_of (built_module s') x = parent_of (built_module s) x"
proof -
  obtain T :: bblock and M where s': "erase_block b (built_module s) = Inr M"
    "s' = s\<lparr>basicBlocks := (basicBlocks s)(bname T := None), built_module := M\<rparr>"
    using assms(1) by (auto simp: drop_trans_def rbind_eq_Inr)
  show "local_module (built_module s')" "functionMap s' = functionMap s" using local_erase_block [OF assms(2) s'(1)] s'(2) by simp_all
  show "parent_of (built_module s') x = parent_of (built_module s) x" if "x \<noteq> b"
    using local_erase_block(2) [OF assms(2) s'(1) that] s'(2) by simp
qed

lemma relink_local:
  assumes "relinkOldTransBasicBlock nm b M = (M1, ns)" and g: "local_module M"
  shows "local_module M1" and "safe_ends (set ns) (set ns) M1" and "branches M1 = branches M" and "parent_of M1 x = parent_of M x"
proof -
  have ns: "ns = map snd (uses_of M b)" "M1 = fold (relink_step nm) ns M" using assms(1) by (auto simp: relink_fold)
  have "safe_ends (set ns) {} M" using uses_ids by (simp add: safe_ends_def ns(1))
  from safe_relink [OF this order_refl] g have "safe_ends (set ns) (set ns) M1 \<and> wf_built M1 \<and> branches M1 = branches M
      \<and> (\<forall>x. parent_of M1 x = parent_of M x)" by (simp add: ns(2) local_module_def)
  then show "safe_ends (set ns) (set ns) M1" "branches M1 = branches M" "parent_of M1 x = parent_of M x" "local_module M1"
    using g by (simp_all add: local_module_def local_branches_def)
qed

text \<open>The block of the address is there and may move: everything behind it goes along.\<close>

lemma take_over_local:
  assumes "take_over addr p head s = Inr s'" and g: "local_module (built_module s)"
    and v: "validateMove (built_module s) head = Inr True"
  shows "local_module (built_module s')" and "functionMap s' = functionMap s"
    and "x \<in> region (built_module s) head \<Longrightarrow> getBasicBlock (''Trans_'' @ addr) s \<noteq> Some x \<Longrightarrow> parent_of (built_module s') x = Some p"
proof -
  obtain b where b: "getBasicBlock (''Trans_'' @ addr) s = Some b" using assms(1) by (auto simp: take_over_def split: option.splits)
  obtain M1 ns where r: "relinkOldTransBasicBlock (''Function_'' @ addr) b (built_module s) = (M1, ns)" by fastforce
  obtain M2 M3 where m: "moveBasicBlocksToNewFunction head p M1 = Inr M2" and e: "rfold erase_ins ns M2 = Inr M3"
    and d: "drop_trans b (s\<lparr>built_module := M3\<rparr>) = Inr s'"
    using assms(1) unfolding take_over_def b option.case r prod.case rbind_eq_Inr by blast
  note M1 = relink_local [OF r g]
  have reg: "region M1 head = region (built_module s) head" by (rule region_cong [OF M1(3)])
  have uM1: "uniq M1" "wf_built M1" "local_branches M1" using M1(1) wf_uniq by (auto simp: local_module_def)
  have closed: "x \<in> region M1 head" if "branches M1 x y" "y \<in> region M1 head" for x y
    using validated_entered [OF v] that by (simp add: M1(3) reg)
  have M2: "local_branches M2" "parent_of M2 x = (if x \<in> region M1 head then Some p else parent_of M1 x)" for x
    by (rule moved_region [OF uM1(1,3) _ m], rule closed, assumption+)+
  have keep: "wf_built M2 \<and> safe_ends (set ns) (set ns) M2"
    by (rule move_stack_keeps [where P = "safe_ends (set ns) (set ns)", OF m [unfolded moveBasicBlocksToNewFunction_def] uM1(2) M1(2)])
      (simp_all add: safe_append safe_mset)
  have g2: "local_module M2" using keep M2(1) by (simp add: local_module_def)
  note M3 = local_erase_each [OF g2 conjunct2 [OF keep] e]
  show "local_module (built_module s')" "functionMap s' = functionMap s"
    using drop_trans_local [OF d] M3(1) by simp_all
  show "parent_of (built_module s') x = Some p"
    if "x \<in> region (built_module s) head" "getBasicBlock (''Trans_'' @ addr) s \<noteq> Some x"
    using drop_trans_local(3) [OF d, of x] M3 M2(2) [of x] that b reg by simp
qed

lemma take_over_trans_local:
  assumes "take_over_trans addr s = Inr s'" and g: "local_module (built_module s)"
  shows "local_module (built_module s')" and "functionMap s' = functionMap s"
proof -
  have "local_module (built_module s') \<and> functionMap s' = functionMap s"
  proof (cases "getBasicBlock (''Trans_'' @ addr) s")
    case (Some b)
    obtain M1 ns where r: "relinkOldTransBasicBlock (''Function_'' @ addr) b (built_module s) = (M1, ns)" by fastforce
    obtain M2 where e: "rfold erase_ins ns M1 = Inr M2" and d: "drop_trans b (s\<lparr>built_module := M2\<rparr>) = Inr s'"
      using assms(1) unfolding take_over_trans_def Some option.case r prod.case rbind_eq_Inr by blast
    note M1 = relink_local [OF r g]
    show ?thesis using drop_trans_local [OF d] local_erase_each(1) [OF M1(1,2) e] by simp
  qed (use assms in \<open>simp add: take_over_trans_def\<close>)
  then show "local_module (built_module s')" "functionMap s' = functionMap s" by simp_all
qed

text \<open>A function that only gets another name.\<close>

lemma rename_local:
  assumes "local_module M"
  shows "local_module (in_func p (\<lambda>f. f\<lparr>fname := nm\<rparr>) M)"
proof -
  let ?N = "in_func p (\<lambda>f. f\<lparr>fname := nm\<rparr>) M"
  have "map fblocks (mfuncs ?N) = map fblocks (mfuncs M)" "map fid (mfuncs ?N) = map fid (mfuncs M)" by (simp_all add: in_func_def)
  then have blocks: "all_blocks ?N = all_blocks M" and ids: "map fid (mfuncs ?N) = map fid (mfuncs M)"
    by (simp_all only: all_blocks_def)
  have w: "wf_built ?N" using assms ids by (simp add: wf_built_def local_module_def mod_ids_blocks blocks)
  have "parent_of ?N x = parent_of M x" for x
    by (simp add: parent_of_def in_func_def find_map comp_def option.map_comp if_distrib cong: if_cong)
  then show ?thesis by (rule local_moduleI [OF w _ assms]) (auto simp: branches_iff mod_block_def blocks)
qed

lemma fake_function_local:
  assumes "fake_function addr p s = Inr s'" and "local_module (built_module s)"
  shows "local_module (built_module s')"
    and "functionMap s' = (functionMap s)(''Function_'' @ addr := None, ''FakeFunction_'' @ addr := Some p)"
proof -
  obtain f where f: "mod_func (built_module s) p = Inr f" using assms(1) unfolding fake_function_def rbind_eq_Inr by blast
  obtain E rest where E: "fblocks f = E # rest"
    using assms(1) unfolding fake_function_def f rbind_simps by (cases "fblocks f") simp_all
  have "s' = s\<lparr>functionMap := (functionMap s)(''Function_'' @ addr := None, ''FakeFunction_'' @ addr := Some p),
       built_module := in_func p (\<lambda>f. f\<lparr>fname := ''FakeFunction_'' @ addr\<rparr>) (append_to (bid E) false_ret (built_module s))\<rparr>"
    using assms(1) unfolding fake_function_def f E rbind_simps list.case by simp
  then show "local_module (built_module s')"
    "functionMap s' = (functionMap s)(''Function_'' @ addr := None, ''FakeFunction_'' @ addr := Some p)"
    using rename_local [OF local_append [OF assms(2)], of false_ret] by simp_all
qed

text \<open>Whichever way the function is made.\<close>

lemma made_function:
  assumes "getOrCreateFunction a s = Inr (p, s')" and g: "local_module (built_module s)"
  shows "local_module (built_module s')"
    and "functionMap s' (name_at ''Function_'' a) = Some p \<or> functionMap s' (name_at ''FakeFunction_'' a) = Some p"
proof -
  let ?nm = "name_at ''Function_'' a"
  have "local_module (built_module s') \<and> (functionMap s' ?nm = Some p \<or> functionMap s' (name_at ''FakeFunction_'' a) = Some p)"
  proof (cases "functionMap s ?nm")
    case None
    obtain q s1 where n: "new_function ?nm s = (q, s1)" by fastforce
    note s1 = new_function_local [OF n g]
    have rest: "rbind (case getBasicBlock (name_at ''BB_'' a) s1 of
              Some head \<Rightarrow> rbind (validateMove (built_module s1) head) (\<lambda>ok.
                if \<not> ok then fake_function (intToString a) q s1 else take_over (intToString a) q head s1)
            | None \<Rightarrow> take_over_trans (intToString a) s1) (\<lambda>s2. Inr (q, s2)) = Inr (p, s')"
      using assms(1) unfolding getOrCreateFunction_def Let_def None option.case n prod.case .
    then have p: "p = q" unfolding rbind_eq_Inr by blast
    from rest consider
        (fake) "fake_function (intToString a) q s1 = Inr s'"
      | (move) head where "validateMove (built_module s1) head = Inr True" "take_over (intToString a) q head s1 = Inr s'"
      | (trans) "take_over_trans (intToString a) s1 = Inr s'"
      unfolding rbind_eq_Inr by (auto split: option.splits simp: rbind_eq_Inr split: if_splits)
    then show ?thesis
    proof cases
      case fake
      from fake_function_local [OF this s1(1)] show ?thesis by (simp add: p)
    next
      case move
      from take_over_local [OF move(2) s1(1) move(1)] s1(2) show ?thesis by (simp add: p)
    next
      case trans
      from take_over_trans_local [OF this s1(1)] s1(2) show ?thesis by (simp add: p)
    qed
  qed (use assms in \<open>simp add: getOrCreateFunction_def Let_def\<close>)
  then show "local_module (built_module s')"
    "functionMap s' ?nm = Some p \<or> functionMap s' (name_at ''FakeFunction_'' a) = Some p" by simp_all
qed

section \<open>Edges\<close>

lemma same_block:
  "wf_built M \<Longrightarrow> mod_block M x = Inr B \<Longrightarrow> n \<in> set (ids_of B) \<Longrightarrow> mod_block M y = Inr C \<Longrightarrow> n \<in> set (ids_of C) \<Longrightarrow> x = y"
  using id_in_one_block [of M n] mod_block_id by metis

lemma parent_fid:
  assumes "local_module M" and "parent_of M x = Some p"
  shows "p \<in> fid ` set (mfuncs M)" and "x \<in> bid ` set (all_blocks M)"
proof -
  obtain B where "(p, B) \<in> located M" "bid B = x" using assms parent_of_iff [OF wf_uniq] by (auto simp: local_module_def)
  then show "p \<in> fid ` set (mfuncs M)" "x \<in> bid ` set (all_blocks M)" unfolding located_iff all_blocks_def by auto
qed

text \<open>Getting a block by name creates it in the function when there is none.\<close>

lemma getOrCreateBasicBlock_local:
  assumes "getOrCreateBasicBlock p nm s = (t, s')" and g: "local_module (built_module s)" and p: "p \<in> fid ` set (mfuncs (built_module s))"
  shows "local_module (built_module s')" and "basicBlocks s nm = Some t \<or> parent_of (built_module s') t = Some p"
    and "x \<in> bid ` set (all_blocks (built_module s)) \<Longrightarrow> parent_of (built_module s') x = parent_of (built_module s) x"
    and "mod_block (built_module s) x = Inr B \<Longrightarrow> mod_block (built_module s') x = Inr B"
proof -
  let ?M = "built_module s"
  have "local_module (built_module s') \<and> (basicBlocks s nm = Some t \<or> parent_of (built_module s') t = Some p)
    \<and> (\<forall>x \<in> bid ` set (all_blocks ?M). parent_of (built_module s') x = parent_of ?M x)
    \<and> (\<forall>x B. mod_block ?M x = Inr B \<longrightarrow> mod_block (built_module s') x = Inr B)"
  proof (cases "basicBlocks s nm")
    case None
    let ?e = "\<lparr>bid = new_bid ?M, bname = nm, bins = []\<rparr>"
    have s': "t = new_bid ?M" "built_module s' = add_blocks p [?e] ?M"
      using assms(1) by (auto simp: getOrCreateBasicBlock_def None Let_def)
    have wM: "wf_built ?M" using g by (simp add: local_module_def)
    have e: "bid ` set [?e] \<inter> bid ` set (all_blocks ?M) = {}" using new_bid_fresh [of ?M] by simp
    have w: "wf_built (add_blocks p [?e] ?M)" by (rule wf_add [OF wM p _ _ e]) simp_all
    have "local_module (add_blocks p [?e] ?M)"
      by (rule local_add [OF g w p e]) (use branch_blocks [OF g] new_bid_fresh [of ?M] in \<open>auto simp: terminator_def\<close>)
    moreover have old: "x \<noteq> new_bid ?M" if "x \<in> bid ` set (all_blocks ?M)" for x using that new_bid_fresh [of ?M] by metis
    moreover have "x \<in> bid ` set (all_blocks ?M)" if "mod_block ?M x = Inr B" for x B using mod_block_id [OF that] by auto
    ultimately show ?thesis using add_blocks_effect [OF wM w p e] s' by simp
  qed (use assms in \<open>auto simp: getOrCreateBasicBlock_def\<close>)
  then show "local_module (built_module s')" "basicBlocks s nm = Some t \<or> parent_of (built_module s') t = Some p"
    "x \<in> bid ` set (all_blocks ?M) \<Longrightarrow> parent_of (built_module s') x = parent_of ?M x"
    "mod_block ?M x = Inr B \<Longrightarrow> mod_block (built_module s') x = Inr B" by blast+
qed

lemma trans_block_local:
  assumes "getOrCreateTransBasicBlock p a s = Inr (t, s')" and g: "local_module (built_module s)" and p: "p \<in> fid ` set (mfuncs (built_module s))"
  shows "local_module (built_module s')" and "getBasicBlock (name_at ''Trans_'' a) s = Some t \<or> parent_of (built_module s') t = Some p"
    and "x \<in> bid ` set (all_blocks (built_module s)) \<Longrightarrow> parent_of (built_module s') x = parent_of (built_module s) x"
    and "mod_block (built_module s) x = Inr B \<Longrightarrow> \<exists>C. mod_block (built_module s') x = Inr C \<and> set (ids_of B) \<subseteq> set (ids_of C)"
proof -
  obtain d s1 where d: "getOrCreateBasicBlock p (name_at ''Trans_'' a) s = (d, s1)" by fastforce
  obtain D where "(d, if terminator D = None then s1\<lparr>built_module := append_to d false_ret (built_module s1)\<rparr> else s1) = (t, s')"
    using assms(1) unfolding getOrCreateTransBasicBlock_def d prod.case rbind_eq_Inr by blast
  then have s': "s' = s1 \<or> s' = s1\<lparr>built_module := append_to t false_ret (built_module s1)\<rparr>"
    and s1: "getOrCreateBasicBlock p (name_at ''Trans_'' a) s = (t, s1)" using d by (auto split: if_splits)
  note e = getOrCreateBasicBlock_local [OF s1 g p]
  show "local_module (built_module s')" using s' e(1) local_append [of "built_module s1" false_ret] by auto
  have par: "parent_of (built_module s') y = parent_of (built_module s1) y" for y using s' by auto
  show "getBasicBlock (name_at ''Trans_'' a) s = Some t \<or> parent_of (built_module s') t = Some p"
    using e(2) par unfolding getBasicBlock_def by metis
  show "x \<in> bid ` set (all_blocks (built_module s)) \<Longrightarrow> parent_of (built_module s') x = parent_of (built_module s) x"
    using e(3) par by simp
  show "\<exists>C. mod_block (built_module s') x = Inr C \<and> set (ids_of B) \<subseteq> set (ids_of C)" if "mod_block (built_module s) x = Inr B"
    using s' e(4) [OF that] by (auto simp: append_to_def mod_block_map_mod)
qed

text \<open>A branch to an intermediate block of the same function.\<close>

lemma branch_to_local:
  assumes "branch_to block (iid t) a s = Inr s'" and g: "local_module (built_module s)" and t: "term_of (built_module s) block = Inr t"
    and there: "\<not> in_other_function (name_at ''Trans_'' a) block s"
  shows "local_module (built_module s')"
proof -
  obtain p d s1 M where p: "parent_of (built_module s) block = Some p" and d: "getOrCreateTransBasicBlock p a s = Inr (d, s1)"
    and M: "replace_term (iid t) (Br d) (built_module s1) = Inr M" "s' = s1\<lparr>built_module := M\<rparr>"
  proof -
    obtain p d s1 M where "block_parent block s = Inr p" "getOrCreateTransBasicBlock p a s = Inr (d, s1)"
      "replace_term (iid t) (Br d) (built_module s1) = Inr M" "s' = s1\<lparr>built_module := M\<rparr>"
      using assms(1) unfolding branch_to_def rbind_eq_Inr by (auto simp: rbind_eq_Inr)
    then show thesis using that by (auto simp: block_parent_def split: option.splits)
  qed
  note pf = parent_fid [OF g p]
  note e = trans_block_local [OF d g pf(1)]
  obtain B where B: "mod_block (built_module s) block = Inr B" "terminator B = Some t"
    using t by (auto simp: term_of_def rbind_eq_Inr split: option.splits)
  then have "iid t \<in> set (ids_of B)" by (auto simp: terminator_def split: if_splits)
  then obtain C where C: "mod_block (built_module s1) block = Inr C" "iid t \<in> set (ids_of C)" using e(4) [OF B(1)] by blast
  have pb: "parent_of (built_module s1) block = Some p" using e(3) [OF pf(2)] p by simp
  have pd: "parent_of (built_module s1) d = Some p"
  proof (cases "getBasicBlock (name_at ''Trans_'' a) s = Some d")
    case True
    then have "parent_of (built_module s) d = Some p" using there p by (simp add: in_other_function_def)
    with e(3) [OF parent_fid(2) [OF g this]] show ?thesis by simp
  qed (use e(2) in simp)
  have "local_module M"
  proof (rule local_replace [OF e(1) M(1)])
    fix x D y assume x: "mod_block (built_module s1) x = Inr D" "iid t \<in> set (ids_of D)" and y: "y \<in> set (succ_ids (Br d))"
    have "wf_built (built_module s1)" using e(1) by (simp add: local_module_def)
    from same_block [OF this x C] have "x = block" .
    moreover have "y = d" using y by simp
    ultimately show "parent_of (built_module s1) x = parent_of (built_module s1) y" using pb pd by metis
  qed
  then show ?thesis by (simp add: M(2))
qed

end
