(* ===== verification/Extract_Run.thy ===== *)
theory Extract_Run
  imports Extract_Edges
begin

text \<open>
  One run of \<open>S2EExtractAndBuildPass\<close>: the tables of blocks and functions stay in step with the module, and a
  translated block that does not end in a call leaves every branch of the module inside its function.
\<close>

section \<open>Blocks keep their names\<close>

definition keeps_names :: "lmodule \<Rightarrow> lmodule \<Rightarrow> bool" where
  "keeps_names M M' \<longleftrightarrow> (\<forall>x B. mod_block M x = Inr B \<longrightarrow> (\<exists>C. mod_block M' x = Inr C \<and> bname C = bname B))"

lemma keeps_refl [simp]: "keeps_names M M"
  by (simp add: keeps_names_def)

lemma keeps_trans [trans]: "keeps_names M M1 \<Longrightarrow> keeps_names M1 M2 \<Longrightarrow> keeps_names M M2"
  unfolding keeps_names_def by metis

lemma keeps_map_mod: "(\<And>B. bid (g B) = bid B \<and> bname (g B) = bname B) \<Longrightarrow> keeps_names M (map_mod g M)"
  by (simp add: keeps_names_def mod_block_map_mod)

lemma keeps_append: "keeps_names M (append_to b k M)"
  unfolding append_to_def by (rule keeps_map_mod) simp

lemma keeps_insert: "keeps_names M (insert_before n k M)"
  unfolding insert_before_def by (rule keeps_map_mod) simp

lemma keeps_erase: "erase_ins n M = Inr M' \<Longrightarrow> keeps_names M M'"
  by (drule erase_ins_map) (simp add: keeps_map_mod)

lemma keeps_replace: "replace_term n k M = Inr M' \<Longrightarrow> keeps_names M M'"
  unfolding replace_term_def using keeps_trans [OF keeps_insert keeps_erase] by blast

lemma keeps_erase_each: "rfold erase_ins ns M = Inr M' \<Longrightarrow> keeps_names M M'"
  by (drule erase_each) (simp add: keeps_map_mod)

lemma keeps_relink: "keeps_names M (fold (relink_step nm) ns M)"
proof (induction ns arbitrary: M)
  case (Cons n ns)
  have "keeps_names M (relink_step nm n M)" unfolding relink_step_def by (rule keeps_trans [OF keeps_insert keeps_insert])
  from keeps_trans [OF this Cons] show ?case by simp
qed simp

lemma mod_block_distinct:
  "distinct (map bid (all_blocks M)) \<Longrightarrow> mod_block M x = Inr B \<longleftrightarrow> B \<in> set (all_blocks M) \<and> bid B = x"
proof
  assume d: "distinct (map bid (all_blocks M))" and B: "B \<in> set (all_blocks M) \<and> bid B = x"
  then obtain C where C: "find (\<lambda>B. bid B = x) (all_blocks M) = Some C"
    by (cases "find (\<lambda>B. bid B = x) (all_blocks M)") (auto simp: find_None_iff)
  then have "C = B" using find_mem [OF C] B d by (auto simp: distinct_map dest: inj_onD)
  with C show "mod_block M x = Inr B" by (simp add: mod_block_def)
qed (use mod_block_id in blast)

lemma keeps_mset:
  assumes "wf_built M" and "mset (all_blocks N) = mset (all_blocks M)"
  shows "keeps_names M N"
proof -
  have d: "distinct (map bid (all_blocks M))" using assms(1) by (simp add: wf_built_def)
  have "mset (map bid (all_blocks N)) = mset (map bid (all_blocks M))" using assms(2) by simp
  then have d': "distinct (map bid (all_blocks N))" using d mset_eq_imp_distinct_iff by blast
  have "set (all_blocks N) = set (all_blocks M)" using assms(2) by (rule mset_eq_setD)
  then show ?thesis unfolding keeps_names_def mod_block_distinct [OF d] mod_block_distinct [OF d'] by blast
qed

lemma keeps_move:
  assumes "move_stack p stack M = Inr M'" and "wf_built M"
  shows "keeps_names M M'"
proof -
  have "wf_built M' \<and> keeps_names M M'"
  proof (rule move_stack_keeps [where P = "keeps_names M", OF assms keeps_refl])
    show "keeps_names M (append_to b k N)" if "keeps_names M N" for N b k by (rule keeps_trans [OF that keeps_append])
    show "keeps_names M K" if "wf_built N" "keeps_names M N" "mset (all_blocks K) = mset (all_blocks N)" for N K
      by (rule keeps_trans [OF that(2) keeps_mset [OF that(1,3)]])
  qed
  then show ?thesis by blast
qed

section \<open>The tables\<close>

definition names_ok :: "builder \<Rightarrow> bool" where
  "names_ok s \<longleftrightarrow> (\<forall>nm b. basicBlocks s nm = Some b \<longrightarrow> (\<exists>B. mod_block (built_module s) b = Inr B \<and> bname B = nm))"

text \<open>An address has no intermediate block once it has a function.\<close>

definition apart :: "builder \<Rightarrow> bool" where
  "apart s \<longleftrightarrow> (\<forall>addr. functionMap s (''Function_'' @ addr) = None \<or> basicBlocks s (''Trans_'' @ addr) = None)"

lemma apartD: "apart s \<Longrightarrow> functionMap s (''Function_'' @ addr) = Some f \<Longrightarrow> basicBlocks s (''Trans_'' @ addr) = None"
  unfolding apart_def by (metis option.distinct(1))

definition builder_ok :: "builder \<Rightarrow> bool" where
  "builder_ok s \<longleftrightarrow> local_module (built_module s) \<and> names_ok s \<and> apart s"

definition same_block_state :: "builder \<Rightarrow> builder \<Rightarrow> bool" where
  "same_block_state s s' \<longleftrightarrow> targetMap s' = targetMap s \<and> hasImplicitTarget s' = hasImplicitTarget s
     \<and> currBlockAddr s' = currBlockAddr s \<and> nextBlockAddr s' = nextBlockAddr s"

lemma names_okD: "names_ok s \<Longrightarrow> basicBlocks s nm = Some b \<Longrightarrow> \<exists>B. mod_block (built_module s) b = Inr B \<and> bname B = nm"
  by (simp add: names_ok_def)

lemma names_keep: "names_ok s \<Longrightarrow> keeps_names (built_module s) M \<Longrightarrow> names_ok (s\<lparr>built_module := M\<rparr>)"
  unfolding names_ok_def keeps_names_def by simp metis

lemma apart_module [simp]: "apart (s\<lparr>built_module := M\<rparr>) \<longleftrightarrow> apart s"
  by (simp add: apart_def)

text \<open>The new function, before it gets its blocks.\<close>

lemma keeps_new_function:
  assumes "new_function nm s = (p, s')" and g: "local_module (built_module s)"
  shows "keeps_names (built_module s) (built_module s')"
proof -
  let ?M = "built_module s"
  let ?N = "?M\<lparr>mfuncs := mfuncs ?M @ [\<lparr>fid = p, fname = nm, fblocks = []\<rparr>]\<rparr>"
  have s': "built_module s' = add_blocks p [\<lparr>bid = new_bid ?N, bname = ''entry'', bins = []\<rparr>] ?N"
    using assms(1) by (auto simp: new_function_def Let_def)
  have d: "distinct (map bid (all_blocks ?M))" "distinct (map bid (all_blocks (built_module s')))"
    using g new_function_local(1) [OF assms] by (simp_all add: local_module_def wf_built_def)
  have "located ?M \<subseteq> located (built_module s')" unfolding s' by (auto simp: located_add) (auto simp: located_def)
  then have "set (all_blocks ?M) \<subseteq> set (all_blocks (built_module s'))" unfolding all_blocks_located by blast
  then show ?thesis unfolding keeps_names_def mod_block_distinct [OF d(1)] mod_block_distinct [OF d(2)] by blast
qed

lemma drop_trans_names:
  assumes "drop_trans b s = Inr s'" and n: "names_ok s" and b: "basicBlocks s nm = Some b" and w: "wf_built (built_module s)"
  shows "names_ok s'" and "basicBlocks s' = (basicBlocks s)(nm := None)" and "same_block_state s s'" and "functionMap s' = functionMap s"
proof -
  obtain T M where T: "mod_block (built_module s) b = Inr T" and M: "erase_block b (built_module s) = Inr M"
    and s': "s' = s\<lparr>basicBlocks := (basicBlocks s)(bname T := None), built_module := M\<rparr>"
    using assms(1) unfolding drop_trans_def rbind_eq_Inr by auto
  have nm: "bname T = nm" using names_okD [OF n b] T by auto
  have M': "M = remove_block b (built_module s)" using M by (auto simp: erase_block_def Let_def rbind_eq_Inr)
  show "basicBlocks s' = (basicBlocks s)(nm := None)" "same_block_state s s'" "functionMap s' = functionMap s" by (simp_all add: s' nm same_block_state_def)
  show "names_ok s'"
    unfolding names_ok_def
  proof (intro allI impI)
    fix nm' c assume "basicBlocks s' nm' = Some c"
    then have c: "basicBlocks s nm' = Some c" "nm' \<noteq> nm" by (simp_all add: s' nm split: if_splits)
    then obtain C where C: "mod_block (built_module s) c = Inr C" "bname C = nm'" using names_okD [OF n c(1)] by blast
    have "c \<noteq> b" using C T nm c(2) by auto
    then show "\<exists>C. mod_block (built_module s') c = Inr C \<and> bname C = nm'" using C remove_effect(2) [OF w] by (simp add: s' M')
  qed
qed

lemma take_over_names:
  assumes "take_over addr p head s = Inr s'" and g: "local_module (built_module s)" and n: "names_ok s"
  shows "names_ok s'" and "basicBlocks s' = (basicBlocks s)(''Trans_'' @ addr := None)" and "same_block_state s s'" and "functionMap s' = functionMap s"
proof -
  obtain b where b: "getBasicBlock (''Trans_'' @ addr) s = Some b" using assms(1) by (auto simp: take_over_def split: option.splits)
  obtain M1 ns where r: "relinkOldTransBasicBlock (''Function_'' @ addr) b (built_module s) = (M1, ns)" by fastforce
  obtain M2 M3 where m: "moveBasicBlocksToNewFunction head p M1 = Inr M2" and e: "rfold erase_ins ns M2 = Inr M3"
    and d: "drop_trans b (s\<lparr>built_module := M3\<rparr>) = Inr s'"
    using assms(1) unfolding take_over_def b option.case r prod.case rbind_eq_Inr by blast
  have w1: "wf_built M1" using relink_local(1) [OF r g] by (simp add: local_module_def)
  have "keeps_names (built_module s) M1" using r keeps_relink by (auto simp: relink_fold)
  also have "keeps_names M1 M2" using keeps_move [OF m [unfolded moveBasicBlocksToNewFunction_def] w1] .
  also have "keeps_names M2 M3" using e by (rule keeps_erase_each)
  finally have k: "names_ok (s\<lparr>built_module := M3\<rparr>)" using names_keep [OF n] by blast
  have w2: "wf_built M2"
    by (rule move_stack_keeps [where P = "\<lambda>_. True", THEN conjunct1, OF m [unfolded moveBasicBlocksToNewFunction_def] w1]) simp_all
  have w3: "wf_built (built_module (s\<lparr>built_module := M3\<rparr>))"
    using rfold_invariant [OF e, of wf_built] w2 wf_erase by simp
  have b': "basicBlocks (s\<lparr>built_module := M3\<rparr>) (''Trans_'' @ addr) = Some b" using b by (simp add: getBasicBlock_def)
  from drop_trans_names [OF d k b' w3]
  show "names_ok s'" "basicBlocks s' = (basicBlocks s)(''Trans_'' @ addr := None)" "same_block_state s s'" "functionMap s' = functionMap s"
    by (simp_all add: same_block_state_def)
qed

lemma take_over_trans_names:
  assumes "take_over_trans addr s = Inr s'" and g: "local_module (built_module s)" and n: "names_ok s"
  shows "names_ok s'" and "basicBlocks s' = (basicBlocks s)(''Trans_'' @ addr := None)" and "same_block_state s s'"
proof -
  have "names_ok s' \<and> basicBlocks s' = (basicBlocks s)(''Trans_'' @ addr := None) \<and> same_block_state s s'"
  proof (cases "getBasicBlock (''Trans_'' @ addr) s")
    case None
    then have "s' = s" using assms(1) by (simp add: take_over_trans_def)
    moreover have "basicBlocks s (''Trans_'' @ addr) = None" using None by (simp only: getBasicBlock_def)
    ultimately show ?thesis using n by (simp add: same_block_state_def fun_upd_idem)
  next
    case (Some b)
    obtain M1 ns where r: "relinkOldTransBasicBlock (''Function_'' @ addr) b (built_module s) = (M1, ns)" by fastforce
    obtain M2 where e: "rfold erase_ins ns M1 = Inr M2" and d: "drop_trans b (s\<lparr>built_module := M2\<rparr>) = Inr s'"
      using assms(1) unfolding take_over_trans_def Some option.case r prod.case rbind_eq_Inr by blast
    have w1: "wf_built M1" using relink_local(1) [OF r g] by (simp add: local_module_def)
    have "keeps_names (built_module s) M1" using r keeps_relink by (auto simp: relink_fold)
    also have "keeps_names M1 M2" using e by (rule keeps_erase_each)
    finally have k: "names_ok (s\<lparr>built_module := M2\<rparr>)" using names_keep [OF n] by blast
    have w2: "wf_built (built_module (s\<lparr>built_module := M2\<rparr>))"
      using rfold_invariant [OF e, of wf_built] w1 wf_erase by simp
    have b': "basicBlocks (s\<lparr>built_module := M2\<rparr>) (''Trans_'' @ addr) = Some b" using Some by (simp add: getBasicBlock_def)
    from drop_trans_names [OF d k b' w2] show ?thesis by (simp add: same_block_state_def)
  qed
  then show "names_ok s'" "basicBlocks s' = (basicBlocks s)(''Trans_'' @ addr := None)" "same_block_state s s'" by simp_all
qed

lemma names_okI: "names_ok s \<Longrightarrow> keeps_names (built_module s) (built_module s') \<Longrightarrow> basicBlocks s' = basicBlocks s \<Longrightarrow> names_ok s'"
  unfolding names_ok_def keeps_names_def by metis

lemma fake_function_names:
  assumes "fake_function addr p s = Inr s'" and n: "names_ok s"
  shows "names_ok s'" and "basicBlocks s' = basicBlocks s" and "same_block_state s s'"
proof -
  obtain f where f: "mod_func (built_module s) p = Inr f" using assms(1) unfolding fake_function_def rbind_eq_Inr by blast
  obtain E rest where E: "fblocks f = E # rest"
    using assms(1) unfolding fake_function_def f rbind_simps by (cases "fblocks f") simp_all
  let ?N = "append_to (bid E) false_ret (built_module s)"
  have s': "s' = s\<lparr>functionMap := (functionMap s)(''Function_'' @ addr := None, ''FakeFunction_'' @ addr := Some p),
       built_module := in_func p (\<lambda>f. f\<lparr>fname := ''FakeFunction_'' @ addr\<rparr>) ?N\<rparr>"
    using assms(1) unfolding fake_function_def f E rbind_simps list.case by simp
  have "map fblocks (mfuncs (in_func p (\<lambda>f. f\<lparr>fname := nm\<rparr>) ?N)) = map fblocks (mfuncs ?N)" for nm by (simp add: in_func_def)
  then have "all_blocks (in_func p (\<lambda>f. f\<lparr>fname := nm\<rparr>) ?N) = all_blocks ?N" for nm by (simp only: all_blocks_def)
  then have "keeps_names ?N (in_func p (\<lambda>f. f\<lparr>fname := nm\<rparr>) ?N)" for nm by (simp add: keeps_names_def mod_block_def)
  from keeps_trans [OF keeps_append this] have "keeps_names (built_module s) (in_func p (\<lambda>f. f\<lparr>fname := nm\<rparr>) ?N)" for nm .
  moreover have "built_module s' = in_func p (\<lambda>f. f\<lparr>fname := ''FakeFunction_'' @ addr\<rparr>) ?N" by (simp add: s')
  ultimately have k: "keeps_names (built_module s) (built_module s')" by (simp only:)
  show "basicBlocks s' = basicBlocks s" "same_block_state s s'" by (simp_all add: s' same_block_state_def)
  with names_okI [OF n k] show "names_ok s'" by simp
qed

lemma same_state_trans: "same_block_state s t \<Longrightarrow> same_block_state t u \<Longrightarrow> same_block_state s u"
  by (simp add: same_block_state_def)

lemma same_state_refl [simp]: "same_block_state s s"
  by (simp add: same_block_state_def)

lemma apart_made:
  assumes "apart s" and "functionMap s' = (functionMap s)(''Function_'' @ addr \<mapsto> q)"
    and "basicBlocks s' = (basicBlocks s)(''Trans_'' @ addr := None)"
  shows "apart s'"
  using assms(1) unfolding apart_def assms(2,3) by simp

lemma apart_fake:
  assumes "apart s" and "functionMap s' = (functionMap s)(''Function_'' @ addr := None, ''FakeFunction_'' @ addr := Some q)"
    and "basicBlocks s' = basicBlocks s"
  shows "apart s'"
  using assms(1) unfolding apart_def assms(2,3) by simp

lemma made_ok:
  assumes "getOrCreateFunction a s = Inr (p, s')" and ok: "builder_ok s"
  shows "builder_ok s'" and "same_block_state s s'"
    and "basicBlocks s' = basicBlocks s \<or> basicBlocks s' = (basicBlocks s)(name_at ''Trans_'' a := None)"
proof -
  let ?nm = "name_at ''Function_'' a"
  have o: "local_module (built_module s)" "names_ok s" "apart s" using ok by (simp_all add: builder_ok_def)
  have "names_ok s' \<and> apart s' \<and> same_block_state s s' \<and> (basicBlocks s' = basicBlocks s \<or> basicBlocks s' = (basicBlocks s)(name_at ''Trans_'' a := None))"
  proof (cases "functionMap s ?nm")
    case None
    obtain q s1 where n: "new_function ?nm s = (q, s1)" by fastforce
    note s1 = new_function_local [OF n o(1)]
    have n1: "names_ok s1" by (rule names_okI [OF o(2) keeps_new_function [OF n o(1)] s1(3)])
    have st: "same_block_state s s1" using n by (auto simp: new_function_def Let_def same_block_state_def)
    have rest: "rbind (case getBasicBlock (name_at ''BB_'' a) s1 of
              Some head \<Rightarrow> rbind (validateMove (built_module s1) head) (\<lambda>ok.
                if \<not> ok then fake_function (intToString a) q s1 else take_over (intToString a) q head s1)
            | None \<Rightarrow> take_over_trans (intToString a) s1) (\<lambda>s2. Inr (q, s2)) = Inr (p, s')"
      using assms(1) unfolding getOrCreateFunction_def Let_def None option.case n prod.case .
    from rest consider
        (fake) "fake_function (intToString a) q s1 = Inr s'"
      | (move) head where "take_over (intToString a) q head s1 = Inr s'"
      | (trans) "take_over_trans (intToString a) s1 = Inr s'"
      unfolding rbind_eq_Inr by (auto split: option.splits simp: rbind_eq_Inr split: if_splits)
    then show ?thesis
    proof cases
      case fake
      note f = fake_function_names [OF fake n1]
      have fm: "functionMap s' = (functionMap s)(?nm := None, name_at ''FakeFunction_'' a := Some q)"
        using fake_function_local(2) [OF fake s1(1)] s1(2) by simp
      have b: "basicBlocks s' = basicBlocks s" using f(2) s1(3) by simp
      show ?thesis using f(1) apart_fake [OF o(3) fm b] b same_state_trans [OF st f(3)] by blast
    next
      case move
      note f = take_over_names [OF move s1(1) n1]
      have fm: "functionMap s' = (functionMap s)(?nm \<mapsto> q)"
        using f(4) s1(2) by simp
      have b: "basicBlocks s' = (basicBlocks s)(name_at ''Trans_'' a := None)" using f(2) s1(3) by simp
      show ?thesis using f(1) apart_made [OF o(3) fm b] b same_state_trans [OF st f(3)] by blast
    next
      case trans
      note f = take_over_trans_names [OF trans s1(1) n1]
      have fm: "functionMap s' = (functionMap s)(?nm \<mapsto> q)" using take_over_trans_local(2) [OF trans s1(1)] s1(2) by simp
      have b: "basicBlocks s' = (basicBlocks s)(name_at ''Trans_'' a := None)" using f(2) s1(3) by simp
      show ?thesis using f(1) apart_made [OF o(3) fm b] b same_state_trans [OF st f(3)] by blast
    qed
  next
    case (Some q)
    then have "s' = s" using assms(1) by (simp add: getOrCreateFunction_def Let_def)
    with o show ?thesis by simp
  qed
  with made_function(1) [OF assms(1) o(1)]
  show "builder_ok s'" "same_block_state s s'"
    "basicBlocks s' = basicBlocks s \<or> basicBlocks s' = (basicBlocks s)(name_at ''Trans_'' a := None)"
    by (simp_all add: builder_ok_def)
qed

section \<open>Edges of a jump\<close>

lemma builder_okI:
  "builder_ok s \<Longrightarrow> local_module M \<Longrightarrow> keeps_names (built_module s) M \<Longrightarrow> builder_ok (s\<lparr>built_module := M\<rparr>)"
  by (simp add: builder_ok_def names_keep)

lemma same_state_module [simp]: "same_block_state s (s\<lparr>built_module := M\<rparr>)"
  by (simp add: same_block_state_def)

lemma keeps_add:
  assumes "wf_built M" and "wf_built (add_blocks p Bs M)"
  shows "keeps_names M (add_blocks p Bs M)"
proof -
  have d: "distinct (map bid (all_blocks M))" "distinct (map bid (all_blocks (add_blocks p Bs M)))"
    using assms by (simp_all add: wf_built_def)
  have "located M \<subseteq> located (add_blocks p Bs M)" by (auto simp: located_add)
  then have "set (all_blocks M) \<subseteq> set (all_blocks (add_blocks p Bs M))" unfolding all_blocks_located by blast
  then show ?thesis unfolding keeps_names_def mod_block_distinct [OF d(1)] mod_block_distinct [OF d(2)] by blast
qed

lemma new_block_ok:
  assumes "getOrCreateBasicBlock p nm s = (t, s')" and n: "names_ok s" and g: "local_module (built_module s)"
    and p: "p \<in> fid ` set (mfuncs (built_module s))"
  shows "names_ok s'" and "basicBlocks s' = (basicBlocks s)(nm \<mapsto> t)" and "functionMap s' = functionMap s" and "same_block_state s s'"
proof -
  let ?M = "built_module s" and ?e = "\<lparr>bid = new_bid (built_module s), bname = nm, bins = []\<rparr>"
  have "names_ok s' \<and> basicBlocks s' = (basicBlocks s)(nm \<mapsto> t) \<and> functionMap s' = functionMap s \<and> same_block_state s s'"
  proof (cases "basicBlocks s nm")
    case None
    then have s': "s' = s\<lparr>built_module := add_blocks p [?e] ?M, basicBlocks := (basicBlocks s)(nm \<mapsto> t)\<rparr>" "t = new_bid ?M"
      using assms(1) by (auto simp: getOrCreateBasicBlock_def Let_def)
    have wM: "wf_built ?M" using g by (simp add: local_module_def)
    have e: "bid ` set [?e] \<inter> bid ` set (all_blocks ?M) = {}" using new_bid_fresh [of ?M] by simp
    have w: "wf_built (add_blocks p [?e] ?M)" by (rule wf_add [OF wM p _ _ e]) simp_all
    have new: "mod_block (built_module s') t = Inr ?e" using add_blocks_effect(4) [OF wM w p e, of ?e] s' by simp
    have "names_ok (s\<lparr>built_module := add_blocks p [?e] ?M\<rparr>)" by (rule names_keep [OF n keeps_add [OF wM w]])
    then have "names_ok s'" using new unfolding names_ok_def s'(1) by (auto split: if_splits)
    then show ?thesis by (simp add: s' same_block_state_def)
  next
    case (Some b)
    then have "s' = s" "b = t" using assms(1) by (simp_all add: getOrCreateBasicBlock_def)
    with n Some show ?thesis by (simp add: fun_upd_idem)
  qed
  then show "names_ok s'" "basicBlocks s' = (basicBlocks s)(nm \<mapsto> t)" "functionMap s' = functionMap s" "same_block_state s s'" by simp_all
qed

lemma trans_block_ok:
  assumes "getOrCreateTransBasicBlock p a s = Inr (t, s')" and ok: "builder_ok s" and p: "p \<in> fid ` set (mfuncs (built_module s))"
  shows "builder_ok s'" and "same_block_state s s'"
proof -
  have o: "local_module (built_module s)" "names_ok s" "apart s" using ok by (simp_all add: builder_ok_def)
  obtain d s1 where d: "getOrCreateBasicBlock p (name_at ''Trans_'' a) s = (d, s1)" by fastforce
  obtain D where "(d, if terminator D = None then s1\<lparr>built_module := append_to d false_ret (built_module s1)\<rparr> else s1) = (t, s')"
    and none: "getFunction (name_at ''Function_'' a) s1 = None"
    using assms(1) unfolding getOrCreateTransBasicBlock_def d prod.case rbind_eq_Inr require_eq_Inr by blast
  then have s': "s' = s1 \<or> s' = s1\<lparr>built_module := append_to t false_ret (built_module s1)\<rparr>" by (auto split: if_splits)
  note e = new_block_ok [OF d o(2,1) p]
  have "names_ok s'" using s' names_keep [OF e(1) keeps_append] e(1) by auto
  moreover have fb: "functionMap s' = functionMap s" "basicBlocks s' = (basicBlocks s)(name_at ''Trans_'' a \<mapsto> d)"
    using s' e(2,3) by auto
  have "apart s'" using o(3) none unfolding apart_def fb getFunction_def e(3) by auto
  ultimately show "builder_ok s'" using trans_block_local(1) [OF assms(1) o(1) p] by (simp add: builder_ok_def)
  show "same_block_state s s'" using s' e(4) same_state_trans by auto
qed

lemma branch_to_ok:
  assumes "branch_to block (iid t) a s = Inr s'" and ok: "builder_ok s" and t: "term_of (built_module s) block = Inr t"
    and there: "\<not> in_other_function (name_at ''Trans_'' a) block s"
  shows "builder_ok s'" and "same_block_state s s'"
proof -
  have g: "local_module (built_module s)" using ok by (simp add: builder_ok_def)
  obtain p d s1 M where p: "block_parent block s = Inr p" and d: "getOrCreateTransBasicBlock p a s = Inr (d, s1)"
    and M: "replace_term (iid t) (Br d) (built_module s1) = Inr M" "s' = s1\<lparr>built_module := M\<rparr>"
    using assms(1) unfolding branch_to_def rbind_eq_Inr by (auto simp: rbind_eq_Inr)
  have pf: "p \<in> fid ` set (mfuncs (built_module s))"
    using p parent_fid(1) [OF g, of block p] by (auto simp: block_parent_def split: option.splits)
  note s1 = trans_block_ok [OF d ok pf]
  have "local_module M" using branch_to_local [OF assms(1) g t there] M(2) by simp
  then show "builder_ok s'" using builder_okI [OF s1(1) _ keeps_replace [OF M(1)]] M(2) by simp
  show "same_block_state s s'" using same_state_trans [OF s1(2)] M(2) by simp
qed

lemma call_function_ok:
  assumes "call_function n a s = Inr s'" and ok: "builder_ok s"
  shows "builder_ok s'" and "same_block_state s s'"
proof -
  obtain p s1 and f :: func where c: "getOrCreateFunction a s = Inr (p, s1)"
    and s': "s' = s1\<lparr>built_module := insert_before n (Call (FuncRef (fname f)) []) (built_module s1)\<rparr>"
    using assms(1) unfolding call_function_def rbind_eq_Inr by (auto simp: rbind_eq_Inr)
  note s1 = made_ok [OF c ok]
  show "builder_ok s'" unfolding s'
    by (rule builder_okI [OF s1(1) local_insert keeps_insert]) (use s1(1) in \<open>simp add: builder_ok_def\<close>)
  show "same_block_state s s'" using same_state_trans [OF s1(2)] by (simp add: s')
qed

lemma tail_call_ok:
  assumes "tail_call_edge block a s = Inr s'" and ok: "builder_ok s"
  shows "builder_ok s'" and "same_block_state s s'"
proof -
  obtain t :: instr and s1 M where c: "call_function (iid t) a s = Inr s1"
    and M: "replace_term (iid t) false_ret (built_module s1) = Inr M" "Inr (s1\<lparr>built_module := M\<rparr>) = (Inr s' :: builder res)"
    using assms(1) unfolding tail_call_edge_def rbind_eq_Inr by blast
  note s1 = call_function_ok [OF c ok]
  have "local_module M" using local_replace [OF _ M(1)] s1(1) by (simp add: builder_ok_def)
  then show "builder_ok s'" using builder_okI [OF s1(1) _ keeps_replace [OF M(1)]] M(2) by auto
  show "same_block_state s s'" using same_state_trans [OF s1(2) same_state_module] M(2) by auto
qed

lemma direct_edge_ok:
  assumes "createDirectEdge block a s = Inr s'" and ok: "builder_ok s"
  shows "builder_ok s'" and "same_block_state s s'"
proof -
  have "builder_ok s' \<and> same_block_state s s'"
  proof (cases "getFunction (name_at ''Function_'' a) s \<noteq> None
      \<or> in_other_function (name_at ''BB_'' a) block s \<or> in_other_function (name_at ''Trans_'' a) block s")
    case True
    then have "tail_call_edge block a s = Inr s'" using assms(1) unfolding createDirectEdge_def createCallEdge_def by simp
    then show ?thesis using tail_call_ok ok by blast
  next
    case False
    then obtain t where "term_of (built_module s) block = Inr t" "branch_to block (iid t) a s = Inr s'"
      using assms(1) unfolding createDirectEdge_def by (auto simp: rbind_eq_Inr)
    then show ?thesis using branch_to_ok ok False by blast
  qed
  then show "builder_ok s'" "same_block_state s s'" by simp_all
qed

lemma indirect_edge_ok:
  assumes "createIndirectEdge block s = Inr s'" and ok: "builder_ok s"
  shows "builder_ok s'" and "same_block_state s s'"
proof -
  obtain t :: instr and M where M: "replace_term (iid t) false_ret (built_module s) = Inr M"
    "Inr (s\<lparr>built_module := M\<rparr>) = (Inr s' :: builder res)"
    using assms(1) unfolding createIndirectEdge_def at_term_def rbind_eq_Inr by blast
  have "local_module M" using local_replace [OF _ M(1)] ok by (simp add: builder_ok_def)
  then show "builder_ok s'" using builder_okI [OF ok _ keeps_replace [OF M(1)]] M(2) by auto
  show "same_block_state s s'" using M(2) by auto
qed

lemma jump_edge_ok:
  assumes "jump_edge VMap b s = Inr s'" and "builder_ok s"
  shows "builder_ok s'" and "same_block_state s s'"
  using assms direct_edge_ok indirect_edge_ok by (auto simp: jump_edge_def rbind_eq_Inr split: option.splits)

lemma jump_edges_ok: "rfold (jump_edge VMap) ts s = Inr s' \<Longrightarrow> builder_ok s \<Longrightarrow> builder_ok s'"
  by (rule rfold_invariant [where P = builder_ok]) (auto intro: jump_edge_ok)

section \<open>One block\<close>

text \<open>
  What \<open>CloneFunctionInto\<close> promises: copies with addresses of their own, branches that lead to copies, and a map
  that leads to copies.
\<close>

definition clones :: "build_clone \<Rightarrow> func \<Rightarrow> bool" where
  "clones clone F \<longleftrightarrow> (\<forall>M Bs VMap. clone M F = (Bs, VMap) \<longrightarrow>
     distinct (map bid Bs) \<and> distinct (concat (map ids_of Bs))
     \<and> bid ` set Bs \<inter> bid ` set (all_blocks M) = {} \<and> set (concat (map ids_of Bs)) \<inter> set (mod_ids M) = {}
     \<and> (\<forall>B \<in> set Bs. \<forall>t y. terminator B = Some t \<longrightarrow> y \<in> set (succ_ids (ikind t)) \<longrightarrow> y \<in> bid ` set Bs)
     \<and> ran VMap \<subseteq> bid ` set Bs)"

text \<open>Whether the scan of the block finds the return address stored to \<open>LR\<close>.\<close>

definition ends_in_call :: "(val \<Rightarrow> string) \<Rightarrow> func \<Rightarrow> builder \<Rightarrow> bool" where
  "ends_in_call getName F s = (case rfold (scan_block getName F) (fblocks F)
       (s\<lparr>targetMap := Map.empty, hasImplicitTarget := False\<rparr>, []) of
     Inl _ \<Rightarrow> False | Inr (s1, _) \<Rightarrow> hasImplicitTarget s1)"

definition scan_only :: "builder \<Rightarrow> builder \<Rightarrow> bool" where
  "scan_only s s' \<longleftrightarrow> built_module s' = built_module s \<and> basicBlocks s' = basicBlocks s \<and> functionMap s' = functionMap s
     \<and> currBlockAddr s' = currBlockAddr s"

lemma scan_frame:
  assumes "rfold (scan_block getName F) Bs (s, ts) = Inr (s', ts')"
  shows "scan_only s s'"
proof -
  have ins: "scan_only s u" if "rfold (scan_ins getName F b) is t = Inr u" "scan_only s t" for b "is" t u
    by (rule rfold_invariant [where P = "scan_only s", OF that])
      (auto simp: scan_ins_def scan_only_def rbind_eq_Inr Let_def split: ikind.splits)
  have "scan_only s (fst (s', ts'))"
    by (rule rfold_invariant [where P = "\<lambda>st. scan_only s (fst st)", OF assms])
      (auto simp: scan_block_def rbind_eq_Inr scan_only_def [of s s] split: if_splits intro: ins)
  then show ?thesis by simp
qed

lemma entry_exists:
  assumes "local_module M" and "parent_of M x = Some p"
  shows "\<exists>e. entry_of M p = Some e \<and> parent_of M e = Some p"
proof -
  have u: "uniq M" using assms(1) wf_uniq by (simp add: local_module_def)
  obtain f B where f: "f \<in> set (mfuncs M)" "fid f = p" "B \<in> set (fblocks f)"
    using assms(2) by (auto simp: parent_of_iff [OF u] located_iff)
  then obtain h where h: "find (\<lambda>f. fid f = p) (mfuncs M) = Some h"
    by (cases "find (\<lambda>f. fid f = p) (mfuncs M)") (auto simp: find_None_iff)
  have "h = f" using find_mem [OF h] f assms(1) by (auto simp: local_module_def wf_built_def distinct_map dest: inj_onD)
  then have m: "mod_func M p = Inr f" using h by (simp add: mod_func_def)
  obtain E rest where "fblocks f = E # rest" using f(3) by (cases "fblocks f") auto
  with entry_parent [OF u m, of E] m show ?thesis by (auto simp: entry_of_iff)
qed

definition has_body :: "builder \<Rightarrow> nat \<Rightarrow> bool" where
  "has_body s p \<longleftrightarrow> (\<exists>x. parent_of (built_module s) x = Some p)"

lemma parent_found:
  assumes "findParentFunction s = Inr (p, s')" and ok: "builder_ok s"
    and no_bb: "getBasicBlock (name_at ''BB_'' (currBlockAddr s)) s = None"
    and body: "\<And>f. getFunction (name_at ''Function_'' (currBlockAddr s)) s = Some f \<Longrightarrow> has_body s f"
  shows "builder_ok s'" and "same_block_state s s'" and "has_body s' p"
    and "getBasicBlock (name_at ''Trans_'' (currBlockAddr s)) s' = Some b \<Longrightarrow> parent_of (built_module s') b = Some p"
proof -
  let ?a = "currBlockAddr s"
  have "builder_ok s' \<and> same_block_state s s' \<and> has_body s' p
    \<and> (\<forall>b. getBasicBlock (name_at ''Trans_'' ?a) s' = Some b \<longrightarrow> parent_of (built_module s') b = Some p)"
  proof (cases "getFunction (name_at ''Function_'' ?a) s")
    case (Some f)
    then have "s' = s" "p = f" using assms(1) by (simp_all add: findParentFunction_def)
    moreover have "getBasicBlock (name_at ''Trans_'' ?a) s = None"
      using ok apartD [of s "intToString ?a"] Some unfolding builder_ok_def getBasicBlock_def getFunction_def by blast
    ultimately show ?thesis using ok body [OF Some] by simp
  next
    case none: None
    show ?thesis
    proof (cases "getBasicBlock (name_at ''Trans_'' ?a) s")
      case (Some b)
      then have "block_parent b s = Inr p" "s' = s" using assms(1) unfolding findParentFunction_def none Some by (auto simp: rbind_eq_Inr)
      then show ?thesis using ok Some by (auto simp: block_parent_def has_body_def split: option.splits)
    next
      case None
      then have m: "getOrCreateFunction ?a s = Inr (p, s')" using assms(1) unfolding findParentFunction_def none None by simp
      obtain q s1 where n: "new_function (name_at ''Function_'' ?a) s = (q, s1)" by fastforce
      have g: "local_module (built_module s)" using ok by (simp add: builder_ok_def)
      note s1 = new_function_local [OF n g]
      have tabs: "getBasicBlock nm s1 = getBasicBlock nm s" for nm using s1(3) by (simp add: getBasicBlock_def)
      have f: "functionMap s (name_at ''Function_'' ?a) = None" using none by (simp only: getFunction_def)
      have "p = q" "s' = s1"
        using m unfolding getOrCreateFunction_def Let_def f option.case n prod.case tabs no_bb take_over_trans_def None rbind_simps by simp_all
      then have "has_body s' p" using s1(4) by (simp add: has_body_def)
      moreover have "getBasicBlock (name_at ''Trans_'' ?a) s' = None" using tabs None \<open>s' = s1\<close> by simp
      ultimately show ?thesis using made_ok(1,2) [OF m ok] by simp
    qed
  qed
  then show "builder_ok s'" "same_block_state s s'" "has_body s' p"
    "getBasicBlock (name_at ''Trans_'' ?a) s' = Some b \<Longrightarrow> parent_of (built_module s') b = Some p" by simp_all
qed

text \<open>Declaring what the block mentions leaves the blocks alone.\<close>

definition same_graph :: "lmodule \<Rightarrow> lmodule \<Rightarrow> bool" where
  "same_graph M N \<longleftrightarrow> local_module N \<and> all_blocks N = all_blocks M \<and> (\<forall>x. parent_of N x = parent_of M x)
     \<and> (\<forall>p f. mod_func M p = Inr f \<longrightarrow> mod_func N p = Inr f)"

lemma find_append_some: "find P xs = Some x \<Longrightarrow> find P (xs @ ys) = Some x"
  by (induction xs) auto

lemma same_graph_operand:
  assumes "same_graph M N"
  shows "same_graph M (copy_operand v N)"
proof -
  have g: "local_module N" using assms by (simp add: same_graph_def)
  have glob: "local_module (N\<lparr>mglobals := gs\<rparr>)" "all_blocks (N\<lparr>mglobals := gs\<rparr>) = all_blocks N"
    "parent_of (N\<lparr>mglobals := gs\<rparr>) x = parent_of N x" "mod_func (N\<lparr>mglobals := gs\<rparr>) p = mod_func N p" for gs x p
    using g by (simp_all add: local_module_def wf_built_def local_branches_def branches_iff mod_block_def all_blocks_def
        parent_of_def mod_func_def mod_ids_def)
  let ?K = "\<lambda>nm. N\<lparr>mfuncs := mfuncs N @ [\<lparr>fid = fresh_fid N, fname = nm, fblocks = []\<rparr>]\<rparr>"
  have b: "all_blocks (?K nm) = all_blocks N" for nm by (simp add: all_blocks_def)
  have par: "parent_of (?K nm) x = parent_of N x" for nm x by (simp add: parent_of_def find_snoc)
  have "wf_built (?K nm)" for nm using g fresh_fid_mod [of N] by (simp add: wf_built_def local_module_def mod_ids_blocks b)
  then have "local_module (?K nm)" for nm by (rule local_moduleI [OF _ par g]) (auto simp: branches_iff mod_block_def b)
  moreover have "mod_func (?K nm) p = Inr f" if "mod_func N p = Inr f" for nm p f
    using that by (auto simp: mod_func_def find_append_some split: option.splits)
  ultimately show ?thesis using assms g glob b par
    by (simp add: same_graph_def copy_operand_def getOrInsertGlobal_def getOrInsertFunction_def split: val.splits)
qed

lemma same_graph_operands: "same_graph M N \<Longrightarrow> same_graph M (fold copy_operand vs N)"
  by (induction vs arbitrary: N) (simp_all add: same_graph_operand)

lemma same_graph_copy: "local_module M \<Longrightarrow> same_graph M (copyGlobalReferences F M)"
proof -
  have "same_graph M (fold (\<lambda>i. fold copy_operand (operands (ikind i))) is N)" if "same_graph M N" for N and "is" :: "instr list"
    using that by (induction "is" arbitrary: N) (simp_all add: same_graph_operands)
  then show "local_module M \<Longrightarrow> ?thesis" unfolding copyGlobalReferences_def by (simp add: same_graph_def)
qed

lemma declare_ok:
  assumes "builder_ok s"
  shows "builder_ok (declare_globals F s)" and "same_graph (built_module s) (built_module (declare_globals F s))"
proof -
  have g: "same_graph (built_module s) (copyGlobalReferences F (built_module s))"
    using same_graph_copy assms by (simp add: builder_ok_def)
  then show "same_graph (built_module s) (built_module (declare_globals F s))" by (simp add: declare_globals_def)
  have "keeps_names (built_module s) (copyGlobalReferences F (built_module s))"
    using g by (simp add: same_graph_def keeps_names_def mod_block_def)
  then show "builder_ok (declare_globals F s)" unfolding declare_globals_def
    using builder_okI [OF assms] g by (simp add: same_graph_def)
qed

text \<open>The copies go to the end of the function, and the first of them gets the name of the block.\<close>

lemma entry_map_mod: "(\<And>B. bid (g B) = bid B) \<Longrightarrow> entry_of M p = Some e \<Longrightarrow> entry_of (map_mod g M) p = Some e"
proof -
  assume b: "\<And>B. bid (g B) = bid B" and "entry_of M p = Some e"
  then obtain f E rest where f: "mod_func M p = Inr f" "fblocks f = E # rest" "bid E = e" by (auto simp: entry_of_iff)
  have "mod_func (map_mod g M) p = Inr (map_blocks g f)"
    by (rule mod_func_map [OF _ _ f(1)]) (simp_all add: map_mod_def map_blocks_def)
  then show ?thesis using f(2,3) b by (simp add: entry_of_iff map_blocks_def)
qed

lemma entry_add:
  assumes "entry_of M p = Some e"
  shows "entry_of (add_blocks q Bs M) p = Some e"
proof -
  obtain f E rest where f: "mod_func M p = Inr f" "fblocks f = E # rest" "bid E = e" using assms by (auto simp: entry_of_iff)
  have "mod_func (add_blocks q Bs M) p = Inr (if fid f = q then f\<lparr>fblocks := fblocks f @ Bs\<rparr> else f)"
    by (rule mod_func_map [OF _ _ f(1)]) (simp_all add: add_blocks_def in_func_def)
  then show ?thesis using f(2,3) by (simp add: entry_of_iff)
qed

lemma clones_placed:
  assumes c: "clones clone F" and "clone (built_module s) F = (Bs, VMap)" and ok: "builder_ok s"
    and p: "p \<in> fid ` set (mfuncs (built_module s))" and v: "VMap b = Some fb"
    and s': "s' = s\<lparr>built_module := rename_block fb nm (add_blocks p Bs (built_module s)), basicBlocks := (basicBlocks s)(nm \<mapsto> fb)\<rparr>"
    and nm: "\<And>addr. nm \<noteq> ''Trans_'' @ addr"
  shows "builder_ok s'" and "parent_of (built_module s') fb = Some p" and "fb \<notin> bid ` set (all_blocks (built_module s))"
    and "x \<in> bid ` set (all_blocks (built_module s)) \<Longrightarrow> parent_of (built_module s') x = parent_of (built_module s) x"
    and "\<exists>B. mod_block (built_module s') fb = Inr B \<and> bname B = nm"
    and "entry_of (built_module s) q = Some e \<Longrightarrow> entry_of (built_module s') q = Some e"
proof -
  let ?M = "built_module s" and ?g = "\<lambda>B. if bid B = fb then B\<lparr>bname := nm\<rparr> else B"
  let ?A = "add_blocks p Bs ?M"
  have cl: "distinct (map bid Bs)" "distinct (concat (map ids_of Bs))" "bid ` set Bs \<inter> bid ` set (all_blocks ?M) = {}"
    "set (concat (map ids_of Bs)) \<inter> set (mod_ids ?M) = {}" "ran VMap \<subseteq> bid ` set Bs"
    and br: "\<And>B t y. B \<in> set Bs \<Longrightarrow> terminator B = Some t \<Longrightarrow> y \<in> set (succ_ids (ikind t)) \<Longrightarrow> y \<in> bid ` set Bs"
    using c assms(2) unfolding clones_def by metis+
  have g: "local_module ?M" "wf_built ?M" using ok by (simp_all add: builder_ok_def local_module_def)
  have w: "wf_built ?A" by (rule wf_add [OF g(2) p cl(1-4)])
  have "fb \<in> ran VMap" using v by (rule ranI)
  then have fb: "fb \<in> bid ` set Bs" using cl(5) by blast
  then show new: "fb \<notin> bid ` set (all_blocks ?M)" using cl(3) by blast
  have lA: "local_module ?A" by (rule local_add [OF g(1) w p cl(3) br]) (use branch_blocks(2) [OF g(1)] cl(3) in auto)
  have M': "built_module s' = map_mod ?g ?A" by (simp add: s' rename_block_def)
  have w': "wf_built (map_mod ?g ?A)"
    by (rule wf_map_mod [OF w _ new_iid_fresh]) (use wf_block_ids [OF w] new_iid_block in auto)
  have par: "parent_of (map_mod ?g ?A) x = parent_of ?A x" for x by (rule parent_map_mod) simp
  have l': "local_module (map_mod ?g ?A)"
    by (rule local_moduleI [OF w' par lA], subst (asm) branches_map_mod) (auto simp: branches_iff terminator_def split: if_splits)
  note e = add_blocks_effect [OF g(2) w p cl(3)]
  show "parent_of (built_module s') fb = Some p" using e(2) [OF fb] par M' by simp
  show "parent_of (built_module s') x = parent_of ?M x" if "x \<in> bid ` set (all_blocks ?M)"
  proof -
    have "x \<notin> bid ` set Bs" using that cl(3) by blast
    then show ?thesis using e(1) par M' by simp
  qed
  obtain B where B: "mod_block ?A fb = Inr B" using e(4) fb by blast
  have "bid B = fb" using mod_block_id [OF B] by simp
  then have named: "mod_block (built_module s') fb = Inr (B\<lparr>bname := nm\<rparr>)" by (simp add: M' mod_block_map_mod B)
  then show "\<exists>B. mod_block (built_module s') fb = Inr B \<and> bname B = nm" by simp
  have "names_ok s'"
    unfolding names_ok_def
  proof (intro allI impI)
    fix nm' b assume a: "basicBlocks s' nm' = Some b"
    show "\<exists>B. mod_block (built_module s') b = Inr B \<and> bname B = nm'"
    proof (cases "nm' = nm")
      case True
      then show ?thesis using a named by (simp add: s')
    next
      case False
      then have "basicBlocks s nm' = Some b" using a by (simp add: s')
      then obtain B where B: "mod_block ?M b = Inr B" "bname B = nm'" using ok names_okD [of s] unfolding builder_ok_def by blast
      have old: "b \<in> bid ` set (all_blocks ?M)" using mod_block_id [OF B(1)] by auto
      then have "b \<notin> bid ` set Bs" "b \<noteq> fb" using cl(3) new by auto
      then show ?thesis using e(3) B mod_block_id [OF B(1)] by (simp add: M' mod_block_map_mod)
    qed
  qed
  moreover have "apart s'" using ok nm by (simp add: apart_def builder_ok_def s') metis
  ultimately show "builder_ok s'" using l' M' by (simp add: builder_ok_def)
  show "entry_of (built_module s') q = Some e" if "entry_of ?M q = Some e"
    unfolding M' by (rule entry_map_mod [OF _ entry_add [OF that]]) simp
qed

text \<open>The link to the first block.\<close>

lemma branches_append_other: "x \<noteq> b \<Longrightarrow> branches (append_to b k M) x y = branches M x y"
  unfolding append_to_def by (subst branches_map_mod) (auto simp: branches_iff dest: mod_block_id)

lemma branches_append_at:
  "mod_block M b = Inr B \<Longrightarrow> is_term_kind k \<Longrightarrow> branches (append_to b k M) b y \<longleftrightarrow> y \<in> set (succ_ids k)"
  unfolding append_to_def by (subst branches_map_mod) (auto simp: terminator_def dest: mod_block_id)

lemma local_link:
  assumes "local_module M" and "term_of M b = Inr t" and "erase_ins (iid t) M = Inr N" and "parent_of M fb = parent_of M b"
  shows "local_module (append_to b (Br fb) N)" and "branches (append_to b (Br fb) N) b fb"
proof -
  have w: "wf_built M" "wf_built N" using assms(1) wf_erase assms(3) by (auto simp: local_module_def)
  have N: "N = map_mod (without (iid t)) M" by (rule erase_ins_map [OF assms(3)])
  obtain B where B: "mod_block M b = Inr B" "terminator B = Some t"
    using assms(2) by (auto simp: term_of_def rbind_eq_Inr split: option.splits)
  then have tB: "iid t \<in> set (ids_of B)" by (auto simp: terminator_def split: if_splits)
  have NB: "mod_block N b = Inr (without (iid t) B)" by (simp add: N mod_block_map_mod B)
  note at = branches_append_at [OF NB, of "Br fb"]
  show "branches (append_to b (Br fb) N) b fb" by (simp add: at)
  show "local_module (append_to b (Br fb) N)"
  proof (rule local_moduleI [OF wf_append [OF w(2)] _ assms(1)])
    show "parent_of (append_to b (Br fb) N) x = parent_of M x" for x using parent_erase [OF assms(3)] by simp
    fix x y assume xy: "branches (append_to b (Br fb) N) x y"
    show "branches M x y \<or> parent_of M x = parent_of M y"
    proof (cases "x = b")
      case True
      then show ?thesis using xy at assms(4) by simp
    next
      case False
      then have "branches N x y" using xy branches_append_other by simp
      then obtain C u where C: "mod_block M x = Inr C" "terminator (without (iid t) C) = Some u" "y \<in> set (succ_ids (ikind u))"
        unfolding N by (subst (asm) branches_map_mod) auto
      have "iid t \<notin> set (ids_of C)" using same_block [OF w(1) B(1) tB C(1)] False by blast
      then have "iid t \<notin> iid ` set (bins C)" by simp
      then have "\<forall>i \<in> set (bins C). iid i \<noteq> iid t" by (metis imageI)
      then have "without (iid t) C = C" by (simp add: filter_id_conv)
      then show ?thesis using C by (auto simp: branches_iff)
    qed
  qed
qed

lemma link_first_ok:
  assumes "link_first fb p s = Inr s'" and ok: "builder_ok s" and fb: "parent_of (built_module s) fb = Some p"
    and trans: "\<And>b. getBasicBlock (name_at ''Trans_'' (currBlockAddr s)) s = Some b \<Longrightarrow> parent_of (built_module s) b = Some p \<and> b \<noteq> fb"
    and e: "entry_of (built_module s) p = Some e" "e \<noteq> fb"
  shows "builder_ok s'" and "same_block_state s s'" and "parent_of (built_module s') x = parent_of (built_module s) x"
    and "entry_of (built_module s') p = Some e" and "keeps_names (built_module s) (built_module s')"
    and "\<exists>b. b \<noteq> fb \<and> parent_of (built_module s') b = Some p \<and> branches (built_module s') b fb"
proof -
  let ?M = "built_module s"
  have g: "local_module ?M" "uniq ?M" using ok wf_uniq by (auto simp: builder_ok_def local_module_def)
  have "\<exists>M. s' = s\<lparr>built_module := M\<rparr> \<and> local_module M \<and> (\<forall>x. parent_of M x = parent_of ?M x) \<and> entry_of M p = Some e
    \<and> keeps_names ?M M \<and> (\<exists>b. b \<noteq> fb \<and> parent_of M b = Some p \<and> branches M b fb)"
  proof (cases "getBasicBlock (name_at ''Trans_'' (currBlockAddr s)) s")
    case None
    obtain f E rest where f: "mod_func ?M p = Inr f" "fblocks f = E # rest" "bid E = e" using e(1) by (auto simp: entry_of_iff)
    have s': "s' = s\<lparr>built_module := append_to e (Br fb) ?M\<rparr>"
      using assms(1) unfolding link_first_def None option.case f rbind_simps list.case by simp
    have pe: "parent_of ?M e = Some p" using entry_parent [OF g(2) f(1), of E] f(2,3) by simp
    then obtain B where B: "mod_block ?M e = Inr B" by (auto simp: parent_of_iff [OF g(2)] mod_block_iff [OF g(2)])
    have "local_module (append_to e (Br fb) ?M)" by (rule local_append [OF g(1)]) (simp add: pe fb)
    moreover have "branches (append_to e (Br fb) ?M) e fb" by (simp add: branches_append_at [OF B])
    ultimately show ?thesis using s' pe e entry_append [OF e(1)] keeps_append
      by (intro exI [of _ "append_to e (Br fb) ?M"]) auto
  next
    case (Some b)
    obtain t N where t: "term_of ?M b = Inr t" "erase_ins (iid t) ?M = Inr N" and s': "s' = s\<lparr>built_module := append_to b (Br fb) N\<rparr>"
      using assms(1) unfolding link_first_def Some option.case rbind_eq_Inr by auto
    have b: "parent_of ?M b = Some p" "b \<noteq> fb" using trans [OF Some] by simp_all
    have "parent_of ?M fb = parent_of ?M b" using b(1) fb by simp
    note l = local_link [OF g(1) t this]
    have "entry_of N p = Some e" unfolding erase_ins_map [OF t(2)] by (rule entry_map_mod [OF _ e(1)]) simp
    then have "entry_of (append_to b (Br fb) N) p = Some e" by (rule entry_append)
    then show ?thesis using s' l b parent_erase [OF t(2)] keeps_trans [OF keeps_erase [OF t(2)] keeps_append]
      by (intro exI [of _ "append_to b (Br fb) N"]) auto
  qed
  then obtain M where M: "s' = s\<lparr>built_module := M\<rparr>" "local_module M" "\<And>x. parent_of M x = parent_of ?M x" "entry_of M p = Some e"
    "keeps_names ?M M" "\<exists>b. b \<noteq> fb \<and> parent_of M b = Some p \<and> branches M b fb" by blast
  then show "builder_ok s'" "same_block_state s s'" "parent_of (built_module s') x = parent_of ?M x"
    "entry_of (built_module s') p = Some e" "keeps_names ?M (built_module s')"
    "\<exists>b. b \<noteq> fb \<and> parent_of (built_module s') b = Some p \<and> branches (built_module s') b fb"
    using builder_okI [OF ok M(2,5)] by simp_all
qed

text \<open>The first block moves inside its function only.\<close>

lemma first_move:
  assumes "moveBasicBlockToNewFunction fb p M = Inr M'" and g: "local_module M" and fb: "parent_of M fb = Some p"
    and B: "mod_block M fb = Inr B" "strstr (bname B) ''BB_''"
    and src: "src \<noteq> fb" "parent_of M src = Some p" "branches M src fb" and e: "entry_of M p = Some e" "e \<noteq> fb"
  shows "local_module M'" and "keeps_names M M'"
proof -
  have w: "wf_built M" "uniq M" using g wf_uniq by (auto simp: local_module_def)
  obtain f E rest where f: "mod_func M p = Inr f" "fblocks f = E # rest" "bid E = e" using e(1) by (auto simp: entry_of_iff)
  have pe: "parent_of M e = Some p" using entry_parent [OF w(2) f(1), of E] f(2,3) by simp
  let ?link = "append_to e (Br fb) M"
  have "\<exists>pos N. move_after fb pos p N = Inr M' \<and> (N = M \<and> pos = src \<or> N = ?link \<and> pos = e)"
  proof (cases "\<exists>tb n. uses_of M fb = [(tb, n)] \<and> parent_of M tb = Some p")
    case True
    then obtain tb n where u: "uses_of M fb = [(tb, n)]" "parent_of M tb = Some p" by blast
    have "tb = src" using branch_is_use [OF src(3)] u(1) by auto
    then show ?thesis using assms(1) u unfolding moveBasicBlockToNewFunction_def B(1) f(1) by (auto simp: f(2) B(2) Let_def)
  next
    case False
    then have "move_after fb e p ?link = Inr M'"
      using assms(1) f(3) unfolding moveBasicBlockToNewFunction_def B(1) f(1)
      by (auto simp: f(2) B(2) Let_def split: list.splits prod.splits if_splits)
    then show ?thesis by blast
  qed
  then obtain pos N where m: "move_after fb pos p N = Inr M'" and N: "N = M \<and> pos = src \<or> N = ?link \<and> pos = e" by blast
  have "local_module ?link" by (rule local_append [OF g]) (simp add: pe fb)
  then have gN: "local_module N" "wf_built N" "uniq N" using N g wf_uniq by (auto simp: local_module_def)
  have pos: "parent_of N pos = Some p" "pos \<noteq> fb" using N src pe e(2) by auto
  have kN: "keeps_names M N" using N keeps_append by auto
  have pfb: "parent_of N fb = Some p" using N fb by auto
  note mv = moved_effect [OF m gN(3) pos] and mw = wf_move [OF m gN(2) pos]
  have par: "parent_of M' x = parent_of N x" for x using mv(3) pfb by simp
  show "local_module M'"
    by (rule local_moduleI [OF mw(1) par gN(1)]) (use branches_same [OF mv(2)] in blast)
  show "keeps_names M M'" by (rule keeps_trans [OF kN keeps_mset [OF gN(2) mw(2)]])
qed

lemma make_edges_jump: "\<not> hasImplicitTarget s \<Longrightarrow> make_edges VMap ts s = rfold (jump_edge VMap) ts s"
proof -
  have "rfold (jump_edge VMap) [] = Inr" by (rule ext) simp
  then show "\<not> hasImplicitTarget s \<Longrightarrow> ?thesis" by (simp add: make_edges_def split: list.splits)
qed

lemma block_name_not_trans: "name_at ''BB_'' a \<noteq> ''Trans_'' @ x"
  by simp

lemma block_name_BB: "strstr (name_at ''BB_'' a) ''BB_''"
  by (simp add: startswith_def)

lemma same_graph_entry: "same_graph M N \<Longrightarrow> entry_of M p = Some e \<Longrightarrow> entry_of N p = Some e"
  unfolding same_graph_def entry_of_iff by blast

lemma build_block_ok:
  assumes b: "build_block clone getName F s = Inr s'" and cl: "clones clone F" and ok: "builder_ok s"
    and no_bb: "getBasicBlock (name_at ''BB_'' (currBlockAddr s)) s = None" and nc: "\<not> ends_in_call getName F s"
    and body: "\<And>f. getFunction (name_at ''Function_'' (currBlockAddr s)) s = Some f \<Longrightarrow> has_body s f"
  shows "builder_ok s'"
proof -
  let ?a = "currBlockAddr s" and ?bb = "name_at ''BB_'' (currBlockAddr s)"
  let ?s0 = "s\<lparr>targetMap := Map.empty, hasImplicitTarget := False\<rparr>"
  obtain s1 ts where sc: "rfold (scan_block getName F) (fblocks F) (?s0, []) = Inr (s1, ts)"
    using b unfolding build_block_def Let_def rbind_eq_Inr by (auto simp: rbind_eq_Inr)
  obtain p s2 where fp: "findParentFunction s1 = Inr (p, s2)"
    using b unfolding build_block_def Let_def sc rbind_simps prod.case rbind_eq_Inr by auto
  let ?s3 = "declare_globals F s2"
  obtain Bs VMap where c: "clone (built_module ?s3) F = (Bs, VMap)" by fastforce
  obtain en rest where en: "fblocks F = en # rest"
    using b unfolding build_block_def Let_def sc rbind_simps prod.case fp c by (cases "fblocks F") simp_all
  obtain fb where fb: "mapped VMap (bid en) = Inr fb"
    using b unfolding build_block_def Let_def sc rbind_simps prod.case fp c unfolding en list.case rbind_eq_Inr by auto
  let ?s4 = "?s3\<lparr>built_module := rename_block fb ?bb (add_blocks p Bs (built_module ?s3)), basicBlocks := (basicBlocks ?s3)(?bb \<mapsto> fb)\<rparr>"
  obtain s5 M where l: "link_first fb p ?s4 = Inr s5" and m: "moveBasicBlockToNewFunction fb p (built_module s5) = Inr M"
    and j: "make_edges VMap ts (s5\<lparr>built_module := M\<rparr>) = Inr s'"
    using b unfolding build_block_def Let_def sc rbind_simps prod.case fp c unfolding en list.case fb rbind_simps rbind_eq_Inr by auto
  have f1: "scan_only ?s0 s1" using scan_frame [OF sc] .
  have tabs: "getBasicBlock nm s1 = getBasicBlock nm s" "getFunction nm s1 = getFunction nm s" "currBlockAddr s1 = ?a"
    "built_module s1 = built_module s" for nm using f1 by (simp_all add: scan_only_def getBasicBlock_def getFunction_def)
  have ok1: "builder_ok s1" using ok f1 by (simp add: builder_ok_def names_ok_def apart_def scan_only_def)
  have nc1: "\<not> hasImplicitTarget s1" using nc sc by (simp add: ends_in_call_def)
  have body1: "has_body s1 f" if "getFunction (name_at ''Function_'' (currBlockAddr s1)) s1 = Some f" for f
    using body that unfolding has_body_def tabs by blast
  have no_bb1: "getBasicBlock (name_at ''BB_'' (currBlockAddr s1)) s1 = None" using no_bb unfolding tabs .
  note p2 = parent_found [OF fp ok1 no_bb1 body1]
  have ok2: "builder_ok s2" and st2: "same_block_state s1 s2" and hb: "has_body s2 p" using p2(1-3) by simp_all
  note d = declare_ok [OF ok2, of F]
  have same3: "currBlockAddr ?s3 = currBlockAddr s2" "basicBlocks ?s3 = basicBlocks s2" "hasImplicitTarget ?s3 = hasImplicitTarget s2"
    by (simp_all add: declare_globals_def)
  obtain x where x: "parent_of (built_module s2) x = Some p" using hb by (auto simp: has_body_def)
  have g3: "local_module (built_module ?s3)" using d(1) by (simp add: builder_ok_def)
  have x3: "parent_of (built_module ?s3) x = Some p" using x d(2) by (simp add: same_graph_def)
  obtain e where e: "entry_of (built_module ?s3) p = Some e" "parent_of (built_module ?s3) e = Some p" using entry_exists [OF g3 x3] by blast
  have v: "VMap (bid en) = Some fb" using fb by (auto simp: mapped_def split: option.splits)
  note pl = clones_placed [OF cl c d(1) parent_fid(1) [OF g3 x3] v refl block_name_not_trans]
  have e4: "e \<noteq> fb" using parent_fid(2) [OF g3 e(2)] pl(3) by blast
  have curr: "currBlockAddr ?s4 = ?a" using st2 tabs(3) same3(1) by (simp add: same_block_state_def)
  have trans: "parent_of (built_module ?s4) t = Some p \<and> t \<noteq> fb" if "getBasicBlock (name_at ''Trans_'' (currBlockAddr ?s4)) ?s4 = Some t" for t
  proof -
    have "getBasicBlock (name_at ''Trans_'' ?a) s2 = Some t"
      using that unfolding curr by (simp add: getBasicBlock_def same3(2))
    then have "parent_of (built_module s2) t = Some p" using p2(4) [of t] tabs(3) by simp
    then have t3: "parent_of (built_module ?s3) t = Some p" using d(2) by (simp add: same_graph_def)
    then have "t \<in> bid ` set (all_blocks (built_module ?s3))" by (rule parent_fid(2) [OF g3])
    then show ?thesis using pl(3) pl(4) [of t] t3 by auto
  qed
  note lk = link_first_ok [OF l pl(1,2) trans pl(6) [OF e(1)] e4]
  obtain B where B: "mod_block (built_module s5) fb = Inr B" "bname B = ?bb" using lk(5) pl(5) unfolding keeps_names_def by metis
  obtain src where src: "src \<noteq> fb" "parent_of (built_module s5) src = Some p" "branches (built_module s5) src fb" using lk(6) by blast
  have g5: "local_module (built_module s5)" using lk(1) by (simp add: builder_ok_def)
  have fb5: "parent_of (built_module s5) fb = Some p" using lk(3) [of fb] pl(2) by simp
  have BB: "strstr (bname B) ''BB_''" unfolding B(2) by (rule block_name_BB)
  note mv = first_move [OF m g5 fb5 B(1) BB src lk(4) e4]
  have ok6: "builder_ok (s5\<lparr>built_module := M\<rparr>)" by (rule builder_okI [OF lk(1) mv])
  have "\<not> hasImplicitTarget (s5\<lparr>built_module := M\<rparr>)"
    using lk(2) nc1 st2 same3(3) by (simp add: same_block_state_def)
  then show ?thesis using j jump_edges_ok [OF _ ok6] by (simp add: make_edges_jump)
qed

section \<open>Properties\<close>

text \<open>A clone that renumbers, and translated blocks that jump to \<open>a\<close>, and that call \<open>a\<close> and return to \<open>r\<close>.\<close>

fun shift_val :: "nat \<Rightarrow> val \<Rightarrow> val" where
  "shift_val n (InsRef k) = InsRef (n + k)"
| "shift_val n v = v"

fun shift_kind :: "nat \<Rightarrow> nat \<Rightarrow> ikind \<Rightarrow> ikind" where
  "shift_kind n m (Store v p) = Store (shift_val n v) (shift_val n p)"
| "shift_kind n m (Load p) = Load (shift_val n p)"
| "shift_kind n m (Call c xs) = Call (shift_val n c) (map (shift_val n) xs)"
| "shift_kind n m (BinOp oper v w) = BinOp oper (shift_val n v) (shift_val n w)"
| "shift_kind n m (IntToPtr v) = IntToPtr (shift_val n v)"
| "shift_kind n m (CastI s v) = CastI s (shift_val n v)"
| "shift_kind n m (Ret v) = Ret (map_option (shift_val n) v)"
| "shift_kind n m (Br t) = Br (m + t)"
| "shift_kind n m (CondBr v t e) = CondBr (shift_val n v) (m + t) (m + e)"
| "shift_kind n m (SwitchI v d cs) = SwitchI (shift_val n v) (m + d) (map (map_prod id ((+) m)) cs)"
| "shift_kind n m Unreachable = Unreachable"
| "shift_kind n m (OtherIns s vs) = OtherIns s (map (shift_val n) vs)"

definition shift_block :: "nat \<Rightarrow> nat \<Rightarrow> bblock \<Rightarrow> bblock" where
  "shift_block n m B = \<lparr>bid = m + bid B, bname = bname B,
     bins = map (\<lambda>i. \<lparr>iid = n + iid i, ikind = shift_kind n m (ikind i), imeta = imeta i\<rparr>) (bins B)\<rparr>"

definition shift_clone :: build_clone where
  "shift_clone M F = (map (shift_block (new_iid M) (new_bid M)) (fblocks F),
     \<lambda>b. if b \<in> set (map bid (fblocks F)) then Some (new_bid M + b) else None)"

definition jump_block :: "u64 \<Rightarrow> func" where
  "jump_block a = \<lparr>fid = 0, fname = ''tcg-llvm-tb'', fblocks = [\<lparr>bid = 0, bname = ''entry'', bins =
     [mk_ins 0 (BinOp AddOp (ArgRef 0) (ConstInt 64 0xc0)), mk_ins 1 (IntToPtr (InsRef 0)),
      mk_ins 2 (Store (ConstInt 32 a) (InsRef 1)), mk_ins 3 (Ret None)]\<rparr>]\<rparr>"

definition call_block :: "u64 \<Rightarrow> u64 \<Rightarrow> func" where
  "call_block a r = \<lparr>fid = 0, fname = ''tcg-llvm-tb'', fblocks = [\<lparr>bid = 0, bname = ''entry'', bins =
     [mk_ins 0 (BinOp AddOp (ArgRef 0) (ConstInt 64 0xc0)), mk_ins 1 (IntToPtr (InsRef 0)),
      mk_ins 2 (BinOp AddOp (ArgRef 0) (ConstInt 64 0xbc)), mk_ins 3 (IntToPtr (InsRef 2)),
      mk_ins 4 (Store (ConstInt 32 r) (InsRef 3)), mk_ins 5 (Store (ConstInt 32 a) (InsRef 1)), mk_ins 6 (Ret None)]\<rparr>]\<rparr>"

definition env_names :: "val \<Rightarrow> string" where
  "env_names v = (case v of ArgRef _ \<Rightarrow> ''env_v'' | _ \<Rightarrow> [])"

definition first_builder :: builder where
  "first_builder = \<lparr>built_module = \<lparr>mfuncs = [], mglobals = []\<rparr>, initialized = True, targetMap = Map.empty, hasImplicitTarget = False,
     currBlockAddr = 1, nextBlockAddr = - 1, basicBlocks = Map.empty, functionMap = Map.empty\<rparr>"

definition block_names :: "builder \<Rightarrow> (string \<times> string list) list" where
  "block_names s = map (\<lambda>f. (fname f, map bname (fblocks f))) (mfuncs (built_module s))"

definition run_state :: "(builder \<times> bool) res \<Rightarrow> builder" where
  "run_state r = (case r of Inl _ \<Rightarrow> first_builder | Inr (s, _) \<Rightarrow> s)"

definition after_jump :: builder where
  "after_jump = run_state (extract_and_build shift_clone env_names (jump_block 3) first_builder)"

lemma after_jump_blocks: "block_names after_jump = [(''Function_1'', [''entry'', ''BB_1'', ''Trans_3''])]"
  by code_simp

text \<open>The renumbering clone is one.\<close>

lemma iid_below: "n \<in> set (mod_ids M) \<Longrightarrow> n < new_iid M"
  using le_fold_max [of n "mod_ids M"] by (simp add: new_iid_def)

lemma bid_below: "B \<in> set (all_blocks M) \<Longrightarrow> bid B < new_bid M"
  using le_fold_max [of "bid B" "map bid (all_blocks M)"] by (auto simp: new_bid_def)

lemma shift_block_ids: "ids_of (shift_block n m B) = map ((+) n) (ids_of B)" "bid (shift_block n m B) = m + bid B"
  by (simp_all add: shift_block_def)

lemma first_builder_ok: "builder_ok first_builder"
  by (simp add: builder_ok_def local_module_def wf_built_def local_branches_def names_ok_def apart_def first_builder_def
      all_blocks_def mod_ids_def branches_iff mod_block_def)

lemma jump_block_clones: "clones shift_clone (jump_block a)"
  by (auto simp: clones_def shift_clone_def jump_block_def shift_block_def terminator_def ran_def dest: iid_below bid_below)

text \<open>
  C21. A translated block that does not end in a call keeps the functions apart: after the pass has run on it, no
  branch of the built module leads from one function into another, the table of blocks still finds every block under
  its name, and no address has both a function and an intermediate block. \<open>CloneFunctionInto\<close> is only assumed to
  make copies with addresses of their own whose branches lead to copies.
\<close>

theorem jump_block_keeps_functions_apart:
  assumes "clones clone F" and "builder_ok s" and "initialized s" and "\<not> ends_in_call getName F s"
    and "\<And>f. getFunction (name_at ''Function_'' (currBlockAddr s)) s = Some f \<Longrightarrow> has_body s f"
    and "extract_and_build clone getName F s = Inr (s', changed)"
  shows "builder_ok s' \<and> \<not> changed"
proof (cases "getBasicBlock (name_at ''BB_'' (currBlockAddr s)) s")
  case None
  then have b: "build_block clone getName F s = Inr s'" "\<not> changed"
    using assms(3,6) unfolding extract_and_build_def Let_def by (auto simp: rbind_eq_Inr)
  then show ?thesis using build_block_ok [OF b(1) assms(1,2) None assms(4,5)] by simp
next
  case (Some x)
  then show ?thesis using assms(2,3,6) unfolding extract_and_build_def Let_def by auto
qed

theorem jump_block_keeps_functions_apart_witness: "builder_ok after_jump \<and> block_names after_jump = [(''Function_1'', [''entry'', ''BB_1'', ''Trans_3''])]"
proof -
  obtain s' c where r: "extract_and_build shift_clone env_names (jump_block 3) first_builder = Inr (s', c)"
    using after_jump_blocks
    by (cases "extract_and_build shift_clone env_names (jump_block 3) first_builder")
      (auto simp: after_jump_def run_state_def block_names_def first_builder_def)
  have i: "initialized first_builder" "\<And>f. getFunction nm first_builder = Some f \<Longrightarrow> has_body first_builder f" for nm
    by (simp_all add: first_builder_def getFunction_def)
  have "\<not> ends_in_call env_names (jump_block 3) first_builder" by code_simp
  from jump_block_keeps_functions_apart [OF jump_block_clones first_builder_ok i(1) this i(2) r]
  show ?thesis using after_jump_blocks r by (simp add: after_jump_def run_state_def)
qed

text \<open>
  A call does not: the block at 2 calls 5 and returns to 3, and the intermediate block of 3 is in the function
  of the block at 1, so the return goes from one function into another.
\<close>

definition stays_inside :: "lmodule \<Rightarrow> bool" where
  "stays_inside M = list_all (\<lambda>B. case terminator B of None \<Rightarrow> True
     | Some t \<Rightarrow> list_all (\<lambda>y. parent_of M (bid B) = parent_of M y) (succ_ids (ikind t))) (all_blocks M)"

lemma stays_inside_iff: "distinct (map bid (all_blocks M)) \<Longrightarrow> stays_inside M \<longleftrightarrow> local_branches M"
  unfolding stays_inside_def local_branches_def branches_iff list_all_iff
  by (auto simp: mod_block_distinct split: option.splits)

definition after_call :: builder where
  "after_call = run_state (extract_and_build shift_clone env_names (call_block 5 3) (setBlockAddr 2 3 after_jump))"

lemma after_call_blocks: "ends_in_call env_names (call_block 5 3) (setBlockAddr 2 3 after_jump)
  \<and> block_names after_call = [(''Function_1'', [''entry'', ''BB_1'', ''Trans_3'']), (''Function_2'', [''entry'', ''BB_2'']), (''Function_5'', [''entry''])]
  \<and> \<not> stays_inside (built_module after_call) \<and> distinct (map bid (all_blocks (built_module after_call)))"
  by code_simp

theorem call_return_leaves_function: "\<not> local_branches (built_module after_call)"
  using after_call_blocks stays_inside_iff by blast

end
