(* ===== verification/Env_Fixups.thy ===== *)
theory Env_Fixups
  imports Env_Transform
begin

text \<open>
  The other entry points of \<open>S2ETransformPass\<close>: \<open>fixupStores\<close> and \<open>fixupLoads\<close> rename the accesses whose pointer is
  computed from a value named \<open>env_v...\<close> in one addition, instruction by instruction, and \<open>fixupEnvStruct\<close> looks for
  accesses through a \<open>getelementptr\<close> and only prints them (\<open>runOnFunction\<close> has the three calls in a comment). Both
  fix-ups equal a renaming of the function in place.
\<close>

section \<open>fixupStores and fixupLoads\<close>

text \<open>The offset of the register a pointer leads to; an offset that is no constant is dereferenced as null.\<close>

definition env_target :: "(val \<Rightarrow> string) \<Rightarrow> func \<Rightarrow> val \<Rightarrow> u32 option res" where
  "env_target names F ptr = (case def_of F ptr of
     Some (IntToPtr (InsRef m)) \<Rightarrow> (case find_ins F m of
         None \<Rightarrow> Inr None
       | Some add \<Rightarrow> (case operands (ikind add) of
           [] \<Rightarrow> Inl (AssertFailed ''getOperand(0)'')
         | a # rest \<Rightarrow>
             if \<not> startswith (names a) ''env_v'' then Inr None
             else (case rest of
                 [] \<Rightarrow> Inl (AssertFailed ''getOperand(1)'')
               | ConstInt w c # _ \<Rightarrow> Inr (Some (env_offset w c))
               | _ # _ \<Rightarrow> Inl (NullDeref ''cst''))))
   | _ \<Rightarrow> Inr None)"

fun store_ptr :: "ikind \<Rightarrow> val option" where
  "store_ptr (Store v p) = Some p"
| "store_ptr _ = None"

fun load_ptr :: "ikind \<Rightarrow> val option" where
  "load_ptr (Load p) = Some p"
| "load_ptr _ = None"

text \<open>
  One instruction: an access is remembered with the identity of its replacement and the name of the global. The
  replacement goes in front of it, where the loop does not come by.
\<close>

definition access_target :: "(ikind \<Rightarrow> val option) \<Rightarrow> (val \<Rightarrow> string) \<Rightarrow> func \<Rightarrow> instr \<Rightarrow> u32 option res" where
  "access_target ptr_of names F i = (case ptr_of (ikind i) of None \<Rightarrow> Inr None | Some p \<Rightarrow> env_target names F p)"

definition collect_access :: "(ikind \<Rightarrow> val option) \<Rightarrow> (val \<Rightarrow> string) \<Rightarrow> func \<Rightarrow> instr \<Rightarrow>
    (nat \<times> nat \<times> string) list \<times> lmodule \<Rightarrow> ((nat \<times> nat \<times> string) list \<times> lmodule) res" where
  "collect_access ptr_of names F i st = rbind (access_target ptr_of names F i) (\<lambda>t. Inr (case t of
       None \<Rightarrow> st
     | Some envOffset \<Rightarrow> (fst st @ [(iid i, fresh_iid F + length (fst st), getGlobalName envOffset)],
         getOrInsertGlobal (getGlobalName envOffset) (snd st))))"

text \<open>The clean-up: uses of the old instructions go to the new ones, and the old ones are erased.\<close>

definition fixup_cleanup :: "func \<Rightarrow> (nat \<times> nat \<times> string) list \<times> lmodule \<Rightarrow> (func \<times> lmodule \<times> nat) res" where
  "fixup_cleanup F st = rbind (erase_all (map fst (fst st)) (replace_uses (fst st) (insert_accesses (fst st) F)))
     (\<lambda>F'. Inr (F', snd st, length (fst st)))"

definition fixupStores :: "(val \<Rightarrow> string) \<Rightarrow> func \<Rightarrow> lmodule \<Rightarrow> (func \<times> lmodule \<times> nat) res" where
  "fixupStores names F m = rbind (rfold (collect_access store_ptr names F) (func_ins F) ([], m)) (fixup_cleanup F)"

definition fixupLoads :: "(val \<Rightarrow> string) \<Rightarrow> func \<Rightarrow> lmodule \<Rightarrow> (func \<times> lmodule \<times> nat) res" where
  "fixupLoads names F m = rbind (rfold (collect_access load_ptr names F) (func_ins F) ([], m)) (fixup_cleanup F)"

section \<open>fixupEnvStruct\<close>

text \<open>A \<open>getelementptr\<close> with two indices on a load of \<open>env\<close>; its offset is computed when the first index is zero.\<close>

definition env_gep :: "llvm_view \<Rightarrow> func \<Rightarrow> instr \<Rightarrow> u64 option res" where
  "env_gep X F i = (case ikind i of
     OtherIns nm ops \<Rightarrow> (if nm \<noteq> ''getelementptr'' then Inr None else (case ops of
         [ptr, firstIndex, secondIndex] \<Rightarrow> (case def_of F ptr of
             Some (Load p) \<Rightarrow>
               if getName X p \<noteq> ''env'' then Inr None
               else if const_int firstIndex \<noteq> Some 0 \<or> const_int secondIndex = None then Inr None
               else rbind (getGetElementPtrOffset (zip (tl ops) (gep_types X (iid i)))) (\<lambda>offset. Inr (Some offset))
           | _ \<Rightarrow> Inr None)
       | _ \<Rightarrow> Inr None))
   | _ \<Rightarrow> Inr None)"

definition fixupEnvStruct :: "llvm_view \<Rightarrow> func \<Rightarrow> int res" where
  "fixupEnvStruct X F = rbind (rmap (env_gep X F) (func_ins F)) (\<lambda>_. Inr 0)"

section \<open>The fix-ups as a renaming\<close>

text \<open>
  The reference: every access through \<open>env_v\<close> is, in its place, an access of the global of its register under a new
  identity, and every use of an old identity is a use of the new one.
\<close>

fun numbered :: "nat \<Rightarrow> (nat \<times> u32 option) list \<Rightarrow> (nat \<times> nat \<times> string) list" where
  "numbered k [] = []"
| "numbered k ((n, None) # ts) = numbered k ts"
| "numbered k ((n, Some off) # ts) = (n, k, getGlobalName off) # numbered (Suc k) ts"

definition renamed_ins :: "(nat \<times> nat \<times> string) list \<Rightarrow> instr \<Rightarrow> instr" where
  "renamed_ins rs i = (case map_of rs (iid i) of
     None \<Rightarrow> i
   | Some (new, g) \<Rightarrow> mk_ins new (case ikind i of Store v p \<Rightarrow> Store v (GlobalVar g) | _ \<Rightarrow> Load (GlobalVar g)))"

definition rename_uses :: "(nat \<times> nat \<times> string) list \<Rightarrow> instr \<Rightarrow> instr" where
  "rename_uses rs i = i\<lparr>ikind := fold (\<lambda>(old, new, g). subst_kind (InsRef old) (InsRef new)) rs (ikind i)\<rparr>"

definition rename_reference :: "(ikind \<Rightarrow> val option) \<Rightarrow> (val \<Rightarrow> string) \<Rightarrow> func \<Rightarrow> lmodule \<Rightarrow> (func \<times> lmodule \<times> nat) res" where
  "rename_reference ptr_of names F m = rbind (rmap (access_target ptr_of names F) (func_ins F)) (\<lambda>ts.
     let rs = numbered (fresh_iid F) (zip (ins_ids F) ts) in
     Inr (map_ins (\<lambda>i. rename_uses rs (renamed_ins rs i)) F, fold (\<lambda>(old, new, g). getOrInsertGlobal g) rs m, length rs))"

lemma collect_step:
  "collect_access ptr_of names F i (rs, m) = rbind (access_target ptr_of names F i) (\<lambda>t. Inr (case t of
       None \<Rightarrow> (rs, m)
     | Some off \<Rightarrow> (rs @ [(iid i, fresh_iid F + length rs, getGlobalName off)], getOrInsertGlobal (getGlobalName off) m)))"
  by (simp add: collect_access_def cong: option.case_cong)

lemma collect_numbered:
  "rfold (collect_access ptr_of names F) is (rs, m) = rbind (rmap (access_target ptr_of names F) is) (\<lambda>ts.
     let new = numbered (fresh_iid F + length rs) (zip (map iid is) ts) in
     Inr (rs @ new, fold (\<lambda>(old, new, g). getOrInsertGlobal g) new m))"
proof (induction "is" arbitrary: rs m)
  case (Cons i "is")
  show ?case
  proof (cases "access_target ptr_of names F i")
    case (Inr t)
    then show ?thesis by (cases t) (simp_all add: collect_step Cons.IH rbind_assoc Let_def)
  qed (simp add: collect_step)
qed simp

lemma numbered_facts:
  "set (map fst (numbered k nts)) \<subseteq> set (map fst nts)"
  "distinct (map fst nts) \<Longrightarrow> distinct (map fst (numbered k nts))"
  "(n, new, g) \<in> set (numbered k nts) \<Longrightarrow> k \<le> new \<and> (\<exists>off. (n, Some off) \<in> set nts)"
  by (induction k nts rule: numbered.induct) (auto dest: Suc_leD)

lemma numbered_new: "numbered k (zip ns ts) = rs \<Longrightarrow> (n, new, g) \<in> set rs \<Longrightarrow> k \<le> new"
  using numbered_facts(3) by blast

lemma replace_uses_rename: "replace_uses rs F = map_ins (rename_uses rs) F"
proof (induction rs arbitrary: F)
  case Nil
  then show ?case by (simp add: replace_uses_def rename_uses_def map_ins_def map_blocks_def)
next
  case (Cons r rs)
  obtain old new g where r: "r = (old, new, g)" by (cases r)
  have "replace_uses (r # rs) F = map_ins (rename_uses rs) (rauw (InsRef old) (InsRef new) F)"
    using Cons.IH by (simp add: replace_uses_def r)
  then show ?case by (simp add: rauw_def map_ins_def map_blocks_def comp_def rename_uses_def r)
qed

lemma new_accesses_distinct:
  "distinct (map fst rs) \<Longrightarrow> concat (map (new_access i) rs) =
     (case map_of rs (iid i) of None \<Rightarrow> [] | Some r \<Rightarrow> new_access i (iid i, r))"
proof (induction rs)
  case (Cons r rs)
  obtain old new g where r: "r = (old, new, g)" by (cases r)
  show ?case
  proof (cases "iid i = old")
    case True
    then have "map_of rs (iid i) = None" using Cons.prems by (auto simp: r map_of_eq_None_iff)
    with True Cons show ?thesis by (simp add: r)
  next
    case False
    with Cons show ?thesis by (simp add: r new_access_def)
  qed
qed simp

lemma iid_rename_uses [simp]: "iid (rename_uses rs i) = iid i"
  by (simp add: rename_uses_def)

text \<open>One instruction: the replacement goes in, the old one goes out.\<close>

definition is_access :: "ikind \<Rightarrow> bool" where
  "is_access k \<longleftrightarrow> (\<exists>p. k = Load p) \<or> (\<exists>v p. k = Store v p)"

lemma new_access_renamed:
  assumes "distinct (map fst rs)" and "\<And>n new g. (n, new, g) \<in> set rs \<Longrightarrow> new \<notin> fst ` set rs"
    and "iid i \<in> fst ` set rs \<Longrightarrow> is_access (ikind i)"
  shows "filter (\<lambda>j. iid j \<notin> fst ` set rs) (map (rename_uses rs) (concat (map (new_access i) rs) @ [i])) =
    [rename_uses rs (renamed_ins rs i)]"
proof (cases "map_of rs (iid i)")
  case None
  then have "iid i \<notin> fst ` set rs" by (simp add: map_of_eq_None_iff)
  with None show ?thesis by (simp add: new_accesses_distinct [OF assms(1)] renamed_ins_def)
next
  case (Some r)
  obtain new g where r: "r = (new, g)" by (cases r)
  then have m: "(iid i, new, g) \<in> set rs" using Some by (auto dest: map_of_SomeD)
  then have old: "iid i \<in> fst ` set rs" by force
  have "new_access i (iid i, r) = [renamed_ins rs i]"
    using assms(3) [OF old] Some by (auto simp: r new_access_def renamed_ins_def is_access_def)
  moreover have "iid (renamed_ins rs i) = new" using Some by (simp add: r renamed_ins_def)
  ultimately show ?thesis using old assms(2) [OF m] Some by (simp add: new_accesses_distinct [OF assms(1)])
qed

lemma cleanup_renames:
  assumes wf: "wf_func F" and d: "distinct (map fst rs)"
    and rs: "\<And>n new g. (n, new, g) \<in> set rs \<Longrightarrow> fresh_iid F \<le> new \<and> n \<in> set (ins_ids F)"
    and acc: "\<And>i. i \<in> set (func_ins F) \<Longrightarrow> iid i \<in> fst ` set rs \<Longrightarrow> is_access (ikind i)"
  shows "fixup_cleanup F (rs, m) = Inr (map_ins (\<lambda>i. rename_uses rs (renamed_ins rs i)) F, m, length rs)"
proof -
  let ?G = "replace_uses rs (insert_accesses rs F)"
  have new: "new \<notin> fst ` set rs" if "(n, new, g) \<in> set rs" for n new g
  proof
    assume "new \<in> fst ` set rs"
    then have "new \<in> set (ins_ids F)" using rs by force
    then have "new < fresh_iid F" using fresh_above [of _ F] by (auto simp: ins_ids_def)
    then show False using rs [OF that] by simp
  qed
  have "set (ins_ids F) \<subseteq> set (ins_ids ?G)"
  proof
    fix n assume "n \<in> set (ins_ids F)"
    then obtain b i where bi: "b \<in> set (fblocks F)" "i \<in> set (bins b)" "iid i = n"
      by (auto simp: ins_ids_def func_ins_def)
    then have "i \<in> set (func_ins (insert_accesses rs F))"
      by (force simp: func_ins_def insert_accesses_def map_blocks_def)
    then have "iid i \<in> iid ` set (func_ins (insert_accesses rs F))" by (rule imageI)
    then show "n \<in> set (ins_ids ?G)" using bi(3) by (simp add: replace_uses_rename ins_ids_def image_comp)
  qed
  then have "erase_all (map fst rs) ?G = Inr (drop_ids (set (map fst rs)) ?G)"
    using d rs by (intro erase_all_ok) fastforce+
  moreover have "drop_ids (set (map fst rs)) ?G = map_ins (\<lambda>i. rename_uses rs (renamed_ins rs i)) F"
  proof -
    have blk: "filter (\<lambda>j. iid j \<notin> fst ` set rs) (map (rename_uses rs) (concat (map (\<lambda>i. concat (map (new_access i) rs) @ [i]) is))) =
        map (\<lambda>i. rename_uses rs (renamed_ins rs i)) is" if "set is \<subseteq> set (func_ins F)" for "is"
      using that
    proof (induction "is")
      case (Cons i "is")
      have "filter (\<lambda>j. iid j \<notin> fst ` set rs) (map (rename_uses rs) (concat (map (new_access i) rs) @ [i])) =
          [rename_uses rs (renamed_ins rs i)]"
        using new_access_renamed [OF d new, where i = i] acc Cons.prems by simp
      with Cons show ?case by (simp split: if_split_asm)
    qed simp
    have "set (bins b) \<subseteq> set (func_ins F)" if "b \<in> set (fblocks F)" for b using that by (auto simp: func_ins_def)
    with blk show ?thesis
      by (simp add: drop_ids_def map_ins_def map_blocks_def insert_accesses_def replace_uses_rename)
  qed
  ultimately show ?thesis by (simp add: fixup_cleanup_def)
qed

lemma fixup_renames:
  assumes wf: "wf_func F" and ptr: "\<And>k p. ptr_of k = Some p \<Longrightarrow> is_access k"
  shows "rbind (rfold (collect_access ptr_of names F) (func_ins F) ([], m)) (fixup_cleanup F) = rename_reference ptr_of names F m"
proof (cases "rmap (access_target ptr_of names F) (func_ins F)")
  case (Inl e)
  then show ?thesis by (simp add: collect_numbered rename_reference_def)
next
  case (Inr ts)
  let ?nts = "zip (ins_ids F) ts" and ?rs = "numbered (fresh_iid F) (zip (ins_ids F) ts)"
  have ts: "length ts = length (func_ins F)" by (rule rmap_length [OF Inr])
  have nts: "map fst ?nts = ins_ids F" using ts by (simp add: ins_ids_def)
  have d: "distinct (map fst ?rs)" using numbered_facts(2) [of ?nts] wf nts by (simp add: wf_func_def)
  have in_F: "fst ` set ?rs \<subseteq> set (ins_ids F)" using numbered_facts(1) [of "fresh_iid F" ?nts] nts by simp
  have rs: "fresh_iid F \<le> new \<and> n \<in> set (ins_ids F)" if "(n, new, g) \<in> set ?rs" for n new g
    using numbered_facts(3) [OF that] in_F that by force
  have acc: "is_access (ikind i)" if i: "i \<in> set (func_ins F)" "iid i \<in> fst ` set ?rs" for i
  proof -
    obtain new g where "(iid i, new, g) \<in> set ?rs" using i(2) by force
    then obtain off where "(iid i, Some off) \<in> set ?nts" using numbered_facts(3) by blast
    then obtain k where k: "k < length ts" "ins_ids F ! k = iid i" "ts ! k = Some off"
      by (auto simp: in_set_zip)
    let ?j = "func_ins F ! k"
    have "?j \<in> set (func_ins F)" "iid ?j = iid i" using k ts by (auto simp: ins_ids_def)
    then have "?j = i" using i(1) wf by (auto simp: wf_func_def ins_ids_def distinct_map inj_on_def)
    moreover have "access_target ptr_of names F ?j = Inr (Some off)"
      using rmap_nth [OF Inr, of k] k ts by simp
    ultimately show ?thesis using ptr by (auto simp: access_target_def split: option.splits)
  qed
  show ?thesis
    using cleanup_renames [OF wf d rs acc] Inr
    by (simp add: collect_numbered rename_reference_def Let_def ins_ids_def [symmetric])
qed

section \<open>Properties\<close>

text \<open>
  C38. On a function whose instructions have distinct addresses, \<open>fixupStores\<close> and \<open>fixupLoads\<close>, which insert new accesses,
  move the uses and erase the old ones through two lists and a map, do what the renaming in place does: same function,
  same new globals, same count, and the same error when an offset is no constant.
\<close>

theorem fixups_rename_in_place:
  assumes "wf_func F"
  shows "fixupStores names F m = rename_reference store_ptr names F m
    \<and> fixupLoads names F m = rename_reference load_ptr names F m"
proof -
  have "is_access k" if "store_ptr k = Some p" for k p using that by (cases k) (auto simp: is_access_def)
  moreover have "is_access k" if "load_ptr k = Some p" for k p using that by (cases k) (auto simp: is_access_def)
  ultimately show ?thesis using fixup_renames [OF assms] by (simp add: fixupStores_def fixupLoads_def)
qed

text \<open>An inlined access of the program counter: it is loaded, and stored back.\<close>

definition inlined_tb :: func where
  "inlined_tb = \<lparr>fid = 1, fname = ''f'', fblocks = [\<lparr>bid = 1, bname = ''entry'', bins =
     [mk_ins 1 (BinOp AddOp (ArgRef 0) (ConstInt 64 0xc0)),
      mk_ins 2 (IntToPtr (InsRef 1)),
      mk_ins 3 (Load (InsRef 2)),
      mk_ins 4 (Store (InsRef 3) (InsRef 2)),
      mk_ins 5 (Ret None)]\<rparr>]\<rparr>"

definition inlined_names :: "val \<Rightarrow> string" where
  "inlined_names v = (if v = ArgRef 0 then ''env_v1'' else [])"

lemma inlined_tb_wf: "wf_func inlined_tb"
  by code_simp

lemma inlined_pc: "getGlobalName 0xc0 = ''PC''" "env_offset 64 0xc0 = 0xc0"
  by code_simp+

lemma inlined_loads_run:
  "fixupLoads inlined_names inlined_tb \<lparr>mfuncs = [], mglobals = []\<rparr> =
    Inr (\<lparr>fid = 1, fname = ''f'', fblocks = [\<lparr>bid = 1, bname = ''entry'', bins =
     [mk_ins 1 (BinOp AddOp (ArgRef 0) (ConstInt 64 0xc0)),
      mk_ins 2 (IntToPtr (InsRef 1)),
      mk_ins 6 (Load (GlobalVar ''PC'')),
      mk_ins 4 (Store (InsRef 6) (InsRef 2)),
      mk_ins 5 (Ret None)]\<rparr>]\<rparr>, \<lparr>mfuncs = [], mglobals = [''PC'']\<rparr>, 1)"
  by (simp add: fixupLoads_def fixup_cleanup_def collect_access_def access_target_def env_target_def def_of_def find_ins_def
      inlined_tb_def inlined_names_def startswith_def func_ins_def inlined_pc fresh_iid_def ins_ids_def getOrInsertGlobal_def
      insert_accesses_def new_access_def map_blocks_def replace_uses_def rauw_def map_ins_def erase_all_def erase_from_parent_def
      drop_ids_def mk_ins_def)

theorem fixups_rename_in_place_witness:
  "rename_reference load_ptr inlined_names inlined_tb \<lparr>mfuncs = [], mglobals = []\<rparr> =
    Inr (\<lparr>fid = 1, fname = ''f'', fblocks = [\<lparr>bid = 1, bname = ''entry'', bins =
     [mk_ins 1 (BinOp AddOp (ArgRef 0) (ConstInt 64 0xc0)),
      mk_ins 2 (IntToPtr (InsRef 1)),
      mk_ins 6 (Load (GlobalVar ''PC'')),
      mk_ins 4 (Store (InsRef 6) (InsRef 2)),
      mk_ins 5 (Ret None)]\<rparr>]\<rparr>, \<lparr>mfuncs = [], mglobals = [''PC'']\<rparr>, 1)"
  using fixups_rename_in_place [OF inlined_tb_wf, of inlined_names "\<lparr>mfuncs = [], mglobals = []\<rparr>"]
  by (simp add: inlined_loads_run)

end
