(* ===== verification/Cpu_Registers.thy ===== *)
theory Cpu_Registers
  imports Env_Transform Extract_Build
begin

unbundle bit_operations_syntax

text \<open>
  Where the registers are in the CPU state: the table the plugin \<open>PrintCPUOffsets\<close> prints to be pasted into
  \<open>S2ETransformPass\<close>, the tables that pass has for its targets, and the two passes that recognise a store to a register
  by its offset. \<open>CPU_OFFSET\<close> of the emulator is a parameter.
\<close>

section \<open>PrintCPUOffsets\<close>

definition printOneCPUOffset :: "u32 \<Rightarrow> string \<Rightarrow> string" where
  "printOneCPUOffset off name = ''    {'' @ ''0x'' @ zero_fill 8 (hex_digits (unat off)) @ '', '' @ [CHR 0x22] @
     name @ [CHR 0x22] @ ''},'' @ [CHR 0x0A]"

text \<open>The fields of the CPU state with the name each is printed under.\<close>

definition initializeARM :: "(string \<times> string) list" where
  "initializeARM =
    [(''thumb'', ''thumb''), (''ZF'', ''ZF''), (''CF'', ''CF''), (''VF'', ''VF''), (''NF'', ''NF''),
     (''regs[15]'', ''PC''), (''regs[14]'', ''LR''), (''regs[13]'', ''SP''), (''regs[12]'', ''R12''),
     (''regs[11]'', ''R11''), (''regs[10]'', ''R10''), (''regs[9]'', ''R9''), (''regs[8]'', ''R8''),
     (''regs[7]'', ''R7''), (''regs[6]'', ''R6''), (''regs[5]'', ''R5''), (''regs[4]'', ''R4''),
     (''regs[3]'', ''R3''), (''regs[2]'', ''R2''), (''regs[1]'', ''R1''), (''regs[0]'', ''R0''),
     (''s2e_icount'', ''s2e_icount''), (''current_tb'', ''current_tb''), (''s2e_current_tb'', ''s2e_icount'')]"

definition initializeX86 :: "(string \<times> string) list" where
  "initializeX86 =
    [(''cr[0]'', ''CR0''), (''s2e_icount'', ''s2e_icount''), (''current_tb'', ''current_tb''),
     (''s2e_current_tb'', ''s2e_icount''), (''segs[0].base'', ''Seg0.base''), (''segs[1].base'', ''Seg1.base''),
     (''segs[2].base'', ''Seg2.base''), (''segs[3].base'', ''Seg3.base''), (''segs[4].base'', ''Seg4.base''),
     (''segs[5].base'', ''Seg5.base''), (''cc_src'', ''cc_src''), (''cc_dst'', ''cc_dst''), (''cc_tmp'', ''cc_tmp''),
     (''cc_op'', ''cc_op''), (''df'', ''df'')]"

datatype print_target = PrintARM | PrintX86 | PrintOther

definition printed_fields :: "print_target \<Rightarrow> (string \<times> string) list" where
  "printed_fields t = (case t of PrintARM \<Rightarrow> initializeARM | PrintX86 \<Rightarrow> initializeX86 | PrintOther \<Rightarrow> [])"

definition initialize_printer :: "(string \<Rightarrow> u32) \<Rightarrow> print_target \<Rightarrow> string" where
  "initialize_printer CPU_OFFSET t =
     ''------cut-here-----X8----'' @ [CHR 0x0A] @
     ''struct offset_name {'' @ [CHR 0x0A] @
     ''    int offset; char *name;'' @ [CHR 0x0A] @
     ''};'' @ [CHR 0x0A] @
     ''struct offset_name cpu_offset_names[] = {'' @ [CHR 0x0A] @
     concat (map (\<lambda>(field, name). printOneCPUOffset (CPU_OFFSET field) name) (printed_fields t)) @
     ''};'' @ [CHR 0x0A] @
     ''------cut-here-----X8----'' @ [CHR 0x0A]"

section \<open>The tables of the targets\<close>

datatype target = TARGET_ARM | TARGET_I386 | TARGET_X86_64

definition cpu_offset_names_x86 :: "(u32 \<times> string) list" where
  "cpu_offset_names_x86 =
    [(0 * 4, ''R_EAX''), (1 * 4, ''R_ECX''), (2 * 4, ''R_EDX''), (3 * 4, ''R_EBX''), (4 * 4, ''R_ESP''),
     (5 * 4, ''R_EBP''), (6 * 4, ''R_ESI''), (7 * 4, ''R_EDI''), (12 * 4, ''PC'')]"

definition target_names :: "target \<Rightarrow> u32 \<rightharpoonup> string" where
  "target_names t = (case t of
     TARGET_ARM \<Rightarrow> initRegisterNames cpu_offset_names_arm
   | TARGET_I386 \<Rightarrow> initRegisterNames cpu_offset_names_x86
   | TARGET_X86_64 \<Rightarrow> Map.empty)"

definition global_name :: "(u32 \<rightharpoonup> string) \<Rightarrow> u32 \<Rightarrow> string" where
  "global_name nameMap off = (case nameMap off of Some nm \<Rightarrow> nm | None \<Rightarrow> ''GLOBAL_@'' @ hex_digits (unat off))"

lemma getGlobalName_arm: "getGlobalName = global_name (target_names TARGET_ARM)"
  by (rule ext) (simp add: getGlobalName_def global_name_def target_names_def)

text \<open>A table without a name twice and without names of unnamed offsets gives different names.\<close>

definition good_table :: "(u32 \<times> string) list \<Rightarrow> bool" where
  "good_table regs \<longleftrightarrow> distinct (map snd regs) \<and> list_all (\<lambda>r. take 8 (snd r) \<noteq> ''GLOBAL_@'') regs"

lemma good_table_inj:
  assumes "good_table regs"
  shows "global_name (map_of regs) a = global_name (map_of regs) b \<longleftrightarrow> a = b"
proof
  assume e: "global_name (map_of regs) a = global_name (map_of regs) b"
  have plain: "nm \<noteq> ''GLOBAL_@'' @ ds" if "map_of regs k = Some nm" for k nm ds
    using assms that by (fastforce simp: good_table_def list_all_iff dest: map_of_SomeD)
  have inj: "inj_on snd (set regs)" using assms by (simp add: good_table_def distinct_map)
  show "a = b"
  proof (cases "map_of regs a")
    case None
    then have "map_of regs b = None" using e plain by (auto simp: global_name_def split: option.splits)
    with None e show ?thesis by (simp add: global_name_def hex_digits_inj word_unat_eq_iff)
  next
    case (Some nm)
    then obtain nm' where b: "map_of regs b = Some nm'" using e plain [OF Some] by (auto simp: global_name_def split: option.splits)
    then have "nm' = nm" using e Some by (simp add: global_name_def)
    with Some b have "(a, nm) \<in> set regs" "(b, nm) \<in> set regs" by (auto dest: map_of_SomeD)
    then show ?thesis using inj_onD [OF inj, of "(a, nm)" "(b, nm)"] by simp
  qed
qed simp

theorem target_names_injective: "global_name (target_names t) a = global_name (target_names t) b \<longleftrightarrow> a = b"
proof -
  have "good_table cpu_offset_names_arm" "good_table cpu_offset_names_x86" "good_table []" by code_simp+
  from good_table_inj [OF this(1)] good_table_inj [OF this(2)] good_table_inj [OF this(3)] show ?thesis
    by (cases t) (simp_all add: target_names_def initRegisterNames_map_of)
qed

section \<open>The printed table in the pass\<close>

definition printed_table :: "(string \<Rightarrow> u32) \<Rightarrow> print_target \<Rightarrow> (u32 \<times> string) list" where
  "printed_table CPU_OFFSET t = map (\<lambda>(field, name). (CPU_OFFSET field, name)) (printed_fields t)"

text \<open>The layout of the emulator the table of the pass was made for.\<close>

definition arm_layout :: "(string \<Rightarrow> u32) \<Rightarrow> bool" where
  "arm_layout CPU_OFFSET \<longleftrightarrow> map CPU_OFFSET (map fst initializeARM) = map fst cpu_offset_names_arm"

theorem printed_table_renames_last:
  assumes "arm_layout CPU_OFFSET"
  shows "printed_table CPU_OFFSET PrintARM = butlast cpu_offset_names_arm @ [(0x4b0, ''s2e_icount'')]
    \<and> last cpu_offset_names_arm = (0x4b0, ''s2e_icount_before_tb'')
    \<and> global_name (initRegisterNames (printed_table CPU_OFFSET PrintARM)) 0x4b0
        = global_name (initRegisterNames (printed_table CPU_OFFSET PrintARM)) 0x1e8d8"
proof -
  have z: "printed_table CPU_OFFSET PrintARM = zip (map fst cpu_offset_names_arm) (map snd initializeARM)"
  proof -
    have "map (\<lambda>(f, n). (CPU_OFFSET f, n)) xs = zip (map CPU_OFFSET (map fst xs)) (map snd xs)" for xs :: "(string \<times> string) list"
      by (induction xs) auto
    then have "printed_table CPU_OFFSET PrintARM = zip (map CPU_OFFSET (map fst initializeARM)) (map snd initializeARM)"
      by (simp only: printed_table_def printed_fields_def print_target.case)
    then show ?thesis using assms by (simp only: arm_layout_def)
  qed
  have "zip (map fst cpu_offset_names_arm) (map snd initializeARM) = butlast cpu_offset_names_arm @ [(0x4b0, ''s2e_icount'')]"
    by code_simp
  then have t: "printed_table CPU_OFFSET PrintARM = butlast cpu_offset_names_arm @ [(0x4b0, ''s2e_icount'')]" using z by simp
  have "last cpu_offset_names_arm = (0x4b0, ''s2e_icount_before_tb'')" by code_simp
  moreover have "global_name (initRegisterNames (butlast cpu_offset_names_arm @ [(0x4b0, ''s2e_icount'')])) 0x4b0
      = global_name (initRegisterNames (butlast cpu_offset_names_arm @ [(0x4b0, ''s2e_icount'')])) 0x1e8d8" by code_simp
  ultimately show ?thesis by (simp add: t)
qed

section \<open>Two passes, one notion of a store to a register\<close>

text \<open>\<open>isIndirectStoreToPC\<close> of \<open>ExtractPossibleTargetsPass\<close>, which nothing calls.\<close>

definition target_indirect_store :: "(val \<Rightarrow> string) \<Rightarrow> func \<Rightarrow> val \<Rightarrow> val \<Rightarrow> bool res" where
  "target_indirect_store names F v ptr = (case def_of F ptr of
     Some (IntToPtr (InsRef m)) \<Rightarrow> (case find_ins F m of
         None \<Rightarrow> Inr False
       | Some add \<Rightarrow> (case operands (ikind add) of
           [] \<Rightarrow> Inl (AssertFailed ''getOperand(0)'')
         | a # rest \<Rightarrow>
             if \<not> startswith (names a) ''env_v'' then Inr False
             else (case rest of
                 [] \<Rightarrow> Inl (AssertFailed ''getOperand(1)'')
               | ConstInt w c # _ \<Rightarrow> if env_offset w c \<noteq> pc_offset then Inr False else Inr (const_int v = None)
               | _ # _ \<Rightarrow> Inr False)))
   | _ \<Rightarrow> Inr False)"

theorem passes_agree_on_stores:
  "isStoreToPC names F v ptr = constStoreToPC names F v ptr" "isStoreToLR names F v ptr = constStoreToLR names F v ptr"
  "target_indirect_store names F v ptr = isIndirectStoreToPC names F v ptr"
  by (simp_all add: isStoreToPC_def constStoreToPC_def isStoreToLR_def constStoreToLR_def env_store_def env_pointer_def
      target_indirect_store_def isIndirectStoreToPC_def split: option.split ikind.split val.split list.split)

end
