(* ===== verification/Dis_Files.thy ===== *)
theory Dis_Files
  imports Disassembler Solve_Indirect Complex_Main
begin

text \<open>
  What the plugin reads and writes outside of the machine: the configuration (\<open>RecursiveDescentDisassembler::initialize\<close>,
  \<open>getConstantMemoryRanges\<close>), the jump tables (\<open>JumpTableInfoFactory::loadFromFile\<close>) and the list of thumb addresses
  that one run leaves to the next (\<open>exit\<close>). The configuration of S2E and the JSON library are parameters.
\<close>

section \<open>JSON\<close>

text \<open>Every number is a double, so a rational.\<close>

datatype json = JNull | JBool bool | JNum rat | JStr string | JArr "json list" | JObj "(string \<times> json) list"

text \<open>
  The library: a file is what its writer leaves and its reader gets; a reader that throws gives \<open>None\<close>, and a
  conversion that throws a fault.
\<close>

record 'f cajun =
  read_array :: "'f \<Rightarrow> json list option"
  read_object :: "'f \<Rightarrow> (string \<times> json) list option"
  write_array :: "json list \<Rightarrow> 'f"
  as_number :: "json \<Rightarrow> rat res"
  as_array :: "json \<Rightarrow> json list res"
  as_object :: "json \<Rightarrow> (string \<times> json) list res"
  element :: "(string \<times> json) list \<Rightarrow> string \<Rightarrow> json"

text \<open>
  What is relied on: an element of the right type converts, a member is found by its name, and an array of whole numbers
  of at most 20 digits, the precision of the writer, is read as it was written.
\<close>

definition cajun_ok :: "'f cajun \<Rightarrow> bool" where
  "cajun_ok J \<longleftrightarrow> (\<forall>r. as_number J (JNum r) = Inr r) \<and> (\<forall>xs. as_array J (JArr xs) = Inr xs)
     \<and> (\<forall>ms. as_object J (JObj ms) = Inr ms) \<and> (\<forall>ms n v. map_of ms n = Some v \<longrightarrow> element J ms n = v)
     \<and> (\<forall>ns. (\<forall>n \<in> set ns. n \<le> 2 ^ 64) \<longrightarrow>
          read_array J (write_array J (map (\<lambda>n. JNum (of_nat n)) ns)) = Some (map (\<lambda>n. JNum (of_nat n)) ns))"

section \<open>Doubles\<close>

text \<open>
  The conversion of a \<open>uint64_t\<close> to a double keeps 53 bits, rounded to the nearest and on a tie to the even one; the
  conversion back truncates and is undefined out of range.
\<close>

fun bit_len :: "nat \<Rightarrow> nat" where
  "bit_len n = (if n = 0 then 0 else Suc (bit_len (n div 2)))"

declare bit_len.simps [simp del]

definition to_double :: "nat \<Rightarrow> nat" where
  "to_double n = (let u = 2 ^ (bit_len n - 53); m = n div u; r = n mod u in
     (if 2 * r > u \<or> 2 * r = u \<and> odd m then m + 1 else m) * u)"

definition double_to_u64 :: "rat \<Rightarrow> u64 res" where
  "double_to_u64 r = (if - 1 < r \<and> r < 2 ^ 64 then Inr (of_nat (nat \<lfloor>r\<rfloor>)) else Inl (BadCast ''uint64_t''))"

definition get_uint64_t_from_field :: "'f cajun \<Rightarrow> json \<Rightarrow> u64 res" where
  "get_uint64_t_from_field J e = rbind (as_number J e) double_to_u64"

section \<open>Jump tables\<close>

definition JumpTableInfo_of :: "'f cajun \<Rightarrow> (string \<times> json) list \<Rightarrow> jump_table_info res" where
  "JumpTableInfo_of J obj = (let field = (\<lambda>n. get_uint64_t_from_field J (element J obj n)) in
     rbind (field ''bb_start'') (\<lambda>s. rbind (field ''bb_end'') (\<lambda>e.
     rbind (field ''indirect_jmp_pc'') (\<lambda>i. rbind (field ''default_case_pc'') (\<lambda>d.
     rbind (field ''idx_start'') (\<lambda>a. rbind (field ''idx_stop'') (\<lambda>z. rbind (field ''base_table'') (\<lambda>b.
       Inr \<lparr>jt_bb_start = s, jt_bb_end = e, indirect_jmp_pc = i, default_case_pc = d, base_table = b,
            idx_start = a, idx_stop = z\<rparr>))))))))"

definition load_function_tables :: "'f cajun \<Rightarrow> (string \<times> json) list \<Rightarrow> string \<Rightarrow> jump_table_info list res" where
  "load_function_tables J rt funcName = rbind (as_array J (element J rt funcName))
     (rmap (\<lambda>ti. rbind (as_object J ti) (JumpTableInfo_of J)))"

definition loadFromFile :: "'f cajun \<Rightarrow> 'f \<Rightarrow> jump_table_info list res" where
  "loadFromFile J stream = (case read_object J stream of
     None \<Rightarrow> Inl (Thrown ''json::Exception'')
   | Some rt \<Rightarrow> rbind (rmap (load_function_tables J rt) (map fst rt)) (\<lambda>ts. Inr (concat ts)))"

section \<open>The configuration\<close>

text \<open>An integer that is missing comes back as not ok.\<close>

record config =
  getInt :: "string \<Rightarrow> u64 option"
  getString :: "string \<Rightarrow> string"
  getListKeys :: "string \<Rightarrow> string list option"
  getConfigKey :: string

definition config_range :: "config \<Rightarrow> string \<Rightarrow> (u64 \<times> u64) option" where
  "config_range C configKey = (case (getInt C (configKey @ ''.address''), getInt C (configKey @ ''.size'')) of
     (Some addr, Some sz) \<Rightarrow> Some (addr, sz)
   | _ \<Rightarrow> None)"

definition getConstantMemoryRanges :: "config \<Rightarrow> (u64 \<times> u64) list" where
  "getConstantMemoryRanges C = (case getListKeys C (getConfigKey C @ ''.constantMemoryRanges'') of
     None \<Rightarrow> []
   | Some keys \<Rightarrow> List.map_filter (\<lambda>k. config_range C (getConfigKey C @ ''.constantMemoryRanges.'' @ k)) keys)"

definition allowed_range :: "config \<Rightarrow> string \<Rightarrow> (u64 \<times> u64) option" where
  "allowed_range C configKey = (case config_range C configKey of
     None \<Rightarrow> None
   | Some (addr, sz) \<Rightarrow> if addr = sz then None else Some (addr, sz))"

definition allowedPcRanges :: "config \<Rightarrow> (u64 \<times> u64) list" where
  "allowedPcRanges C = (case getListKeys C (getConfigKey C @ ''.allowedPcRanges'') of
     None \<Rightarrow> []
   | Some rangesKeys \<Rightarrow> List.map_filter (\<lambda>k. allowed_range C (getConfigKey C @ ''.allowedPcRanges.'' @ k)) rangesKeys)"

section \<open>initialize, from the files\<close>

definition read_interval :: "'f cajun \<Rightarrow> json \<Rightarrow> (u64 \<times> u64) res" where
  "read_interval J entry = rbind (as_array J entry) (\<lambda>pcs. (case pcs of
     [s, e] \<Rightarrow> rbind (get_uint64_t_from_field J s) (\<lambda>pc_start. rbind (get_uint64_t_from_field J e) (\<lambda>pc_end.
       Inr (pc_start, pc_end)))
   | _ \<Rightarrow> Inl (AssertFailed ''pcs.Size() == 2'')))"

definition read_visited :: "'f cajun \<Rightarrow> 'f \<Rightarrow> (u64 \<times> u64) list res" where
  "read_visited J stream = (case read_array J stream of
     None \<Rightarrow> Inl (Thrown ''json::Exception'')
   | Some rt \<Rightarrow> rmap (read_interval J) rt)"

definition read_thumb :: "'f cajun \<Rightarrow> json \<Rightarrow> dis \<Rightarrow> dis res" where
  "read_thumb J entry d = rbind (get_uint64_t_from_field J entry) (\<lambda>pc. add_thumb pc d)"

definition read_thumbs :: "'f cajun \<Rightarrow> 'f \<Rightarrow> string \<Rightarrow> dis \<Rightarrow> dis res" where
  "read_thumbs J stream isThumbOut d = (case read_array J stream of
     None \<Rightarrow> Inr d
   | Some rt \<Rightarrow> rbind (rfold (read_thumb J) rt d) (\<lambda>d'.
       rbind (require (isThumbOut \<noteq> []) (AssertFailed ''isThumbOut != empty'')) (\<lambda>_. Inr d')))"

record plugin =
  p_dis :: dis
  m_allowedPcRanges :: "(u64 \<times> u64) list"
  thumbOut :: string

definition config_string :: "config \<Rightarrow> string \<Rightarrow> string" where
  "config_string C nm = getString C (getConfigKey C @ nm)"

text \<open>The files by name; a name that is empty is not opened.\<close>

definition initialize_plugin :: "'f cajun \<Rightarrow> (string \<Rightarrow> 'f) \<Rightarrow> config \<Rightarrow> plugin res" where
  "initialize_plugin J file C =
     (let initialAlreadyVisited = config_string C ''.initialAlreadyVisited''; isThumbIn = config_string C ''.isThumbIn'';
          isThumbOut = config_string C ''.isThumbOut''; jumpTableInfoPath = config_string C ''.jumpTableInfoPath'' in
      rbind (if initialAlreadyVisited = [] then Inr [] else read_visited J (file initialAlreadyVisited)) (\<lambda>ivs.
      rbind (if jumpTableInfoPath = [] then Inr [] else loadFromFile J (file jumpTableInfoPath)) (\<lambda>infos.
      let d1 = (fold add_interval ivs empty_dis)\<lparr>mapJumpTableInfo := fold (\<lambda>info m. m(jt_bb_start info \<mapsto> info)) infos Map.empty\<rparr> in
      rbind (if isThumbIn = [] then Inr d1 else read_thumbs J (file isThumbIn) isThumbOut d1) (\<lambda>d2.
        Inr \<lparr>p_dis = d2, m_allowedPcRanges = allowedPcRanges C, thumbOut = isThumbOut\<rparr>))))"

section \<open>exit\<close>

text \<open>\<open>m_isPCThumb\<close> is iterated in the order of its keys.\<close>

definition thumb_pcs :: "dis \<Rightarrow> u64 list" where
  "thumb_pcs d = sorted_list_of_set {pc. m_isPCThumb d pc = Some True}"

definition exit_thumb :: "'f cajun \<Rightarrow> dis \<Rightarrow> 'f" where
  "exit_thumb J d = write_array J (map (\<lambda>pc. JNum (of_nat (to_double (unat pc)))) (thumb_pcs d))"

section \<open>Other files\<close>

text \<open>
  The file \<open>ARMDumpThumbBit\<close> leaves for \<open>isThumbIn\<close>, and the listing of the translated blocks, where the printing
  of a function is LLVM's.
\<close>

definition dump_thumb_file :: "lmodule \<Rightarrow> string" where
  "dump_thumb_file m = json_file (arm_dump_thumb_bit m)"

definition saveTranslatedBasicBlocks :: "(func \<Rightarrow> string) \<Rightarrow> translated_bb list \<Rightarrow> string" where
  "saveTranslatedBasicBlocks print allBBs = concat (map (\<lambda>bb.
     ''; bb@'' @ dec_digits (unat (m_pcStart bb)) @ [CHR 0x0A] @ print (m_bbFunction bb) @ [CHR 0x0A] @
     '';@@@@@@@@@'' @ [CHR 0x0A]) allBBs)"

section \<open>Numbers survive\<close>

lemma bit_len_le: "n < 2 ^ k \<Longrightarrow> bit_len n \<le> k"
proof (induction n arbitrary: k rule: bit_len.induct)
  case (1 n)
  show ?case
  proof (cases "n = 0")
    case False
    then obtain j where k: "k = Suc j" using 1(2) by (cases k) auto
    then have "n div 2 < 2 ^ j" using 1(2) by auto
    then show ?thesis using 1(1) [OF False] False k by (subst bit_len.simps) simp
  qed (simp add: bit_len.simps)
qed

lemma to_double_exact: "n < 2 ^ 53 \<Longrightarrow> to_double n = n"
  using bit_len_le [of n 53] by (simp add: to_double_def Let_def)

lemma double_to_u64_nat: "n < 2 ^ 64 \<Longrightarrow> double_to_u64 (of_nat n) = Inr (of_nat n)"
proof -
  assume n: "n < 2 ^ 64"
  have "(of_nat n :: rat) < of_nat (2 ^ 64)" using n by (simp only: of_nat_less_iff)
  then show ?thesis by (simp add: double_to_u64_def)
qed

lemma u64_bound: "unat (x :: u64) < 2 ^ 64"
proof -
  have "unat x < 2 ^ LENGTH(64)" by (rule unsigned_less)
  then show ?thesis by simp
qed

lemma number_field: "cajun_ok J \<Longrightarrow> n < 2 ^ 64 \<Longrightarrow> get_uint64_t_from_field J (JNum (of_nat n)) = Inr (of_nat n)"
  by (simp add: get_uint64_t_from_field_def cajun_ok_def double_to_u64_nat)

section \<open>Jump table files\<close>

text \<open>The entry of a table in such a file, its fields program counters a double holds exactly.\<close>

definition table_json :: "jump_table_info \<Rightarrow> json" where
  "table_json t = JObj (map (\<lambda>(nm, f). (nm, JNum (of_nat (to_double (unat (f t))))))
     [(''bb_start'', jt_bb_start), (''bb_end'', jt_bb_end), (''indirect_jmp_pc'', indirect_jmp_pc),
      (''default_case_pc'', default_case_pc), (''idx_start'', idx_start), (''idx_stop'', idx_stop),
      (''base_table'', base_table)])"

definition table_exact :: "jump_table_info \<Rightarrow> bool" where
  "table_exact t \<longleftrightarrow> (\<forall>f \<in> {jt_bb_start, jt_bb_end, indirect_jmp_pc, default_case_pc, idx_start, idx_stop, base_table}.
     unat (f t) < 2 ^ 53)"

lemma pc_field:
  assumes "cajun_ok J" and "unat (pc :: u64) < 2 ^ 53"
  shows "get_uint64_t_from_field J (JNum (of_nat (to_double (unat pc)))) = Inr pc"
  using number_field [OF assms(1), of "unat pc"] u64_bound [of pc] by (simp add: to_double_exact [OF assms(2)])

lemma load_table:
  assumes ok: "cajun_ok J" and x: "table_exact t"
  shows "rbind (as_object J (table_json t)) (JumpTableInfo_of J) = Inr t"
proof -
  define num where "num = (\<lambda>f :: jump_table_info \<Rightarrow> u64. JNum (of_nat (to_double (unat (f t)))))"
  define ms where "ms = [(''bb_start'', num jt_bb_start), (''bb_end'', num jt_bb_end), (''indirect_jmp_pc'', num indirect_jmp_pc),
      (''default_case_pc'', num default_case_pc), (''idx_start'', num idx_start), (''idx_stop'', num idx_stop),
      (''base_table'', num base_table)]"
  have t: "table_json t = JObj ms" by (simp add: table_json_def ms_def num_def)
  have el: "element J ms n = v" if "map_of ms n = Some v" for n v using ok that by (simp add: cajun_ok_def)
  have fld: "element J ms ''bb_start'' = num jt_bb_start" "element J ms ''bb_end'' = num jt_bb_end"
    "element J ms ''indirect_jmp_pc'' = num indirect_jmp_pc" "element J ms ''default_case_pc'' = num default_case_pc"
    "element J ms ''idx_start'' = num idx_start" "element J ms ''idx_stop'' = num idx_stop"
    "element J ms ''base_table'' = num base_table"
    by (rule el, simp add: ms_def)+
  have "get_uint64_t_from_field J (num f) = Inr (f t)"
    if "f \<in> {jt_bb_start, jt_bb_end, indirect_jmp_pc, default_case_pc, idx_start, idx_stop, base_table}" for f
    using x that pc_field [OF ok] unfolding table_exact_def num_def by blast
  then show ?thesis using ok by (simp add: t cajun_ok_def JumpTableInfo_of_def Let_def fld)
qed

lemma rmap_map_id: "(\<And>t. t \<in> set ts \<Longrightarrow> g (h t) = Inr t) \<Longrightarrow> rmap g (map h ts) = Inr ts"
  by (induction ts) simp_all

theorem loadFromFile_tables:
  assumes ok: "cajun_ok J" and f: "read_object J stream = Some (map (\<lambda>(f, ts). (f, JArr (map table_json ts))) funs)"
    and d: "distinct (map fst funs)" and x: "\<forall>(f, ts) \<in> set funs. \<forall>t \<in> set ts. table_exact t"
  shows "loadFromFile J stream = Inr (concat (map snd funs))"
proof -
  let ?root = "map (\<lambda>(f, ts). (f, JArr (map table_json ts))) funs"
  have "load_function_tables J ?root f = Inr ts" if m: "(f, ts) \<in> set funs" for f ts
  proof -
    have "map_of funs f = Some ts" using m d by simp
    then have "map_of ?root f = Some (JArr (map table_json ts))" by (simp add: map_of_map)
    then have "element J ?root f = JArr (map table_json ts)" using ok by (simp add: cajun_ok_def)
    moreover have "rmap (\<lambda>ti. rbind (as_object J ti) (JumpTableInfo_of J)) (map table_json ts) = Inr ts"
      using x m load_table [OF ok] by (intro rmap_map_id) fastforce
    ultimately show ?thesis using ok by (simp add: load_function_tables_def cajun_ok_def)
  qed
  then have "rmap (load_function_tables J ?root) (map fst gs) = Inr (map snd gs)" if "set gs \<subseteq> set funs" for gs
    using that by (induction gs) auto
  then show ?thesis by (simp add: loadFromFile_def f comp_def case_prod_beta)
qed

section \<open>From one run to the next\<close>

text \<open>The thumb addresses of a run have no thumb bit.\<close>

definition thumb_even :: "dis \<Rightarrow> bool" where
  "thumb_even d \<longleftrightarrow> (\<forall>pc. m_isPCThumb d pc = Some True \<longrightarrow> pc AND 1 = 0)"

text \<open>What the thumb addresses are read into: nothing is thumb yet.\<close>

definition configured :: "(u64 \<times> u64) list \<Rightarrow> jump_table_info list \<Rightarrow> dis" where
  "configured ivs infos = (fold add_interval ivs empty_dis)\<lparr>mapJumpTableInfo := fold (\<lambda>info m. m(jt_bb_start info \<mapsto> info)) infos Map.empty\<rparr>"

lemma configured_thumb [simp]: "m_isPCThumb (configured ivs infos) = Map.empty"
  using intervals_folded [of ivs empty_dis] by (simp add: configured_def fresh_empty)

lemma initialize_plugin_cases:
  assumes "initialize_plugin J fs C = Inr p"
  obtains ivs infos where "config_string C ''.isThumbIn'' = []" "p_dis p = configured ivs infos"
  | ivs infos where "config_string C ''.isThumbIn'' \<noteq> []"
    "read_thumbs J (fs (config_string C ''.isThumbIn'')) (config_string C ''.isThumbOut'') (configured ivs infos) = Inr (p_dis p)"
proof -
  obtain ivs infos d2 where "(if config_string C ''.isThumbIn'' = [] then Inr (configured ivs infos)
      else read_thumbs J (fs (config_string C ''.isThumbIn'')) (config_string C ''.isThumbOut'') (configured ivs infos)) = Inr d2"
    "p_dis p = d2"
    using assms unfolding initialize_plugin_def Let_def configured_def rbind_eq_Inr by force
  then show thesis using that by (cases "config_string C ''.isThumbIn'' = []") auto
qed

text \<open>The state is the one \<open>initialize_dis\<close> gives on the contents of the files.\<close>

lemma read_thumb_list:
  "rfold (read_thumb J) es d = Inr d' \<Longrightarrow> \<exists>pcs. rfold add_thumb pcs d = Inr d'"
proof (induction es arbitrary: d)
  case Nil
  then show ?case by (intro exI [of _ "[]"]) simp
next
  case (Cons e es)
  then obtain pc d1 where pc: "add_thumb pc d = Inr d1" "rfold (read_thumb J) es d1 = Inr d'"
    unfolding rfold.simps by (fastforce simp: read_thumb_def [of _ e] rbind_eq_Inr)
  then obtain pcs where "rfold add_thumb pcs d1 = Inr d'" using Cons.IH by blast
  then show ?case using pc(1) by (intro exI [of _ "pc # pcs"]) simp
qed

theorem initialize_plugin_parses:
  assumes "initialize_plugin J fs C = Inr p"
  shows "\<exists>ivs infos thumbs. initialize_dis ivs infos thumbs (config_string C ''.isThumbOut'' \<noteq> []) = Inr (p_dis p)"
proof -
  have none: "initialize_dis ivs infos None out = Inr (configured ivs infos)" for ivs infos out
    by (simp add: initialize_dis_def configured_def Let_def)
  from assms show ?thesis
  proof (cases rule: initialize_plugin_cases)
    case (1 ivs infos)
    then show ?thesis using none [of ivs infos] by metis
  next
    case (2 ivs infos)
    show ?thesis
    proof (cases "read_array J (fs (config_string C ''.isThumbIn''))")
      case None
      then show ?thesis using 2 none [of ivs infos] by (simp add: read_thumbs_def) metis
    next
      case (Some rt)
      then have "rfold (read_thumb J) rt (configured ivs infos) = Inr (p_dis p)" "config_string C ''.isThumbOut'' \<noteq> []"
        using 2 by (auto simp: read_thumbs_def rbind_eq_Inr require_def split: if_splits)
      then obtain pcs where "rfold add_thumb pcs (configured ivs infos) = Inr (p_dis p)" using read_thumb_list by blast
      then have "initialize_dis ivs infos (Some pcs) True = Inr (p_dis p)"
        by (simp add: initialize_dis_def configured_def Let_def require_def)
      then show ?thesis using \<open>config_string C ''.isThumbOut'' \<noteq> []\<close> by auto
    qed
  qed
qed

lemma thumb_even_initial:
  assumes "initialize_plugin J fs C = Inr p"
  shows "thumb_even (p_dis p)"
proof -
  obtain ivs infos thumbs out where i: "initialize_dis ivs infos thumbs out = Inr (p_dis p)"
    using initialize_plugin_parses [OF assms] by blast
  then have "\<forall>pc \<in> set (case thumbs of None \<Rightarrow> [] | Some pcs \<Rightarrow> pcs). pc AND 1 = 0"
    using initialize_errors [of ivs infos thumbs out] by (auto split: option.splits)
  then show ?thesis using initialize_result [OF i] by (simp add: thumb_even_def split: if_splits)
qed

lemma thumb_even_schedule: "thumb_even d \<Longrightarrow> thumb_even (fold (schedule_target tb imp mode) ts d)"
proof (induction ts arbitrary: d)
  case (Cons t ts)
  have "m_isPCThumb (explore_later pc d) = m_isPCThumb d" for pc by (simp add: explorePCLater_def)
  then have "thumb_even (schedule_target tb imp mode t d)"
    using Cons.prems real_pc_even by (auto simp: schedule_target_def Let_def thumb_even_def)
  with Cons.IH show ?case by simp
qed simp

lemma thumb_even_next: "next_scheduled q d = Inr (d', r) \<Longrightarrow> thumb_even d \<Longrightarrow> thumb_even d'"
proof (induction q d arbitrary: d' r rule: next_scheduled.induct)
  case (1 q d)
  show ?case
  proof (cases "moreToExplore d")
    case False
    then show ?thesis using 1(2,3) by (subst (asm) next_scheduled.simps) simp
  next
    case True
    obtain pc d1 where g: "getNextRealPC d = Inr (pc, d1)" using True by (simp add: getNextRealPC_def Let_def)
    obtain ok d2 c where p: "prepareStateForNextRealPC q pc d1 = Inr (ok, d2, c)"
      using 1(2) True g by (subst (asm) next_scheduled.simps) (auto split: sum.splits)
    have "m_isPCThumb d1 = m_isPCThumb d" using g by (auto simp: getNextRealPC_def Let_def rbind_eq_Inr)
    then have e: "thumb_even d2"
      using 1(3) p by (auto simp: prepareStateForNextRealPC_def rbind_eq_Inr Let_def thumb_even_def split: if_splits)
    show ?thesis
    proof (cases ok)
      case True
      then show ?thesis using 1(2) \<open>moreToExplore d\<close> g p e by (subst (asm) next_scheduled.simps) simp
    next
      case False
      have "\<not> \<not> moreToExplore d" using True by simp
      moreover have "next_scheduled q d2 = Inr (d', r)"
        using 1(2) True False g p by (subst (asm) next_scheduled.simps) simp
      ultimately show ?thesis using 1(1) [OF _ g refl p refl refl False] e by blast
    qed
  qed
qed

lemma thumb_even_slot:
  assumes s: "slotExecuteBlockStart clone q d c = Inr out" and e: "thumb_even d"
  shows "case out of CpuExit d' c' \<Rightarrow> thumb_even d' | Exited d' M \<Rightarrow> thumb_even d'"
proof (cases "mode_differs d c")
  case True
  then show ?thesis using s e by (auto simp: slotExecuteBlockStart_def)
next
  case False
  then obtain d1 tb imp pcs d3 r where h: "harvest_block q d c = Inr (d1, tb, imp, pcs)"
    "next_scheduled q (fold (schedule_target tb imp (cpu_thumb c \<noteq> 0)) pcs d1) = Inr (d3, r)"
    and o: "out = (case r of Some c' \<Rightarrow> CpuExit d3 c'
        | None \<Rightarrow> Exited d3 (createAndSaveTranslatedBasicBlocksAsAModule clone (m_allBasicBlocks d3)))"
    using s by (auto simp: slotExecuteBlockStart_def rbind_eq_Inr Let_def)
  have "m_isPCThumb d1 = m_isPCThumb d" using h(1) by (auto simp: harvest_block_def rbind_eq_Inr Let_def)
  then have "thumb_even d1" using e by (simp add: thumb_even_def)
  then have "thumb_even d3" using thumb_even_next [OF h(2)] thumb_even_schedule by blast
  then show ?thesis by (cases r) (simp_all add: o)
qed

lemma thumb_even_run: "disassemble clone q d c = Inr (d', M) \<Longrightarrow> thumb_even d \<Longrightarrow> thumb_even d'"
proof (induction clone q d c rule: disassemble.induct)
  case (1 clone q d c)
  obtain out where out: "slotExecuteBlockStart clone q d c = Inr out"
    using 1(2) by (subst (asm) disassemble.simps) (auto split: sum.splits)
  note e = thumb_even_slot [OF out 1(3)]
  show ?case
  proof (cases out)
    case (CpuExit d1 c1)
    then have "disassemble clone q d1 c1 = Inr (d', M)"
      using 1(2) out by (subst (asm) disassemble.simps) simp
    with 1(1) [OF out CpuExit] e CpuExit show ?thesis by simp
  next
    case (Exited d1 M1)
    then have "d1 = d'" using 1(2) out by (subst (asm) disassemble.simps) simp
    with e Exited show ?thesis by simp
  qed
qed

text \<open>The list read back.\<close>

lemma set_thumb_pcs [simp]: "set (thumb_pcs d) = {pc. m_isPCThumb d pc = Some True}"
  by (simp add: thumb_pcs_def)

lemma read_thumb_pcs:
  assumes ok: "cajun_ok J" and x: "\<forall>pc \<in> set pcs. unat pc < 2 ^ 53"
  shows "rfold (read_thumb J) (map (\<lambda>pc. JNum (of_nat (to_double (unat pc)))) pcs) d = rfold add_thumb pcs d"
proof -
  have "read_thumb J (JNum (of_nat (to_double (unat pc)))) = add_thumb pc" if "pc \<in> set pcs" for pc
    using x that by (intro ext) (simp add: read_thumb_def pc_field [OF ok])
  then show ?thesis
  proof (induction pcs arbitrary: d)
    case (Cons pc pcs)
    then have "rfold (read_thumb J) (map (\<lambda>pc. JNum (of_nat (to_double (unat pc)))) pcs) = rfold add_thumb pcs"
      by (intro ext) simp
    with Cons show ?case by simp
  qed simp
qed

lemma exit_thumb_read:
  assumes ok: "cajun_ok J" and x: "\<forall>pc \<in> set (thumb_pcs d). unat pc < 2 ^ 53"
  shows "read_array J (exit_thumb J d) = Some (map (\<lambda>pc. JNum (of_nat (to_double (unat pc)))) (thumb_pcs d))"
proof -
  let ?ns = "map (\<lambda>pc. to_double (unat pc)) (thumb_pcs d)"
  have "\<forall>n \<in> set ?ns. n \<le> 2 ^ 64" using x by (auto simp: to_double_exact)
  then have "read_array J (write_array J (map (\<lambda>n. JNum (of_nat n)) ?ns)) = Some (map (\<lambda>n. JNum (of_nat n)) ?ns)"
    using ok unfolding cajun_ok_def by blast
  then show ?thesis by (simp add: exit_thumb_def comp_def)
qed

lemma thumbs_read_back:
  assumes ok: "cajun_ok J" and e: "thumb_even d" and x: "\<forall>pc \<in> set (thumb_pcs d). unat pc < 2 ^ 53" and out: "out \<noteq> []"
  shows "read_thumbs J (exit_thumb J d) out d0 =
    Inr (d0\<lparr>m_isPCThumb := \<lambda>pc. if m_isPCThumb d pc = Some True then Some True else m_isPCThumb d0 pc\<rparr>)"
proof -
  have "\<forall>pc \<in> set (thumb_pcs d). pc AND 1 = 0" using e by (simp add: thumb_even_def)
  then have "rfold add_thumb (thumb_pcs d) d0 =
      Inr (d0\<lparr>m_isPCThumb := \<lambda>pc. if pc \<in> set (thumb_pcs d) then Some True else m_isPCThumb d0 pc\<rparr>)"
    by (simp only: thumbs_folded) simp
  then show ?thesis
    using out by (simp add: read_thumbs_def exit_thumb_read [OF ok x] read_thumb_pcs [OF ok x] require_def)
qed

text \<open>
  The list of \<open>ARMDumpThumbBit\<close>, read as it was written, marks no address but 0: the thumb blocks it was taken from are
  not known to the next run.
\<close>

theorem dumped_thumbs_lost:
  fixes J :: "string cajun"
  assumes ok: "cajun_ok J" and m: "\<forall>f \<in> set (mfuncs m). \<forall>i \<in> set (func_ins f). thumb_store i \<in> {None, Some 0, Some 1}"
    and r: "read_array J (dump_thumb_file m) = Some (map (\<lambda>pc. JNum (of_nat (unat pc))) (arm_dump_thumb_bit m))"
    and out: "out \<noteq> []"
  shows "\<exists>d. read_thumbs J (dump_thumb_file m) out d0 = Inr d \<and> (\<forall>pc. pc \<noteq> 0 \<longrightarrow> m_isPCThumb d pc = m_isPCThumb d0 pc)"
proof -
  let ?pcs = "arm_dump_thumb_bit m"
  have z: "set ?pcs \<subseteq> {0}" by (rule arm_dump_zero [OF m])
  then have e: "map (\<lambda>pc. JNum (of_nat (unat pc))) ?pcs = map (\<lambda>pc. JNum (of_nat (to_double (unat pc)))) ?pcs"
    by (auto simp: to_double_exact)
  have x: "\<forall>pc \<in> set ?pcs. unat pc < 2 ^ 53" "\<forall>pc \<in> set ?pcs. pc AND 1 = 0" using z by auto
  have "rfold add_thumb ?pcs d0 = Inr (d0\<lparr>m_isPCThumb := \<lambda>pc. if pc \<in> set ?pcs then Some True else m_isPCThumb d0 pc\<rparr>)"
    using x(2) unfolding thumbs_folded by (rule if_P)
  then have "read_thumbs J (dump_thumb_file m) out d0 =
      Inr (d0\<lparr>m_isPCThumb := \<lambda>pc. if pc \<in> set ?pcs then Some True else m_isPCThumb d0 pc\<rparr>)"
    using out unfolding read_thumbs_def r e option.case read_thumb_pcs [OF ok x(1)] by (simp add: require_def)
  then show ?thesis using z by auto
qed

section \<open>Properties\<close>

text \<open>
  C39. The thumb addresses a run leaves in its output file, below \<open>2 ^ 53\<close> as every ARM address is, are exactly the ones
  the next run starts with when it is given that file, and a next run that reads nothing else starts without an error.
\<close>

theorem thumb_modes_survive:
  assumes "cajun_ok J" and "initialize_plugin J fs C = Inr p" and "disassemble clone q (p_dis p) c = Inr (d', M)"
    and "\<forall>pc. m_isPCThumb d' pc = Some True \<longrightarrow> unat pc < 2 ^ 53"
    and "config_string C' ''.isThumbIn'' \<noteq> []" and "config_string C' ''.isThumbOut'' \<noteq> []"
    and "fs' (config_string C' ''.isThumbIn'') = exit_thumb J d'"
  shows "(\<forall>p'. initialize_plugin J fs' C' = Inr p' \<longrightarrow>
      m_isPCThumb (p_dis p') = (\<lambda>pc. if m_isPCThumb d' pc = Some True then Some True else None))
    \<and> (config_string C' ''.initialAlreadyVisited'' = [] \<and> config_string C' ''.jumpTableInfoPath'' = [] \<longrightarrow>
      (\<exists>p'. initialize_plugin J fs' C' = Inr p'))"
proof -
  have "thumb_even d'" using thumb_even_run [OF assms(3) thumb_even_initial [OF assms(2)]] .
  moreover have "\<forall>pc \<in> set (thumb_pcs d'). unat pc < 2 ^ 53" using assms(4) by simp
  ultimately have r: "read_thumbs J (fs' (config_string C' ''.isThumbIn'')) (config_string C' ''.isThumbOut'') d0 =
      Inr (d0\<lparr>m_isPCThumb := \<lambda>pc. if m_isPCThumb d' pc = Some True then Some True else m_isPCThumb d0 pc\<rparr>)" for d0
    using thumbs_read_back [OF assms(1)] assms(6,7) by simp
  have "m_isPCThumb (p_dis p') = (\<lambda>pc. if m_isPCThumb d' pc = Some True then Some True else None)"
    if "initialize_plugin J fs' C' = Inr p'" for p'
    using that
  proof (cases rule: initialize_plugin_cases)
    case (2 ivs infos)
    then have "p_dis p' = (configured ivs infos)\<lparr>m_isPCThumb := \<lambda>pc. if m_isPCThumb d' pc = Some True then Some True
        else m_isPCThumb (configured ivs infos) pc\<rparr>" using r by simp
    then show ?thesis by (intro ext) simp
  qed (use assms(5) in simp)
  then show ?thesis using assms(5) r by (auto simp: initialize_plugin_def Let_def)
qed

text \<open>A run that knows one thumb address, over a machine whose blocks all return.\<close>

definition plain_cajun :: "json list cajun" where
  "plain_cajun = \<lparr>read_array = Some, read_object = (\<lambda>f. None), write_array = (\<lambda>xs. xs),
     as_number = (\<lambda>j. case j of JNum r \<Rightarrow> Inr r | _ \<Rightarrow> Inl (BadCast ''json::Number'')),
     as_array = (\<lambda>j. case j of JArr xs \<Rightarrow> Inr xs | _ \<Rightarrow> Inl (BadCast ''json::Array'')),
     as_object = (\<lambda>j. case j of JObj ms \<Rightarrow> Inr ms | _ \<Rightarrow> Inl (BadCast ''json::Object'')),
     element = (\<lambda>ms n. case map_of ms n of Some v \<Rightarrow> v | None \<Rightarrow> JNull)\<rparr>"

definition thumb_config :: config where
  "thumb_config = \<lparr>getInt = (\<lambda>k. None),
     getString = (\<lambda>k. if k = ''D.isThumbIn'' \<or> k = ''D.isThumbOut'' then ''thumb.json'' else []),
     getListKeys = (\<lambda>k. None), getConfigKey = ''D''\<rparr>"

definition rest_tb :: func where
  "rest_tb = \<lparr>fid = 1, fname = ''tcg-llvm-tb-0'', fblocks = [\<lparr>bid = 1, bname = ''entry'', bins = [mk_ins 1 (Ret None)]\<rparr>]\<rparr>"

definition rest_view :: llvm_view where
  "rest_view = \<lparr>getName = (\<lambda>v. []), use_list = (\<lambda>F v. []), gep_types = (\<lambda>n. [])\<rparr>"

definition rest_qemu :: qemu where
  "rest_qemu = \<lparr>tb_function = (\<lambda>pc thumb. rest_tb), tb_end = (\<lambda>pc thumb. pc + 4), tb_view = (\<lambda>f. rest_view),
     inline_function = (\<lambda>f n. None), read_mem32 = (\<lambda>a. 0), is_valid_code_addr = (\<lambda>pc. False)\<rparr>"

definition rest_cpu :: cpu where
  "rest_cpu = \<lparr>cpu_pc = 0x8000, cpu_thumb = 1\<rparr>"

lemma plain_cajun_ok: "cajun_ok plain_cajun"
  by (simp add: cajun_ok_def plain_cajun_def)

lemma thumb_config_strings [simp]:
  "config_string thumb_config ''.isThumbIn'' = ''thumb.json''" "config_string thumb_config ''.isThumbOut'' = ''thumb.json''"
  "config_string thumb_config ''.initialAlreadyVisited'' = []" "config_string thumb_config ''.jumpTableInfoPath'' = []"
  by (simp_all add: config_string_def thumb_config_def)

definition thumb_start :: dis where
  "thumb_start = empty_dis\<lparr>m_isPCThumb := [0x8000 \<mapsto> True]\<rparr>"

lemma thumb_started:
  "\<exists>p. initialize_plugin plain_cajun (\<lambda>f. [JNum 0x8000]) thumb_config = Inr p \<and> p_dis p = thumb_start"
proof -
  have "double_to_u64 (of_nat 0x8000) = Inr (of_nat 0x8000)" by (rule double_to_u64_nat) simp
  then show ?thesis
    by (simp add: initialize_plugin_def Let_def read_thumbs_def read_thumb_def get_uint64_t_from_field_def add_thumb_def
        plain_cajun_def require_def thumb_start_def empty_dis_def)
qed

lemma rest_rewritten: "\<exists>m'. rewrite_block rest_qemu rest_tb m = Inr (rest_tb, m')"
proof -
  have "inline_helpers I rest_tb = Some (rest_tb, False)" for I
    by (simp add: inline_helpers_def inline_loop.simps functionsToInline_def rest_tb_def func_ins_def
        shouldInlineCall_def mk_ins_def)
  moreover have "\<exists>m'. transform_pass rest_view rest_tb m = Inr (rest_tb, m')"
    by (simp add: transform_pass_def collect_accesses_def rest_tb_def rest_view_def env_loads_def func_ins_def find_ins_def
        eval_nat_numeral erase_later_def fresh_iid_def ins_ids_def getOrInsertGlobal_def insert_first_def insert_accesses_def
        map_blocks_def new_access_def is_phi_def replace_uses_def rauw_def map_ins_def erase_all_def erase_from_parent_def
        drop_ids_def mk_ins_def Let_def)
  ultimately show ?thesis by (simp add: rewrite_block_def rest_qemu_def)
qed

lemma rest_harvest:
  "\<exists>d1 tb. harvest_block rest_qemu thumb_start rest_cpu = Inr (d1, tb, None, []) \<and> m_isPCThumb d1 = m_isPCThumb thumb_start
     \<and> m_scheduledPCsVector d1 = []"
proof -
  have "extract_possible_targets (getName rest_view) rest_tb = Inr \<lparr>targetPCs = [], implicitTarget = None\<rparr>" by code_simp
  moreover obtain m' where "rewrite_block rest_qemu rest_tb (m_tbModule thumb_start) = Inr (rest_tb, m')"
    using rest_rewritten by blast
  moreover obtain tb where "getThumbBit (set_entry_name rest_tb) = Inr tb"
    by (simp add: getThumbBit_def rest_tb_def set_entry_name_def thumb_block_def is_exit_def terminator_def
       mk_ins_def thumb_step_def store_to_def)
  moreover have "tb_function rest_qemu a b = rest_tb" "tb_view rest_qemu f = rest_view" "cpu_pc rest_cpu < tb_end rest_qemu (cpu_pc rest_cpu) b"
    for a b f by (simp_all add: rest_qemu_def rest_cpu_def)
  ultimately show ?thesis
    by (simp add: harvest_block_def jump_table_pcs_def Let_def thumb_start_def empty_dis_def)
qed

lemma rest_runs: "\<exists>d' M. disassemble clone rest_qemu thumb_start rest_cpu = Inr (d', M) \<and> m_isPCThumb d' = [0x8000 \<mapsto> True]"
proof -
  obtain d1 tb where h: "harvest_block rest_qemu thumb_start rest_cpu = Inr (d1, tb, None, [])"
    "m_isPCThumb d1 = m_isPCThumb thumb_start" "m_scheduledPCsVector d1 = []" using rest_harvest by blast
  have "\<not> mode_differs thumb_start rest_cpu" by (simp add: mode_differs_def thumb_start_def rest_cpu_def real_pc_def)
  moreover have "next_scheduled rest_qemu d1 = Inr (d1, None)" using h(3) by (subst next_scheduled.simps) (simp add: moreToExplore_def)
  ultimately have "slotExecuteBlockStart clone rest_qemu thumb_start rest_cpu =
      Inr (Exited d1 (createAndSaveTranslatedBasicBlocksAsAModule clone (m_allBasicBlocks d1)))"
    using h(1) by (simp add: slotExecuteBlockStart_def)
  then show ?thesis using h(2) by (subst disassemble.simps) (simp add: thumb_start_def)
qed

theorem thumb_modes_survive_witness:
  "\<exists>d' M p'. disassemble (\<lambda>_ f. f) rest_qemu thumb_start rest_cpu = Inr (d', M)
     \<and> initialize_plugin plain_cajun (\<lambda>f. exit_thumb plain_cajun d') thumb_config = Inr p'
     \<and> m_isPCThumb (p_dis p') = [0x8000 \<mapsto> True]"
proof -
  obtain p where p: "initialize_plugin plain_cajun (\<lambda>f. [JNum 0x8000]) thumb_config = Inr p" "p_dis p = thumb_start"
    using thumb_started by blast
  obtain d' M where d: "disassemble (\<lambda>_ f. f) rest_qemu thumb_start rest_cpu = Inr (d', M)" "m_isPCThumb d' = [0x8000 \<mapsto> True]"
    using rest_runs by blast
  have x: "\<forall>pc. m_isPCThumb d' pc = Some True \<longrightarrow> unat pc < 2 ^ 53" by (simp add: d(2))
  from thumb_modes_survive [OF plain_cajun_ok p(1) d(1) [folded p(2)] x, of thumb_config "\<lambda>f. exit_thumb plain_cajun d'"]
  obtain p' where "initialize_plugin plain_cajun (\<lambda>f. exit_thumb plain_cajun d') thumb_config = Inr p'"
    "m_isPCThumb (p_dis p') = (\<lambda>pc. if m_isPCThumb d' pc = Some True then Some True else None)"
    by auto
  moreover have "(\<lambda>pc. if m_isPCThumb d' pc = Some True then Some True else None) = [0x8000 \<mapsto> True]"
    by (rule ext) (simp add: d(2))
  ultimately show ?thesis using d(1) by auto
qed

end
