(* ===== verification/Table_Runs.thy ===== *)
theory Table_Runs
  imports Dis_Files
begin

unbundle bit_operations_syntax

text \<open>
  Jump tables from the file to the exploration: what \<open>JumpTableInfoFactory::loadFromFile\<close> reads, \<open>initialize\<close> enters under
  the start of the block, and \<open>slotExecuteBlockStart\<close> follows when it meets that block with that end.
\<close>

section \<open>The tables of the plugin\<close>

lemma table_kept:
  "k \<notin> jt_bb_start ` set infos \<Longrightarrow> fold (\<lambda>info m. m(jt_bb_start info \<mapsto> info)) infos m k = m k"
  by (induction infos arbitrary: m) simp_all

lemma table_entered:
  "distinct (map jt_bb_start infos) \<Longrightarrow> t \<in> set infos \<Longrightarrow>
   fold (\<lambda>info m. m(jt_bb_start info \<mapsto> info)) infos m (jt_bb_start t) = Some t"
  by (induction infos arbitrary: m) (auto simp: table_kept)

lemma configured_tables: "mapJumpTableInfo (configured ivs infos) = fold (\<lambda>info m. m(jt_bb_start info \<mapsto> info)) infos Map.empty"
  by (simp add: configured_def)

lemma initialize_plugin_tables:
  assumes "initialize_plugin J fs C = Inr p"
  shows "\<exists>infos. (if config_string C ''.jumpTableInfoPath'' = [] then Inr []
      else loadFromFile J (fs (config_string C ''.jumpTableInfoPath''))) = Inr infos
    \<and> mapJumpTableInfo (p_dis p) = fold (\<lambda>info m. m(jt_bb_start info \<mapsto> info)) infos Map.empty"
proof -
  obtain ivs infos where infos: "(if config_string C ''.jumpTableInfoPath'' = [] then Inr []
      else loadFromFile J (fs (config_string C ''.jumpTableInfoPath''))) = Inr infos"
    and d: "(if config_string C ''.isThumbIn'' = [] then Inr (configured ivs infos)
      else read_thumbs J (fs (config_string C ''.isThumbIn'')) (config_string C ''.isThumbOut'') (configured ivs infos)) = Inr (p_dis p)"
    using assms unfolding initialize_plugin_def Let_def configured_def rbind_eq_Inr by force
  have add: "mapJumpTableInfo d' = mapJumpTableInfo d0" if "read_thumb J e d0 = Inr d'" for e d0 d'
    using that by (auto simp: read_thumb_def add_thumb_def rbind_eq_Inr)
  have fold: "mapJumpTableInfo d' = mapJumpTableInfo d0" if "rfold (read_thumb J) es d0 = Inr d'" for es d0 d'
    by (rule rfold_invariant [where P = "\<lambda>d. mapJumpTableInfo d = mapJumpTableInfo d0", OF that]) (use add in auto)
  have "mapJumpTableInfo d' = mapJumpTableInfo d0" if "read_thumbs J f out d0 = Inr d'" for f out d0 d'
    using that fold by (auto simp: read_thumbs_def rbind_eq_Inr split: option.splits)
  then have "mapJumpTableInfo (p_dis p) = mapJumpTableInfo (configured ivs infos)"
    using d by (auto split: if_splits)
  then show ?thesis using infos configured_tables by auto
qed

section \<open>The run\<close>

text \<open>Every recorded block of a run that started from \<open>initialize\<close> has its targets recorded, visited or no code.\<close>

lemma run_closed:
  assumes "fresh_dis d" and "disassemble clone q d c = Inr (d', M)" and "b \<in> set (m_allBasicBlocks d')"
  shows "block_closed q (mapJumpTableInfo d) (recorded d' \<union> dom (m_visitedPC d) \<union> {pc. \<not> is_valid_code_addr q pc}) b"
proof -
  have inv: "inv_recorded q (mapJumpTableInfo d) (dom (m_visitedPC d)) d'" "inv_scheduled q {} d'" "m_scheduledPCsVector d' = []"
    using disassemble_inv [OF fresh_inv [OF assms(1)] assms(2)] by (simp_all add: dis_inv_def)
  then have "seen_pcs d' \<subseteq> recorded d' \<union> dom (m_visitedPC d) \<union> {pc. \<not> is_valid_code_addr q pc}"
    by (auto simp: seen_pcs_def inv_recorded_def inv_scheduled_def)
  then show ?thesis using inv(1) assms(3) block_closed_mono unfolding inv_recorded_def by blast
qed

definition table_targets :: "qemu \<Rightarrow> jump_table_info \<Rightarrow> u64 set" where
  "table_targets q t = insert (default_case_pc t)
     ((\<lambda>i. ucast (read_mem32 q (base_table t + 4 * of_nat i))) ` {0..<nat (entry_count t)})"

lemma table_pcs_targets:
  assumes "jump_table_pcs q jt pc e = Inr table" and "jt pc = Some t" and "e = jt_bb_end t"
  shows "1 \<le> entry_count t \<and> set table = table_targets q t"
  using assms by (auto simp: jump_table_pcs_def rbind_eq_Inr require_def table_targets_def split: if_splits)

section \<open>Properties\<close>

text \<open>
  C26. When a run that was given a file of jump tables, at most one for a block, records a block one of them is for, then
  the table is not empty and every entry of it, read from the memory of the machine, and its default case are recorded
  too, were given as already visited, or are no code address.
\<close>

theorem table_targets_explored:
  assumes "cajun_ok J" and "config_string C ''.jumpTableInfoPath'' \<noteq> []"
    and "read_object J (fs (config_string C ''.jumpTableInfoPath'')) = Some (map (\<lambda>(f, ts). (f, JArr (map table_json ts))) funs)"
    and "distinct (map fst funs)" and "\<forall>(f, ts) \<in> set funs. \<forall>t \<in> set ts. table_exact t"
    and "distinct (map jt_bb_start (concat (map snd funs)))" and "t \<in> set (concat (map snd funs))"
    and "initialize_plugin J fs C = Inr p" and "disassemble clone q (p_dis p) c = Inr (d', M)"
    and "b \<in> set (m_allBasicBlocks d')" and "m_pcStart b = jt_bb_start t" and "m_pcEnd b = jt_bb_end t"
  shows "1 \<le> entry_count t \<and> real_pc ` table_targets q t \<subseteq>
    recorded d' \<union> dom (m_visitedPC (p_dis p)) \<union> {pc. \<not> is_valid_code_addr q pc}"
proof -
  have "loadFromFile J (fs (config_string C ''.jumpTableInfoPath'')) = Inr (concat (map snd funs))"
    by (rule loadFromFile_tables [OF assms(1,3-5)])
  then have jt: "mapJumpTableInfo (p_dis p) (jt_bb_start t) = Some t"
    using initialize_plugin_tables [OF assms(8)] assms(2) table_entered [OF assms(6,7)] by auto
  have "fresh_dis (p_dis p)" using initialize_plugin_parses [OF assms(8)] initialize_fresh by blast
  from run_closed [OF this assms(9,10)] obtain thumb pcs where
    pcs: "targets_of q (mapJumpTableInfo (p_dis p)) (jt_bb_start t) thumb pcs" "jt_bb_end t = tb_end q (jt_bb_start t) thumb"
      "real_pc ` set pcs \<subseteq> recorded d' \<union> dom (m_visitedPC (p_dis p)) \<union> {pc. \<not> is_valid_code_addr q pc}"
    unfolding block_closed_def assms(11,12) by blast
  then obtain table where table: "jump_table_pcs q (mapJumpTableInfo (p_dis p)) (jt_bb_start t) (jt_bb_end t) = Inr table"
    "set table \<subseteq> set pcs" by (auto simp: targets_of_def Let_def)
  from table_pcs_targets [OF table(1) jt refl] pcs(3) table(2) show ?thesis by auto
qed

text \<open>One block with a table of one entry, whose two targets are no code.\<close>

definition one_table :: jump_table_info where
  "one_table = \<lparr>jt_bb_start = 0x8000, jt_bb_end = 0x8004, indirect_jmp_pc = 0x8002, default_case_pc = 0x8010,
     base_table = 0x9000, idx_start = 0, idx_stop = 0\<rparr>"

definition table_file :: "(string \<times> json) list" where
  "table_file = map (\<lambda>(f, ts). (f, JArr (map table_json ts))) [(''f'', [one_table])]"

definition file_cajun :: "json cajun" where
  "file_cajun = \<lparr>read_array = (\<lambda>f. case f of JArr xs \<Rightarrow> Some xs | _ \<Rightarrow> None),
     read_object = (\<lambda>f. case f of JObj ms \<Rightarrow> Some ms | _ \<Rightarrow> None), write_array = JArr,
     as_number = (\<lambda>j. case j of JNum r \<Rightarrow> Inr r | _ \<Rightarrow> Inl (BadCast ''json::Number'')),
     as_array = (\<lambda>j. case j of JArr xs \<Rightarrow> Inr xs | _ \<Rightarrow> Inl (BadCast ''json::Array'')),
     as_object = (\<lambda>j. case j of JObj ms \<Rightarrow> Inr ms | _ \<Rightarrow> Inl (BadCast ''json::Object'')),
     element = (\<lambda>ms n. case map_of ms n of Some v \<Rightarrow> v | None \<Rightarrow> JNull)\<rparr>"

definition table_config :: config where
  "table_config = \<lparr>getInt = (\<lambda>k. None),
     getString = (\<lambda>k. if k = ''D.jumpTableInfoPath'' then ''tables.json'' else []),
     getListKeys = (\<lambda>k. None), getConfigKey = ''D''\<rparr>"

definition table_qemu :: qemu where
  "table_qemu = rest_qemu\<lparr>is_valid_code_addr := \<lambda>pc. pc = 0x8000\<rparr>"

lemma file_cajun_ok: "cajun_ok file_cajun"
  by (simp add: cajun_ok_def file_cajun_def)

lemma table_config_strings [simp]:
  "config_string table_config ''.isThumbIn'' = []" "config_string table_config ''.initialAlreadyVisited'' = []"
  "config_string table_config ''.jumpTableInfoPath'' = ''tables.json''"
  by (simp_all add: config_string_def table_config_def)

lemma one_table_exact: "table_exact one_table"
  by (simp add: table_exact_def one_table_def)

lemma table_started:
  "\<exists>p. initialize_plugin file_cajun (\<lambda>f. JObj table_file) table_config = Inr p \<and> p_dis p = configured [] [one_table]"
proof -
  have "loadFromFile file_cajun (JObj table_file) = Inr (concat (map snd [(''f'', [one_table])]))"
    by (rule loadFromFile_tables [OF file_cajun_ok]) (simp_all add: file_cajun_def table_file_def one_table_exact)
  then show ?thesis by (simp add: initialize_plugin_def Let_def configured_def)
qed

lemma table_harvestable: "harvestable table_qemu [0x8000 \<mapsto> one_table]"
  unfolding harvestable_def
proof (intro allI impI)
  fix d :: dis and c :: cpu
  assume a: "mapJumpTableInfo d = [0x8000 \<mapsto> one_table] \<and> is_valid_code_addr table_qemu (cpu_pc c)"
  have "extract_possible_targets (getName rest_view) rest_tb = Inr \<lparr>targetPCs = [], implicitTarget = None\<rparr>" by code_simp
  moreover have "rewrite_block table_qemu f m = rewrite_block rest_qemu f m" for f m
  proof -
    have "tb_view table_qemu = tb_view rest_qemu" "inline_function table_qemu = inline_function rest_qemu"
      by (simp_all add: table_qemu_def)
    then show ?thesis by (simp only: rewrite_block_def)
  qed
  moreover obtain m' where "rewrite_block rest_qemu rest_tb (m_tbModule d) = Inr (rest_tb, m')"
    using rest_rewritten by blast
  moreover have "\<exists>tb. getThumbBit (if m_firstTranslation d then set_entry_name rest_tb else rest_tb) = Inr tb"
    by (simp add: getThumbBit_def rest_tb_def set_entry_name_def thumb_block_def is_exit_def terminator_def
       mk_ins_def thumb_step_def store_to_def)
  moreover have "1 \<le> entry_count one_table" by (simp add: entry_count_def one_table_def)
  ultimately show "\<exists>r. harvest_block table_qemu d c = Inr r"
    using a by (auto simp: harvest_block_def jump_table_pcs_def Let_def table_qemu_def rest_qemu_def require_def)
qed

lemma one_table_map: "mapJumpTableInfo (configured [] [one_table]) = [0x8000 \<mapsto> one_table]"
  by (simp add: configured_def one_table_def)

lemma fresh_configured: "fresh_dis (configured [] [one_table])"
  by (simp add: configured_def fresh_dis_def empty_dis_def)

lemma table_run:
  "\<exists>d' M. disassemble clone table_qemu (configured [] [one_table]) rest_cpu = Inr (d', M) \<and>
     (\<exists>b \<in> set (m_allBasicBlocks d'). m_pcStart b = 0x8000 \<and> m_pcEnd b = 0x8004)"
proof -
  have "ready table_qemu [0x8000 \<mapsto> one_table] (configured [] [one_table]) rest_cpu"
    using fresh_configured by (simp add: ready_def one_table_map even_vector_def fresh_dis_def table_qemu_def rest_cpu_def)
  then obtain d' M where d': "disassemble clone table_qemu (configured [] [one_table]) rest_cpu = Inr (d', M)"
    using disassemble_total [OF table_harvestable] by blast
  have "cpu_pc rest_cpu \<in> recorded d'"
    using disassemble_inv [OF fresh_inv [OF fresh_configured] d'] by (simp add: dis_inv_def inv_reached_def)
  then obtain b where b: "b \<in> set (m_allBasicBlocks d')" "m_pcStart b = 0x8000" by (auto simp: recorded_def rest_cpu_def)
  then have "m_pcEnd b = 0x8004"
    using run_closed [OF fresh_configured d' b(1)] by (auto simp: block_closed_def table_qemu_def rest_qemu_def)
  with b d' show ?thesis by blast
qed

theorem table_targets_explored_witness:
  "\<exists>d' M. disassemble (\<lambda>_ f. f) table_qemu (configured [] [one_table]) rest_cpu = Inr (d', M)
     \<and> 1 \<le> entry_count one_table \<and> real_pc ` table_targets table_qemu one_table \<subseteq> recorded d' \<union> {pc. pc \<noteq> 0x8000}"
proof -
  obtain p where p: "initialize_plugin file_cajun (\<lambda>f. JObj table_file) table_config = Inr p" "p_dis p = configured [] [one_table]"
    using table_started by blast
  obtain d' M b where d: "disassemble (\<lambda>_ f. f) table_qemu (configured [] [one_table]) rest_cpu = Inr (d', M)"
    "b \<in> set (m_allBasicBlocks d')" "m_pcStart b = 0x8000" "m_pcEnd b = 0x8004" using table_run by blast
  let ?funs = "[(''f'', [one_table])]"
  have f: "read_object file_cajun (JObj table_file) = Some (map (\<lambda>(f, ts). (f, JArr (map table_json ts))) ?funs)"
    by (simp add: file_cajun_def table_file_def)
  have r: "1 \<le> entry_count one_table \<and> real_pc ` table_targets table_qemu one_table \<subseteq>
      recorded d' \<union> dom (m_visitedPC (p_dis p)) \<union> {pc. \<not> is_valid_code_addr table_qemu pc}"
    by (rule table_targets_explored [OF file_cajun_ok _ f _ _ _ _ p(1) _ d(2), where c = rest_cpu and M = M and clone = "\<lambda>_ f. f"])
       (use d p(2) one_table_exact in \<open>simp_all add: one_table_def\<close>)
  moreover have "dom (m_visitedPC (p_dis p)) = {}" by (simp add: p(2) configured_def fresh_empty)
  moreover have "{pc. \<not> is_valid_code_addr table_qemu pc} = {pc. pc \<noteq> 0x8000}" by (simp add: table_qemu_def)
  ultimately show ?thesis using d(1) by auto
qed

end
