(* ===== verification/Pass_Utils.thy ===== *)
theory Pass_Utils
  imports Linker Solve_Indirect
begin

text \<open>
  The helpers of \<open>PassUtils.cpp\<close> around the passes: checks that stop the tool, the environment and the option that say
  where S2E and its output are, opening files and bitcode, and logging; and the command line of the linker. A tool
  that calls \<open>exit\<close> gives the status and what it wrote to the error stream. The environment, the file system and the
  parser of bitcode are parameters.
\<close>

section \<open>Checks\<close>

datatype exit_t = Exit int string

definition checkif :: "bool \<Rightarrow> string \<Rightarrow> bool \<times> string" where
  "checkif condition message = (condition, if condition then [] else ''Check failed: '' @ message @ [CHR 0x0A])"

definition failUnless :: "bool \<Rightarrow> string \<Rightarrow> exit_t + unit" where
  "failUnless condition message =
     (if condition then Inr () else Inl (Exit 1 (''Check failed: '' @ message @ [CHR 0x0A])))"

section \<open>Directories and files\<close>

definition s2eRoot :: "(string \<rightharpoonup> string) \<Rightarrow> exit_t + string" where
  "s2eRoot getenv = (case getenv ''S2EDIR'' of
     None \<Rightarrow> Inl (Exit 1 (''missing S2EDIR environment variable'' @ [CHR 0x0A]))
   | Some envval \<Rightarrow> Inr envval)"

definition runlibDir :: "(string \<rightharpoonup> string) \<Rightarrow> exit_t + string" where
  "runlibDir getenv = map_sum id (\<lambda>d. d @ ''/runlib'') (s2eRoot getenv)"

text \<open>The option \<open>-s2e-out-dir\<close>, when it was given.\<close>

definition s2eOutFile :: "string option \<Rightarrow> string \<Rightarrow> exit_t + string" where
  "s2eOutFile s2eOutDir basename = (case s2eOutDir of
     None \<Rightarrow> Inl (Exit 1 (''Error: no -s2e-out-dir specified'' @ [CHR 0x0A]))
   | Some d \<Rightarrow> Inr (d @ ''/'' @ basename))"

definition fileOpen :: "(string \<Rightarrow> bool) \<Rightarrow> string \<Rightarrow> bool \<Rightarrow> exit_t + bool" where
  "fileOpen opens path failIfMissing =
     (if failIfMissing then map_sum id (\<lambda>_. opens path) (failUnless (opens path) (''could not open '' @ path))
      else Inr (opens path))"

definition s2eOpen :: "(string \<Rightarrow> bool) \<Rightarrow> string option \<Rightarrow> string \<Rightarrow> bool \<Rightarrow> exit_t + bool" where
  "s2eOpen opens s2eOutDir basename failIfMissing = (case s2eOutFile s2eOutDir basename of
     Inl e \<Rightarrow> Inl e
   | Inr path \<Rightarrow> fileOpen opens path failIfMissing)"

text \<open>The parser gives a module or the text of its diagnostic.\<close>

definition loadBitcodeFile :: "(string \<Rightarrow> string + lmodule) \<Rightarrow> string \<Rightarrow> exit_t + lmodule" where
  "loadBitcodeFile parseIR path = (case parseIR path of
     Inl err \<Rightarrow> Inl (Exit 1 (''could not load bitcode file'' @ err))
   | Inr from \<Rightarrow> Inr from)"

section \<open>Logging and modes\<close>

datatype level = LERROR | LWARNING | LINFO | LDEBUG

definition level_code :: "level \<Rightarrow> nat" where
  "level_code l = (case l of LERROR \<Rightarrow> 0 | LWARNING \<Rightarrow> 1 | LINFO \<Rightarrow> 2 | LDEBUG \<Rightarrow> 3)"

definition levelStrings :: "string list" where
  "levelStrings = [''ERROR'', ''WARNING'', ''INFO'', ''DEBUG'']"

text \<open>What a message adds to the error stream; \<open>raw_null_ostream\<close> drops it.\<close>

definition getStream :: "level \<Rightarrow> level \<Rightarrow> string option" where
  "getStream logLevel l = (if level_code l > level_code logLevel then None
     else Some (''['' @ levelStrings ! level_code l @ ''] ''))"

definition log_line :: "level \<Rightarrow> level \<Rightarrow> string \<Rightarrow> string" where
  "log_line logLevel l message = (if level_code l \<le> level_code logLevel
     then (case getStream logLevel l of None \<Rightarrow> [] | Some prefix \<Rightarrow> prefix @ message @ [CHR 0x0A]) else [])"

definition loglevel_values :: "(string \<times> level) list" where
  "loglevel_values = [(''error'', LERROR), (''warning'', LWARNING), (''info'', LINFO), (''debug'', LDEBUG)]"

datatype fallback_mode = FNONE | FERROR | FBASIC | FEXTENDED

definition fallback_values :: "(string \<times> fallback_mode) list" where
  "fallback_values = [(''none'', FNONE), (''error'', FERROR), (''basic'', FBASIC), (''extended'', FEXTENDED)]"

text \<open>An option that is not given has its initial value; a name that is not listed is an error of the command line.\<close>

definition enum_option :: "(string \<times> 'a) list \<Rightarrow> 'a \<Rightarrow> string option \<Rightarrow> 'a option" where
  "enum_option names initial arg = (case arg of None \<Rightarrow> Some initial | Some s \<Rightarrow> map_of names s)"

definition log_level :: "string option \<Rightarrow> level option" where
  "log_level = enum_option loglevel_values LINFO"

definition fallback_mode :: "string option \<Rightarrow> fallback_mode option" where
  "fallback_mode = enum_option fallback_values FEXTENDED"

fun vectorContains :: "'a list \<Rightarrow> 'a \<Rightarrow> bool" where
  "vectorContains [] needle = False"
| "vectorContains (val # vec) needle = (if val = needle then True else vectorContains vec needle)"

section \<open>The command line of the linker\<close>

record linked_files =
  out_name :: string
  out_module :: lmodule
  fcnt_name :: string
  fcnt_text :: string

definition linky_main :: "clone_fn \<Rightarrow> (string \<Rightarrow> lmodule option) \<Rightarrow> string list \<Rightarrow> exit_t + linked_files res" where
  "linky_main clone parseIR argv =
     (if length argv < 3 then Inl (Exit (- 1) (''Usage:'' @ [CHR 0x09] @ hd argv @ ''file0.bc [file1.bc [file2.bc ...]] out-file.bc'' @
        [CHR 0x0A, CHR 0x09] @ ''Link multiple bc files into one'' @ [CHR 0x0A]))
      else Inr (rbind (link_main clone (map parseIR (tl (butlast argv)))) (\<lambda>(m, cnt). Inr
        \<lparr>out_name = last argv, out_module = m, fcnt_name = last argv @ ''.fcnt'', fcnt_text = dec_digits cnt\<rparr>)))"

section \<open>Facts\<close>

lemma vectorContains_iff: "vectorContains vec needle \<longleftrightarrow> needle \<in> set vec"
  by (induction vec) auto

lemma fileOpen_Inr: "fileOpen opens path fail = Inr b \<longleftrightarrow> b = opens path \<and> (fail \<longrightarrow> opens path)"
  by (auto simp: fileOpen_def failUnless_def)

text \<open>Every message of the level of the tool or a more severe one is printed with its level, and no other.\<close>

lemma level_string: "levelStrings ! level_code l = (case l of LERROR \<Rightarrow> ''ERROR'' | LWARNING \<Rightarrow> ''WARNING'' | LINFO \<Rightarrow> ''INFO'' | LDEBUG \<Rightarrow> ''DEBUG'')"
  by (cases l) (simp_all add: levelStrings_def level_code_def)

lemma log_line_printed: "log_line logLevel l msg \<noteq> [] \<longleftrightarrow> level_code l \<le> level_code logLevel"
  by (simp add: log_line_def getStream_def)

text \<open>A file of the output directory opens, the tool stops with status 1, or it is allowed to be missing.\<close>

theorem s2eOpen_outcome:
  "s2eOpen opens dir name fail = (case dir of
     None \<Rightarrow> Inl (Exit 1 (''Error: no -s2e-out-dir specified'' @ [CHR 0x0A]))
   | Some d \<Rightarrow> if opens (d @ ''/'' @ name) \<or> \<not> fail then Inr (opens (d @ ''/'' @ name))
       else Inl (Exit 1 (''Check failed: could not open '' @ d @ ''/'' @ name @ [CHR 0x0A])))"
  by (simp add: s2eOpen_def s2eOutFile_def fileOpen_def failUnless_def split: option.split)

text \<open>The linker reads every argument but the first and the last, and writes to the last.\<close>

theorem linky_main_files:
  "linky_main clone parseIR (argv0 # f # files @ [out]) = Inr (rbind (link_main clone (map parseIR (f # files))) (\<lambda>(m, cnt). Inr
     \<lparr>out_name = out, out_module = m, fcnt_name = out @ ''.fcnt'', fcnt_text = dec_digits cnt\<rparr>))"
  by (simp add: linky_main_def butlast_append)

section \<open>Inline assembly\<close>

text \<open>
  \<open>doInlineAsm\<close>; the builder and its \<open>CreateCall\<close> are LLVM's. The array of the types is filled by index; before that its
  elements are indeterminate, here \<open>VoidTy\<close>.
\<close>

record inline_asm =
  asm_result :: ty
  asm_params :: "ty list"
  asm_text :: string
  asm_constraints :: string
  asm_side_effects :: bool

definition arg_types :: "(val \<Rightarrow> ty) \<Rightarrow> val list \<Rightarrow> ty list" where
  "arg_types getType args =
     fold (\<lambda>i argTypes. argTypes[i := getType (args ! i)]) [0..<length args] (replicate (length args) VoidTy)"

definition doInlineAsm :: "('b \<Rightarrow> inline_asm \<Rightarrow> val list \<Rightarrow> 'b) \<Rightarrow> (val \<Rightarrow> ty) \<Rightarrow> 'b \<Rightarrow> string \<Rightarrow> string \<Rightarrow> bool \<Rightarrow> val list \<Rightarrow> 'b" where
  "doInlineAsm CreateCall getType b asm constraints hasSideEffects args =
     CreateCall b \<lparr>asm_result = VoidTy, asm_params = arg_types getType args, asm_text = asm,
       asm_constraints = constraints, asm_side_effects = hasSideEffects\<rparr> args"

lemma arg_types_prefix:
  assumes "n \<le> length args"
  shows "fold (\<lambda>i ts. ts[i := f (args ! i)]) [0..<n] (replicate (length args) t)
    = map f (take n args) @ replicate (length args - n) t"
  using assms
proof (induction n)
  case (Suc n)
  then have "replicate (length args - n) t = t # replicate (length args - Suc n) t"
    by (metis Suc_diff_le diff_Suc_Suc replicate_Suc)
  with Suc show ?case by (simp add: list_update_append take_Suc_conv_app_nth)
qed simp

text \<open>The call is well typed: its assembly takes parameters of the types of the arguments, in their order.\<close>

theorem doInlineAsm_typed:
  "doInlineAsm CreateCall getType b asm constraints hasSideEffects args =
     CreateCall b \<lparr>asm_result = VoidTy, asm_params = map getType args, asm_text = asm,
       asm_constraints = constraints, asm_side_effects = hasSideEffects\<rparr> args"
  using arg_types_prefix [of "length args" args getType VoidTy] by (simp add: doInlineAsm_def arg_types_def)

end
