(* ===== verification/Mem_Ops.thy ===== *)
theory Mem_Ops
  imports Const_Loads
begin

unbundle bit_operations_syntax

text \<open>
  The memory the rebuilt program runs on: \<open>mem-ops-alt.ll\<close>, which the driver links in, its older version \<open>mem-ops.ll\<close>,
  and the test program \<open>mem-ops-testing.c\<close>. The operations are the ones whose constant calls \<open>ReplaceConstantLoads\<close>
  replaces, so what they load and what that pass writes can be compared.
\<close>

section \<open>MEMORY\<close>

text \<open>
  The index of a \<open>getelementptr\<close> is a signed number, so on a machine with 64-bit pointers an address from \<open>2 ^ 31\<close> on
  is in front of the array; the access is undefined, here a fault.
\<close>

type_synonym memory = "u32 \<Rightarrow> byte"

definition load8 :: "memory \<Rightarrow> u32 \<Rightarrow> byte res" where
  "load8 M a = (if a < 0x80000000 then Inr (M a) else Inl (AssertFailed ''MEMORY''))"

definition store8 :: "u32 \<Rightarrow> byte \<Rightarrow> memory \<Rightarrow> memory res" where
  "store8 a v M = (if a < 0x80000000 then Inr (M(a := v)) else Inl (AssertFailed ''MEMORY''))"

section \<open>mem-ops-alt.ll\<close>

definition ldl_mmu :: "memory \<Rightarrow> u32 \<Rightarrow> u32 res" where
  "ldl_mmu M addr =
     rbind (load8 M (addr + 0)) (\<lambda>val0. rbind (load8 M (addr + 1)) (\<lambda>val1.
     rbind (load8 M (addr + 2)) (\<lambda>val2. rbind (load8 M (addr + 3)) (\<lambda>val3.
       Inr ((push_bit 0 (ucast val0) OR push_bit 8 (ucast val1)) OR
            (push_bit 16 (ucast val2) OR push_bit 24 (ucast val3)))))))"

definition stl_mmu :: "u32 \<Rightarrow> u32 \<Rightarrow> memory \<Rightarrow> memory res" where
  "stl_mmu addr val M =
     rbind (store8 (addr + 0) (ucast (drop_bit 0 val)) M) (\<lambda>M.
     rbind (store8 (addr + 1) (ucast (drop_bit 8 val)) M) (\<lambda>M.
     rbind (store8 (addr + 2) (ucast (drop_bit 16 val)) M) (\<lambda>M.
       store8 (addr + 3) (ucast (drop_bit 24 val)) M)))"

definition ldw_mmu :: "memory \<Rightarrow> u32 \<Rightarrow> 16 word res" where
  "ldw_mmu M addr =
     rbind (load8 M (addr + 0)) (\<lambda>val0. rbind (load8 M (addr + 1)) (\<lambda>val1.
       Inr (push_bit 0 (ucast val0) OR push_bit 8 (ucast val1))))"

definition stw_mmu :: "u32 \<Rightarrow> 16 word \<Rightarrow> memory \<Rightarrow> memory res" where
  "stw_mmu addr val M =
     rbind (store8 (addr + 0) (ucast (drop_bit 0 val)) M) (\<lambda>M.
       store8 (addr + 1) (ucast (drop_bit 8 val)) M)"

definition ldb_mmu :: "memory \<Rightarrow> u32 \<Rightarrow> byte res" where
  "ldb_mmu M addr = load8 M (addr + 0)"

definition stb_mmu :: "u32 \<Rightarrow> byte \<Rightarrow> memory \<Rightarrow> memory res" where
  "stb_mmu addr val M = store8 (addr + 0) val M"

section \<open>mem-ops.ll\<close>

text \<open>
  Words of an array of 32-bit elements, in the byte order of the machine (little endian). The 16-bit load divides the
  address by 4 for a pointer to 16-bit elements, and the store does not divide it.
\<close>

definition old_ldl_mmu :: "memory \<Rightarrow> u32 \<Rightarrow> u32 res" where
  "old_ldl_mmu M addr = (let b = 4 * (addr div 4) in
     Inr (ucast (M b) OR push_bit 8 (ucast (M (b + 1))) OR push_bit 16 (ucast (M (b + 2))) OR push_bit 24 (ucast (M (b + 3)))))"

definition old_stl_mmu :: "u32 \<Rightarrow> u32 \<Rightarrow> memory \<Rightarrow> memory res" where
  "old_stl_mmu addr val M = (let b = 4 * (addr div 4) in
     Inr (M(b := ucast val, b + 1 := ucast (drop_bit 8 val), b + 2 := ucast (drop_bit 16 val), b + 3 := ucast (drop_bit 24 val))))"

definition old_ldw_mmu :: "memory \<Rightarrow> u32 \<Rightarrow> 16 word res" where
  "old_ldw_mmu M addr = (let b = 2 * (addr div 4) in Inr (ucast (M b) OR push_bit 8 (ucast (M (b + 1)))))"

definition old_stw_mmu :: "u32 \<Rightarrow> 16 word \<Rightarrow> memory \<Rightarrow> memory res" where
  "old_stw_mmu addr val M =
     (if addr < 0x80000000 then Inr (M(2 * addr := ucast val, 2 * addr + 1 := ucast (drop_bit 8 val)))
      else Inl (AssertFailed ''MEMORY''))"

section \<open>mem-ops-testing.c\<close>

record mem_ops =
  LDL :: "memory \<Rightarrow> u32 \<Rightarrow> u32 res"
  LDW :: "memory \<Rightarrow> u32 \<Rightarrow> 16 word res"
  STL :: "u32 \<Rightarrow> u32 \<Rightarrow> memory \<Rightarrow> memory res"
  STW :: "u32 \<Rightarrow> 16 word \<Rightarrow> memory \<Rightarrow> memory res"
  STB :: "u32 \<Rightarrow> byte \<Rightarrow> memory \<Rightarrow> memory res"

definition alt_ops :: mem_ops where
  "alt_ops = \<lparr>LDL = ldl_mmu, LDW = ldw_mmu, STL = stl_mmu, STW = stw_mmu, STB = stb_mmu\<rparr>"

definition old_ops :: mem_ops where
  "old_ops = \<lparr>LDL = old_ldl_mmu, LDW = old_ldw_mmu, STL = old_stl_mmu, STW = old_stw_mmu, STB = store8\<rparr>"

definition print_memory :: "memory \<Rightarrow> string \<Rightarrow> string" where
  "print_memory M e = e @ [CHR 0x0A] @
     concat (map (\<lambda>i. (if i mod 8 = 0 then [CHR 0x0A] @ zero_fill 4 (hex_digits i) @ '':'' else []) @
       zero_fill 2 (hex_digits (unat (M (of_nat i)))) @ '' '') [0..<128]) @
     [CHR 0x0A] @ ''=========================='' @ [CHR 0x0A]"

text \<open>A store between two listings of the memory, a load, and the assertion that the value came back.\<close>

definition store_and_check :: "string \<Rightarrow> string \<Rightarrow> (memory \<Rightarrow> memory res) \<Rightarrow> (memory \<Rightarrow> bool res) \<Rightarrow> string \<Rightarrow>
    memory \<times> string \<Rightarrow> (memory \<times> string) res" where
  "store_and_check before after st same msg s = (case s of (M, out) \<Rightarrow>
     rbind (st M) (\<lambda>M'. rbind (same M') (\<lambda>ok. rbind (require ok (AssertFailed msg)) (\<lambda>_.
       Inr (M', out @ print_memory M before @ print_memory M' after)))))"

definition mem_ops_main :: "mem_ops \<Rightarrow> memory \<Rightarrow> (memory \<times> string) res" where
  "mem_ops_main X M = (let o32 = 0xdeadbeef; o16 = 0x1234; o8 = 0xAA in
     rbind (store_and_check ''before STL'' ''after STL'' (STL X 0x0 o32)
       (\<lambda>M. rbind (LDL X M 0x0) (\<lambda>i32. Inr (i32 = o32))) ''simple stl/ldl failed'' (M, [])) (\<lambda>s.
     rbind (store_and_check ''before STL unaligned'' ''after STL unaligned'' (STL X 0x9 o32)
       (\<lambda>M. rbind (LDL X M 0x9) (\<lambda>i32. Inr (i32 = o32))) ''simple stl/ldl failed (unaligned)'' s) (\<lambda>s.
     rbind (store_and_check ''before STW'' ''after STW'' (STW X 0x20 o16)
       (\<lambda>M. rbind (LDW X M 0x20) (\<lambda>i16. Inr (i16 = o16))) ''simple stw/ldw failed'' s) (\<lambda>s.
     rbind (store_and_check ''before STW'' ''after STW'' (STW X 0x29 o16)
       (\<lambda>M. rbind (LDW X M 0x29) (\<lambda>i16. Inr (i16 = o16))) ''simple stw/ldw failed (unaligned)'' s) (\<lambda>s.
     rbind (store_and_check ''before STB'' ''after STB'' (STB X 0x40 o8)
       (\<lambda>M. rbind (LDW X M 0x40) (\<lambda>v. Inr ((ucast v :: byte) = o8))) ''simple stb/ldb failed'' s) (\<lambda>s.
     rbind (store_and_check ''before STB'' ''after STB'' (STB X 0x49 o8)
       (\<lambda>M. rbind (LDW X M 0x49) (\<lambda>v. Inr ((ucast v :: byte) = o8))) ''simple stb/ldb failed (unaligned)'' s) (\<lambda>(M, out).
     let M' = M(0x40 := 0xfd, 0x41 := 0xfc, 0x42 := 0xfb, 0x43 := 0xfa) in
     rbind (LDL X M' (0x10 * 4)) (\<lambda>v.
     rbind (require (v = 0xfafbfcfd) (AssertFailed ''LDL(0x10 * sizeof (uint32_t)) == 0xfafbfcfd'')) (\<lambda>_.
       Inr (M', out @ print_memory M' ''final'')))))))))) "

section \<open>Loads and stores\<close>

definition fits :: "u32 \<Rightarrow> nat \<Rightarrow> bool" where
  "fits addr n \<longleftrightarrow> unat addr + n \<le> 2 ^ 31"

lemma fits_byte: "fits addr n \<Longrightarrow> k < n \<Longrightarrow> addr + of_nat k < 0x80000000 \<and> unat (addr + of_nat k) = unat addr + k"
proof -
  assume f: "fits addr n" and k: "k < n"
  then have "unat addr + k < 2 ^ 31" by (simp add: fits_def)
  then have "unat (addr + of_nat k) = unat addr + k" by (simp add: unat_word_ariths unat_of_nat)
  with f k show ?thesis by (simp add: word_less_nat_alt fits_def)
qed

lemma load8_fits: "fits addr n \<Longrightarrow> k < n \<Longrightarrow> load8 M (addr + of_nat k) = Inr (M (addr + of_nat k))"
  by (simp add: load8_def fits_byte)

lemma store8_fits: "fits addr n \<Longrightarrow> k < n \<Longrightarrow> store8 (addr + of_nat k) v M = Inr (M(addr + of_nat k := v))"
  by (simp add: store8_def fits_byte)

lemma in_memory:
  assumes "fits addr n"
  shows "0 < n \<Longrightarrow> addr < 0x80000000" "1 < n \<Longrightarrow> addr + 1 < 0x80000000" "2 < n \<Longrightarrow> addr + 2 < 0x80000000"
    "3 < n \<Longrightarrow> addr + 3 < 0x80000000"
  using fits_byte [OF assms, of 0] fits_byte [OF assms, of 1] fits_byte [OF assms, of 2] fits_byte [OF assms, of 3] by simp_all

lemma join32:
  "(push_bit 0 (ucast (ucast (drop_bit 0 v) :: byte)) OR push_bit 8 (ucast (ucast (drop_bit 8 v) :: byte))) OR
   (push_bit 16 (ucast (ucast (drop_bit 16 v) :: byte)) OR push_bit 24 (ucast (ucast (drop_bit 24 v) :: byte))) = (v :: u32)"
  (is "?l = v")
proof (rule bit_word_eqI)
  fix n assume "n < LENGTH(32)"
  then show "bit ?l n = bit v n" by (cases "n < 16"; cases "n < 24") (auto simp: bit_simps)
qed

lemma join16:
  "push_bit 0 (ucast (ucast (drop_bit 0 v) :: byte)) OR push_bit 8 (ucast (ucast (drop_bit 8 v) :: byte)) = (v :: 16 word)"
  by (rule bit_word_eqI) (auto simp: bit_simps)

text \<open>The number in the bytes, least significant first.\<close>

definition le_bytes :: "memory \<Rightarrow> u32 \<Rightarrow> nat \<Rightarrow> byte list" where
  "le_bytes M addr n = map (\<lambda>k. M (addr + of_nat k)) [0..<n]"

lemma shift_byte: "push_bit 8 r OR ucast (b :: byte) = (256 * r + ucast b :: 'a::len word)"
proof -
  have "push_bit 8 r OR ucast b = push_bit 8 r + (ucast b :: 'a word)"
    by (rule disjunctive_add [symmetric]) (auto simp: bit_simps dest: bit_imp_le_length)
  then show ?thesis by (simp add: push_bit_eq_mult mult.commute)
qed

lemma value16: "push_bit 0 (ucast b0) OR push_bit 8 (ucast b1) = (of_nat (be_value [b1, b0]) :: 16 word)"
proof -
  have "push_bit 0 (ucast b0) OR push_bit 8 (ucast b1) = push_bit 8 (ucast b1) OR (ucast b0 :: 16 word)"
    by (simp add: or.commute)
  then show ?thesis by (simp add: shift_byte be_value_def)
qed


lemma le_bytes_4: "le_bytes M addr 4 = [M addr, M (addr + 1), M (addr + 2), M (addr + 3)]"
  by (simp add: le_bytes_def upt_rec)

lemma le_bytes_2: "le_bytes M addr 2 = [M addr, M (addr + 1)]"
  by (simp add: le_bytes_def upt_rec)



lemma ldw_value: "fits addr 2 \<Longrightarrow> ldw_mmu M addr = Inr (of_nat (be_value (rev (le_bytes M addr 2))))"
  using in_memory [of addr 2] value16 [of "M addr" "M (addr + 1)"]
  by (simp add: ldw_mmu_def load8_def le_bytes_2)


section \<open>The laws of an access\<close>

text \<open>What a program relies on: a store that fits is read back, and leaves every other byte.\<close>

locale memory_access =
  fixes ld :: "memory \<Rightarrow> u32 \<Rightarrow> 'v res" and st :: "u32 \<Rightarrow> 'v \<Rightarrow> memory \<Rightarrow> memory res" and n :: nat
  assumes load_bytes: "le_bytes M a n = le_bytes M' a n \<Longrightarrow> ld M a = ld M' a"
    and store_runs: "fits a n \<Longrightarrow> \<exists>M'. st a v M = Inr M'"
    and load_store: "st a v M = Inr M' \<Longrightarrow> ld M' a = Inr v"
    and store_frame: "st a v M = Inr M' \<Longrightarrow> b \<notin> (\<lambda>k. a + of_nat k) ` {0..<n} \<Longrightarrow> M' b = M b"
begin

lemma load_after_store: "fits a n \<Longrightarrow> \<exists>M'. st a v M = Inr M' \<and> ld M' a = Inr v"
  using store_runs load_store by blast

end

lemma fits_disjoint:
  assumes "fits a n" and "fits b m" and "unat a + n \<le> unat b \<or> unat b + m \<le> unat a" and "k < m"
  shows "b + of_nat k \<notin> (\<lambda>k. a + of_nat k) ` {0..<n}"
proof
  assume "b + of_nat k \<in> (\<lambda>k. a + of_nat k) ` {0..<n}"
  then obtain l where "l < n" "b + of_nat k = a + of_nat l" by auto
  then have "unat b + k = unat a + l" using fits_byte [OF assms(1), of l] fits_byte [OF assms(2,4)] by metis
  with assms(3,4) \<open>l < n\<close> show False by linarith
qed

interpretation long_access: memory_access ldl_mmu stl_mmu 4
proof
  show "ldl_mmu M a = ldl_mmu M' a" if "le_bytes M a 4 = le_bytes M' a 4" for M M' a
    using that by (simp add: ldl_mmu_def load8_def le_bytes_4)
  show "\<exists>M'. stl_mmu a v M = Inr M'" if "fits a 4" for a v M
    using in_memory [OF that] by (simp add: stl_mmu_def store8_def)
  show "ldl_mmu M' a = Inr v" if "stl_mmu a v M = Inr M'" for a v M M'
    using that join32 [of v] by (auto simp: stl_mmu_def store8_def ldl_mmu_def load8_def split: if_splits)
  show "M' b = M b" if "stl_mmu a v M = Inr M'" "b \<notin> (\<lambda>k. a + of_nat k) ` {0..<4}" for a v M M' b
  proof -
    have "b \<noteq> a" "b \<noteq> a + 1" "b \<noteq> a + 2" "b \<noteq> a + 3" using that(2) by (auto simp: image_iff eval_nat_numeral atLeast0_lessThan_Suc)
    then show ?thesis using that(1) by (auto simp: stl_mmu_def store8_def split: if_splits)
  qed
qed

interpretation word_access: memory_access ldw_mmu stw_mmu 2
proof
  show "ldw_mmu M a = ldw_mmu M' a" if "le_bytes M a 2 = le_bytes M' a 2" for M M' a
    using that by (simp add: ldw_mmu_def load8_def le_bytes_2)
  show "\<exists>M'. stw_mmu a v M = Inr M'" if "fits a 2" for a v M
    using in_memory [OF that] by (simp add: stw_mmu_def store8_def)
  show "ldw_mmu M' a = Inr v" if "stw_mmu a v M = Inr M'" for a v M M'
    using that join16 [of v] by (auto simp: stw_mmu_def store8_def ldw_mmu_def load8_def split: if_splits)
  show "M' b = M b" if "stw_mmu a v M = Inr M'" "b \<notin> (\<lambda>k. a + of_nat k) ` {0..<2}" for a v M M' b
  proof -
    have "b \<noteq> a" "b \<noteq> a + 1" using that(2) by (auto simp: image_iff eval_nat_numeral atLeast0_lessThan_Suc)
    then show ?thesis using that(1) by (auto simp: stw_mmu_def store8_def split: if_splits)
  qed
qed

interpretation byte_access: memory_access ldb_mmu stb_mmu 1
  by unfold_locales (auto simp: ldb_mmu_def stb_mmu_def load8_def store8_def le_bytes_def in_memory split: if_splits)

section \<open>The test program\<close>

lemma check_passes:
  "st M = Inr M' \<Longrightarrow> ld M' = Inr w \<Longrightarrow> p w \<Longrightarrow>
   \<exists>M' out'. store_and_check before after st (\<lambda>M. rbind (ld M) (\<lambda>i. Inr (p i))) msg (M, out) = Inr (M', out')"
  by (simp add: store_and_check_def require_def)

lemma alt_ops_simps:
  "LDL alt_ops = ldl_mmu" "LDW alt_ops = ldw_mmu" "STL alt_ops = stl_mmu" "STW alt_ops = stw_mmu" "STB alt_ops = stb_mmu"
  by (simp_all add: alt_ops_def)

lemma ldw_low: "ldw_mmu M a = Inr w \<Longrightarrow> (ucast w :: byte) = M a"
proof -
  assume "ldw_mmu M a = Inr w"
  then have "w = push_bit 0 (ucast (M a)) OR push_bit 8 (ucast (M (a + 1)))"
    by (auto simp: ldw_mmu_def load8_def rbind_eq_Inr split: if_splits)
  moreover have "ucast (push_bit 0 (ucast b) OR push_bit 8 (ucast c) :: 16 word) = (b :: byte)" for b c :: byte
    by (rule bit_word_eqI) (auto simp: bit_simps)
  ultimately show ?thesis by simp
qed

text \<open>A step of the test: the store runs and what the test loads is what it stored.\<close>

lemma long_step:
  assumes "fits a 4"
  shows "\<exists>M' out'. store_and_check before after (STL alt_ops a v)
    (\<lambda>M. rbind (LDL alt_ops M a) (\<lambda>i. Inr (i = v))) msg (M, out) = Inr (M', out')"
proof -
  obtain M' where "stl_mmu a v M = Inr M'" "ldl_mmu M' a = Inr v"
    using long_access.load_after_store [OF assms] by blast
  then show ?thesis unfolding alt_ops_simps by (rule check_passes) simp
qed

lemma word_step:
  assumes "fits a 2"
  shows "\<exists>M' out'. store_and_check before after (STW alt_ops a v)
    (\<lambda>M. rbind (LDW alt_ops M a) (\<lambda>i. Inr (i = v))) msg (M, out) = Inr (M', out')"
proof -
  obtain M' where "stw_mmu a v M = Inr M'" "ldw_mmu M' a = Inr v"
    using word_access.load_after_store [OF assms] by blast
  then show ?thesis unfolding alt_ops_simps by (rule check_passes) simp
qed

lemma byte_step:
  assumes "fits a 2"
  shows "\<exists>M' out'. store_and_check before after (STB alt_ops a v)
    (\<lambda>M. rbind (LDW alt_ops M a) (\<lambda>w. Inr ((ucast w :: byte) = v))) msg (M, out) = Inr (M', out')"
proof -
  have st: "stb_mmu a v M = Inr (M(a := v))" using in_memory [OF assms] by (simp add: stb_mmu_def store8_def)
  obtain w where w: "ldw_mmu (M(a := v)) a = Inr w" using ldw_value [OF assms] by blast
  from st w show ?thesis unfolding alt_ops_simps by (rule check_passes) (simp add: ldw_low [OF w])
qed

definition word_stored :: "memory \<Rightarrow> memory" where
  "word_stored M = M(0x40 := 0xfd, 0x41 := 0xfc, 0x42 := 0xfb, 0x43 := 0xfa)"

lemma final_load: "ldl_mmu (word_stored M) 0x40 = Inr 0xfafbfcfd"
  by (simp add: ldl_mmu_def load8_def word_stored_def)

lemma tests_pass: "\<exists>r. mem_ops_main alt_ops M = Inr r"
proof -
  have f: "fits 0 4" "fits 9 4" "fits 0x20 2" "fits 0x29 2" "fits 0x40 2" "fits 0x49 2" by (simp_all add: fits_def)
  have final: "LDL alt_ops (M'(0x40 := 0xfd, 0x41 := 0xfc, 0x42 := 0xfb, 0x43 := 0xfa)) (0x10 * 4) = Inr 0xfafbfcfd" for M'
    using final_load [of M'] by (simp add: alt_ops_def word_stored_def)
  let ?o32 = "0xdeadbeef :: u32" and ?o16 = "0x1234 :: 16 word" and ?o8 = "0xAA :: byte"
  obtain M1 o1 where 1: "store_and_check ''before STL'' ''after STL'' (STL alt_ops 0x0 ?o32)
      (\<lambda>M. rbind (LDL alt_ops M 0x0) (\<lambda>i32. Inr (i32 = ?o32))) ''simple stl/ldl failed'' (M, []) = Inr (M1, o1)"
    using long_step [OF f(1)] by blast
  obtain M2 o2 where 2: "store_and_check ''before STL unaligned'' ''after STL unaligned'' (STL alt_ops 0x9 ?o32)
      (\<lambda>M. rbind (LDL alt_ops M 0x9) (\<lambda>i32. Inr (i32 = ?o32))) ''simple stl/ldl failed (unaligned)'' (M1, o1) = Inr (M2, o2)"
    using long_step [OF f(2)] by blast
  obtain M3 o3 where 3: "store_and_check ''before STW'' ''after STW'' (STW alt_ops 0x20 ?o16)
      (\<lambda>M. rbind (LDW alt_ops M 0x20) (\<lambda>i16. Inr (i16 = ?o16))) ''simple stw/ldw failed'' (M2, o2) = Inr (M3, o3)"
    using word_step [OF f(3)] by blast
  obtain M4 o4 where 4: "store_and_check ''before STW'' ''after STW'' (STW alt_ops 0x29 ?o16)
      (\<lambda>M. rbind (LDW alt_ops M 0x29) (\<lambda>i16. Inr (i16 = ?o16))) ''simple stw/ldw failed (unaligned)'' (M3, o3) = Inr (M4, o4)"
    using word_step [OF f(4)] by blast
  obtain M5 o5 where 5: "store_and_check ''before STB'' ''after STB'' (STB alt_ops 0x40 ?o8)
      (\<lambda>M. rbind (LDW alt_ops M 0x40) (\<lambda>v. Inr ((ucast v :: byte) = ?o8))) ''simple stb/ldb failed'' (M4, o4) = Inr (M5, o5)"
    using byte_step [OF f(5)] by blast
  obtain M6 o6 where 6: "store_and_check ''before STB'' ''after STB'' (STB alt_ops 0x49 ?o8)
      (\<lambda>M. rbind (LDW alt_ops M 0x49) (\<lambda>v. Inr ((ucast v :: byte) = ?o8))) ''simple stb/ldb failed (unaligned)'' (M5, o5) = Inr (M6, o6)"
    using byte_step [OF f(6)] by blast
  show ?thesis unfolding mem_ops_main_def Let_def 1 2 3 4 5 6 rbind_simps prod.case final by (simp add: require_def)
qed

section \<open>Constant loads are loads\<close>








text \<open>The laws of the 32-bit access, spelled out.\<close>

theorem stl_ldl_laws:
  assumes "fits a 4"
  shows "\<exists>M'. stl_mmu a v M = Inr M' \<and> ldl_mmu M' a = Inr v
    \<and> (\<forall>b. fits b 4 \<and> (unat a + 4 \<le> unat b \<or> unat b + 4 \<le> unat a) \<longrightarrow> ldl_mmu M' b = ldl_mmu M b)"
proof -
  obtain M' where M': "stl_mmu a v M = Inr M'" "ldl_mmu M' a = Inr v"
    using long_access.load_after_store [OF assms] by blast
  have "ldl_mmu M' b = ldl_mmu M b" if b: "fits b 4" "unat a + 4 \<le> unat b \<or> unat b + 4 \<le> unat a" for b
  proof -
    have "M' (b + of_nat k) = M (b + of_nat k)" if "k < 4" for k
      using long_access.store_frame [OF M'(1) fits_disjoint [OF assms b that]] .
    then have "le_bytes M' b 4 = le_bytes M b 4" by (simp add: le_bytes_def)
    then show ?thesis by (rule long_access.load_bytes)
  qed
  with M' show ?thesis by blast
qed

section \<open>Properties\<close>

text \<open>
  C40. Whatever the memory holds, the test program runs through with the operations of \<open>mem-ops-alt.ll\<close>: every value
  stored, aligned or not, is read back. With those of \<open>mem-ops.ll\<close> it stops at the first 16-bit value, on memory that is
  zero as \<open>MEMORY\<close> is.
\<close>

theorem mem_ops_tests:
  "(\<exists>r. mem_ops_main alt_ops M = Inr r) \<and> mem_ops_main old_ops (\<lambda>a. 0) = Inl (AssertFailed ''simple stw/ldw failed'')"
proof -
  have "mem_ops_main old_ops (\<lambda>a. 0) = Inl (AssertFailed ''simple stw/ldw failed'')"
    by (simp add: mem_ops_main_def old_ops_def store_and_check_def require_def old_ldl_mmu_def old_stl_mmu_def
        old_ldw_mmu_def old_stw_mmu_def Let_def)
  then show ?thesis using tests_pass by blast
qed







end
