(* ===== verification/Value_Maps.thy ===== *)
theory Value_Maps
  imports Build_Functions
begin

text \<open>
  The value maps that \<open>CloneFunctionInto\<close> is given. \<open>copyGlobalReferences\<close>, of which \<open>TransformBBToVoid\<close> and
  \<open>BuildFunctions\<close> have one each, declares what a function mentions and enters in the map what each symbol becomes.
  \<open>Save_BBs\<close> keeps the module only; here is the map too, and that nothing is lost by leaving it out. The function that
  \<open>BuildFunctions\<close> could make for jumps to nowhere is here as well.
\<close>

section \<open>Value maps\<close>

text \<open>What a symbol of the old module becomes: a variable of the new one, by name, or a function, by identity.\<close>

datatype symbol = VarSym string | FunSym nat

type_synonym value_map = "val \<rightharpoonup> symbol"

definition function_symbol :: "string \<Rightarrow> lmodule \<Rightarrow> symbol option" where
  "function_symbol nm m = map_option (\<lambda>F. FunSym (fid F)) (lookup_function nm m)"

definition build_map_operand :: "val \<Rightarrow> lmodule \<times> value_map \<Rightarrow> lmodule \<times> value_map" where
  "build_map_operand iob s = (case s of (module, valueMap) \<Rightarrow> (case iob of
      GlobalVar g \<Rightarrow> (getOrInsertGlobal g module, valueMap(iob \<mapsto> VarSym g))
    | FuncRef f \<Rightarrow> (let module' = getOrInsertFunction f module in
        (module', valueMap(iob := function_symbol f module')))
    | _ \<Rightarrow> s))"

definition BuildFunctions_copyGlobalReferences :: "func \<Rightarrow> lmodule \<times> value_map \<Rightarrow> lmodule \<times> value_map" where
  "BuildFunctions_copyGlobalReferences func s =
     fold (\<lambda>ibb. fold (\<lambda>iib. fold build_map_operand (operands (ikind iib))) (bins ibb)) (fblocks func) s"

definition void_map_operand :: "val \<Rightarrow> lmodule \<times> value_map \<Rightarrow> lmodule \<times> value_map" where
  "void_map_operand iob s =
     (let (module, valueMap) = s;
          s' = (case iob of GlobalVar g \<Rightarrow> (getOrInsertGlobal g module, valueMap(iob \<mapsto> VarSym g)) | _ \<Rightarrow> s);
          (module, valueMap) = s'
      in case iob of
           FuncRef f \<Rightarrow> (let module' = getOrInsertFunction f module in (module', valueMap(iob := function_symbol f module')))
         | _ \<Rightarrow> s')"

definition TransformBBToVoid_copyGlobalReferences :: "func \<Rightarrow> lmodule \<times> value_map \<Rightarrow> lmodule \<times> value_map" where
  "TransformBBToVoid_copyGlobalReferences func s =
     fold (\<lambda>ibb. fold (\<lambda>iib. fold void_map_operand (operands (ikind iib))) (bins ibb)) (fblocks func) s"

section \<open>The fake function\<close>

text \<open>
  \<open>BuildFunctions::getOrCreateEmptyFunction\<close> over \<open>m_fakeFunction\<close>, a null pointer before the first call, and the
  module. Its one call, in \<open>fixupDirectJumps\<close>, is commented out.
\<close>

definition getOrCreateEmptyFunction :: "nat option \<Rightarrow> lmodule \<Rightarrow> (nat \<times> nat option \<times> lmodule) res" where
  "getOrCreateEmptyFunction m_fakeFunction m = (case m_fakeFunction of
     Some f \<Rightarrow> (case find (\<lambda>F. fid F = f) (mfuncs m) of
         None \<Rightarrow> Inl (UseAfterFree f)
       | Some F \<Rightarrow> (case fblocks F of [] \<Rightarrow> Inl (AssertFailed ''getEntryBlock'') | B # _ \<Rightarrow> Inr (bid B, m_fakeFunction, m)))
   | None \<Rightarrow> (let m' = getOrInsertFunction ''fakeFunction'' m in (case lookup_function ''fakeFunction'' m' of
         None \<Rightarrow> Inl (NullDeref ''fakeFunction'')
       | Some F \<Rightarrow> (case add_ret_block ''entry'' F of (F', entryBB) \<Rightarrow>
           Inr (entryBB, Some (fid F), update_function ''fakeFunction'' (\<lambda>_. F') m')))))"

section \<open>What the maps hold\<close>

fun is_symbol :: "val \<Rightarrow> bool" where
  "is_symbol (GlobalVar _) = True"
| "is_symbol (FuncRef _) = True"
| "is_symbol _ = False"

fun symbol_in :: "lmodule \<Rightarrow> val \<Rightarrow> symbol option" where
  "symbol_in m (GlobalVar g) = Some (VarSym g)"
| "symbol_in m (FuncRef f) = function_symbol f m"
| "symbol_in m _ = None"

lemma build_map_operand_eq:
  "build_map_operand v (m, vm) =
     (copy_operand v m, if is_symbol v then vm(v := symbol_in (copy_operand v m) v) else vm)"
  by (cases v) (simp_all add: build_map_operand_def copy_operand_def Let_def)

lemma void_map_operand_eq: "void_map_operand v s = build_map_operand v s"
  by (cases s; cases v) (simp_all add: build_map_operand_def void_map_operand_def Let_def)

lemma declared_lookup: "declared m (FuncRef f) \<Longrightarrow> \<exists>F. lookup_function f m = Some F"
  by (cases "lookup_function f m") (auto simp: declared_def lookup_function_def find_None_iff)

lemma symbol_kept:
  assumes "grown m m'" and "declared m v"
  shows "symbol_in m' v = symbol_in m v"
proof (cases v)
  case (FuncRef f)
  then obtain F where F: "lookup_function f m = Some F" using assms(2) declared_lookup by blast
  show ?thesis using F lookup_grown [OF assms(1) F] FuncRef by (simp add: function_symbol_def)
qed simp_all

lemma declared_operand:
  assumes "declared m v \<or> v = w"
  shows "declared (copy_operand w m) v"
  using assms by (cases w; cases v) (auto simp: declared_def copy_operand_def getOrInsertGlobal_def getOrInsertFunction_def)

lemma declared_operands: "declared m v \<or> v \<in> set vs \<Longrightarrow> declared (fold copy_operand vs m) v"
  by (induction vs arbitrary: m) (use declared_operand in auto)

text \<open>The three nested loops are one over the operands of the function.\<close>

definition func_operands :: "func \<Rightarrow> val list" where
  "func_operands f = concat (map (\<lambda>i. operands (ikind i)) (func_ins f))"

lemma fold_concat_map: "fold (\<lambda>x. fold g (h x)) xs s = fold g (concat (map h xs)) s"
  by (induction xs arbitrary: s) simp_all

lemma copy_operands: "copyGlobalReferences f m = fold copy_operand (func_operands f) m"
  by (simp add: copyGlobalReferences_def func_operands_def fold_concat_map)

lemma nested_operands:
  "fold (\<lambda>b. fold (\<lambda>i. fold g (operands (ikind i))) (bins b)) (fblocks f) s = fold g (func_operands f) s"
  by (simp add: func_operands_def func_ins_def fold_concat_map)

lemma mentions_operands: "mentions f = set (func_operands f)"
  by (simp add: mentions_def func_operands_def)

lemma map_operands:
  "fold build_map_operand vs (m, vm) = (fold copy_operand vs m,
     (\<lambda>v. if v \<in> set vs \<and> is_symbol v then symbol_in (fold copy_operand vs m) v else vm v))"
proof (induction vs rule: rev_induct)
  case (snoc x vs)
  let ?M = "fold copy_operand vs m"
  have "symbol_in (copy_operand x ?M) v = symbol_in ?M v" if "v \<in> set vs" for v
    by (rule symbol_kept) (use that grown_operand declared_operands in auto)
  then show ?case by (auto simp: snoc.IH build_map_operand_eq fun_eq_iff)
qed (simp add: fun_eq_iff)

lemma copy_undeclared: "\<forall>v \<in> set vs. declared m v \<Longrightarrow> fold copy_operand vs m = m"
proof (induction vs)
  case (Cons v vs)
  then have "copy_operand v m = m"
    by (cases v) (simp_all add: declared_def copy_operand_def getOrInsertGlobal_def getOrInsertFunction_def)
  with Cons show ?case by simp
qed simp

section \<open>The copies agree\<close>

text \<open>
  Both copies declare what \<open>SaveTranslatedBBs::copyGlobalReferences\<close> declares, and map every symbol the function
  mentions to the symbol of that name in the module they leave, and nothing else. When the function's own module is the
  target, as in \<open>TransformBBToVoid\<close>, the module stays as it is.
\<close>

theorem copyGlobalReferences_maps:
  "BuildFunctions_copyGlobalReferences f (m, vm) = (copyGlobalReferences f m,
     (\<lambda>v. if v \<in> mentions f \<and> is_symbol v then symbol_in (copyGlobalReferences f m) v else vm v))"
  unfolding BuildFunctions_copyGlobalReferences_def nested_operands map_operands copy_operands mentions_operands ..

theorem copyGlobalReferences_copies_agree:
  "TransformBBToVoid_copyGlobalReferences f s = BuildFunctions_copyGlobalReferences f s"
  unfolding TransformBBToVoid_copyGlobalReferences_def BuildFunctions_copyGlobalReferences_def void_map_operand_eq [abs_def] ..

lemma mapped_symbol:
  assumes "v \<in> mentions f" and "is_symbol v"
  shows "\<exists>s. snd (BuildFunctions_copyGlobalReferences f (m, vm)) v = Some s"
proof -
  have "declared (copyGlobalReferences f m) v"
    using assms(1) declared_operands unfolding copy_operands mentions_operands by blast
  then show ?thesis using assms
    by (cases v) (auto simp: copyGlobalReferences_maps function_symbol_def dest: declared_lookup)
qed

theorem copy_into_own_module:
  assumes "\<forall>v \<in> mentions f. declared m v"
  shows "fst (TransformBBToVoid_copyGlobalReferences f (m, vm)) = m"
  using copy_undeclared [of "func_operands f" m] assms
  by (simp add: copyGlobalReferences_copies_agree copyGlobalReferences_maps copy_operands mentions_operands)

text \<open>
  A second call gives the block of the first, and changes nothing, when the module had no function of that name with a
  body. Otherwise the first call gives a new last block and the second the entry block.
\<close>

lemma distinct_inserted: "distinct (map fid (mfuncs m)) \<Longrightarrow> distinct (map fid (mfuncs (getOrInsertFunction nm m)))"
  using le_fold_max [of _ "map fid (mfuncs m)"]
  by (force simp: getOrInsertFunction_def fresh_fid_def)

lemma find_updated:
  assumes "distinct (map fid (mfuncs m))" and "lookup_function nm m = Some F" and "fid F' = fid F"
  shows "find (\<lambda>G. fid G = fid F) (mfuncs (update_function nm (\<lambda>_. F') m)) = Some F'"
proof -
  have "find (\<lambda>G. fid G = fid F) (map (\<lambda>G. if fname G = nm then F' else G) fs) = Some F'"
    if "distinct (map fid fs)" "F \<in> set fs" "fname F = nm" for fs
    using that assms(3) by (induction fs) (auto simp: image_iff)
  moreover have "F \<in> set (mfuncs m)" "fname F = nm"
    using assms(2) by (auto simp: lookup_function_def find_Some_iff)
  ultimately show ?thesis using assms(1) by (simp add: update_function_def)
qed

theorem getOrCreateEmptyFunction_twice:
  assumes "getOrCreateEmptyFunction None m = Inr (b, ff, m')" and "distinct (map fid (mfuncs m))"
  shows "getOrCreateEmptyFunction ff m' = Inr (case lookup_function ''fakeFunction'' m of
      Some F \<Rightarrow> (if fblocks F = [] then b else bid (hd (fblocks F))) | None \<Rightarrow> b, ff, m')"
proof -
  let ?m = "getOrInsertFunction ''fakeFunction'' m"
  obtain F where F: "lookup_function ''fakeFunction'' ?m = Some F" using lookup_inserted by blast
  obtain F' where F': "add_ret_block ''entry'' F = (F', b)" "ff = Some (fid F)"
    "m' = update_function ''fakeFunction'' (\<lambda>_. F') ?m"
    using assms(1) F by (auto simp: getOrCreateEmptyFunction_def Let_def split: prod.splits)
  have "find (\<lambda>G. fid G = fid F) (mfuncs m') = Some F'"
    unfolding F'(3) by (rule find_updated [OF distinct_inserted [OF assms(2)] F]) (use F'(1) in \<open>auto simp: add_ret_block_def\<close>)
  moreover have "fblocks F' \<noteq> [] \<and> bid (hd (fblocks F')) = (if fblocks F = [] then b else bid (hd (fblocks F)))"
    using F'(1) by (auto simp: add_ret_block_def)
  moreover have "case lookup_function ''fakeFunction'' m of None \<Rightarrow> fblocks F = [] | Some G \<Rightarrow> G = F"
    using F lookup_grown [OF grown_insert] lookup_grown_new [OF grown_insert F] by (auto split: option.splits)
  ultimately show ?thesis
    by (auto simp: getOrCreateEmptyFunction_def F'(2) split: list.splits option.splits)
qed

end
