(* ===== verification/Block_Names.thy ===== *)
theory Block_Names
  imports Extract_Run
begin

text \<open>
  The names of built code against the readers of names. \<open>S2EExtractAndBuildPass\<close> names a block \<open>BB_\<close> and a function
  \<open>Function_\<close> with the address in decimal (\<open>intToString\<close>); \<open>getBlockAddress\<close> of \<open>PassUtils.h\<close> reads what follows
  \<open>BB_\<close> and \<open>Func_\<close> as hexadecimal. The printer that would fit, \<open>intToHex\<close>, is never called.
\<close>

section \<open>Decimal digits read as hexadecimal\<close>

fun hex_of_dec :: "nat \<Rightarrow> nat" where
  "hex_of_dec n = (if n < 10 then n else 16 * hex_of_dec (n div 10) + n mod 10)"

declare hex_of_dec.simps [simp del]

lemma hex_of_dec_bounds: "n \<le> hex_of_dec n \<and> (hex_of_dec n = n \<longleftrightarrow> n < 10)"
proof (induction n rule: hex_of_dec.induct)
  case (1 n)
  show ?case
  proof (cases "n < 10")
    case True
    then show ?thesis by (simp add: hex_of_dec.simps)
  next
    case False
    then have "n div 10 \<le> hex_of_dec (n div 10)" "n div 10 \<noteq> 0" using 1 by auto
    moreover have "hex_of_dec n = 16 * hex_of_dec (n div 10) + n mod 10" using False by (subst hex_of_dec.simps) simp
    ultimately have "n < hex_of_dec n" using div_mult_mod_eq [of n 10] by linarith
    then show ?thesis using False by simp
  qed
qed

lemma hex_of_dec_less: "n < 10 ^ k \<Longrightarrow> 0 < k \<Longrightarrow> hex_of_dec n < 16 ^ k"
proof (induction k arbitrary: n)
  case (Suc k)
  show ?case
  proof (cases "n < 10")
    case True
    then have "hex_of_dec n < 16" by (simp add: hex_of_dec.simps)
    also have "(16 :: nat) \<le> 16 ^ Suc k" by simp
    finally show ?thesis .
  next
    case False
    then have k: "0 < k" using Suc.prems(1) by (cases k) simp_all
    have "n div 10 < 10 ^ k" using Suc.prems(1) by (auto simp: less_mult_imp_div_less)
    from Suc.IH [OF this k] have "Suc (hex_of_dec (n div 10)) \<le> 16 ^ k" by simp
    then have le: "16 * Suc (hex_of_dec (n div 10)) \<le> 16 ^ Suc k" by (simp only: power_Suc mult_le_mono2)
    have h: "hex_of_dec n = 16 * hex_of_dec (n div 10) + n mod 10" using False by (subst hex_of_dec.simps) simp
    have "n mod 10 < 10" by simp
    then have "hex_of_dec n < 16 * Suc (hex_of_dec (n div 10))" unfolding h by simp
    then show ?thesis using le by (rule less_le_trans)
  qed
qed simp

lemma dec_hex_digit: "n < 10 \<Longrightarrow> dec_digit n = hex_digit n"
proof -
  have "\<forall>n \<in> {..<10}. dec_digit n = hex_digit n" by (simp add: lessThan_nat_numeral lessThan_Suc dec_digit_def hex_digit_def)
  then show "n < 10 \<Longrightarrow> ?thesis" by simp
qed

lemma dec_digits_hex: "dec_digits n = hex_digits (hex_of_dec n)"
proof (induction n rule: dec_digits.induct)
  case (1 n)
  show ?case
  proof (cases "n < 10")
    case True
    then show ?thesis by (simp add: dec_digits.simps hex_of_dec.simps hex_digits.simps dec_hex_digit)
  next
    case False
    have h: "hex_of_dec n = 16 * hex_of_dec (n div 10) + n mod 10" using False by (subst hex_of_dec.simps) simp
    have "0 < hex_of_dec (n div 10)" using hex_of_dec_bounds [of "n div 10"] False by (cases "n div 10") auto
    then have "hex_digits (hex_of_dec n) = hex_digits (hex_of_dec (n div 10)) @ [hex_digit (n mod 10)]"
      unfolding h by (subst hex_digits.simps) simp
    also have "\<dots> = dec_digits n" using False 1 by (simp add: dec_digits.simps [of n] dec_hex_digit)
    finally show ?thesis by simp
  qed
qed

lemma hexToInt_dec: "n < 10 ^ 16 \<Longrightarrow> hexToInt (dec_digits n) = of_nat (hex_of_dec n)"
proof -
  assume "n < 10 ^ 16"
  then have "hex_of_dec n < 16 ^ 16" by (rule hex_of_dec_less) simp
  then have l: "hex_of_dec n < 2 ^ 64" by simp
  then have "strtoul16 (dec_digits n) = of_nat (hex_of_dec n)"
    by (simp add: strtoul16_def dec_digits_hex strto_hex_digits)
  then show "hexToInt (dec_digits n) = of_nat (hex_of_dec n)" using l by (simp add: hexToInt_def unsigned_of_nat take_bit_nat_eq_self)
qed

text \<open>Functions fare worse: no built function counts as recovered, and its address reads as 0.\<close>

lemma built_function_address:
  assumes "fname f = name_at ''Function_'' a \<or> fname f = name_at ''FakeFunction_'' a"
  shows "\<not> isRecoveredFunc f" and "getFuncAddress f = 0"
proof -
  have "hex_value CHR ''i'' = None" "hex_value CHR ''u'' = None" by (simp_all add: hex_value.simps)
  then show "getFuncAddress f = 0"
    using assms unfolding getFuncAddress_def hexToInt_def strtoul16_def strto_hex_def strip_0x_def
    by (auto simp: is_space_def split: list.split)
  show "\<not> isRecoveredFunc f" using assms by (auto simp: isRecoveredFunc_def startswith_def)
qed

section \<open>Properties\<close>

text \<open>
  C7. The pass that builds functions and the readers of names disagree. A block it has built for an address counts as
  recovered, and \<open>getBlockAddress\<close> reads its name as the number whose hexadecimal digits are the decimal digits of the
  address: of the addresses below \<open>10 ^ 8\<close>, those below 10 and no other are read back. (From there on the number wraps,
  and a few addresses, 2182104640 the first, are read back by accident.)
\<close>

theorem built_block_address:
  assumes "names_ok s" and "getBasicBlock (name_at ''BB_'' a) s = Some b"
  shows "\<exists>B. mod_block (built_module s) b = Inr B \<and> isRecoveredBlock B
    \<and> getBlockAddress B = of_nat (hex_of_dec (unat (ucast a :: u32)))
    \<and> (unat (ucast a :: u32) < 10 ^ 8 \<longrightarrow> (getBlockAddress B = ucast a \<longleftrightarrow> unat (ucast a :: u32) < 10))"
proof -
  let ?n = "unat (ucast a :: u32)"
  obtain B where B: "mod_block (built_module s) b = Inr B" "bname B = name_at ''BB_'' a"
    using names_okD [OF assms(1), of "name_at ''BB_'' a" b] assms(2) unfolding getBasicBlock_def by blast
  have "?n < 2 ^ LENGTH(32)" by (rule unsigned_less)
  then have addr: "getBlockAddress B = of_nat (hex_of_dec ?n)"
    using hexToInt_dec [of ?n] by (simp add: getBlockAddress_def B(2) intToString_def)
  have "getBlockAddress B = ucast a \<longleftrightarrow> ?n < 10" if "?n < 10 ^ 8"
  proof -
    have "hex_of_dec ?n < 16 ^ 8" using that by (rule hex_of_dec_less) simp
    then have "unat (getBlockAddress B) = hex_of_dec ?n" by (simp add: addr unat_of_nat)
    then show ?thesis using hex_of_dec_bounds [of ?n] by (metis word_unat_eq_iff)
  qed
  with B addr show ?thesis by (auto simp: isRecoveredBlock_def startswith_def)
qed

text \<open>The block built for the address 16 reads as 22.\<close>

definition after_16 :: builder where
  "after_16 = run_state (extract_and_build shift_clone env_names (jump_block 3) (setBlockAddr 16 (- 1) first_builder))"

lemma after_16_blocks: "block_names after_16 = [(''Function_16'', [''entry'', ''BB_16'', ''Trans_3''])]
    \<and> getBasicBlock (name_at ''BB_'' 16) after_16 = Some 2"
  by code_simp

lemma after_16_ok: "builder_ok after_16"
proof -
  let ?s = "setBlockAddr 16 (- 1) first_builder"
  have ok: "builder_ok ?s" using first_builder_ok by (simp add: builder_ok_def names_ok_def apart_def setBlockAddr_def)
  have i: "initialized ?s" "getBasicBlock nm ?s = None" "getFunction nm ?s = None" for nm
    by (simp_all add: setBlockAddr_def first_builder_def getFunction_def getBasicBlock_def)
  obtain s' where b: "build_block shift_clone env_names (jump_block 3) ?s = Inr s'" and r: "after_16 = s'"
    using after_16_blocks i(1,2) unfolding after_16_def extract_and_build_def Let_def
    by (cases "build_block shift_clone env_names (jump_block 3) ?s") (auto simp: run_state_def block_names_def first_builder_def)
  have "\<not> ends_in_call env_names (jump_block 3) ?s" by code_simp
  from build_block_ok [OF b jump_block_clones ok i(2) this] i(3) show ?thesis by (simp add: r)
qed

theorem built_block_address_witness:
  "\<exists>B. mod_block (built_module after_16) 2 = Inr B \<and> isRecoveredBlock B \<and> getBlockAddress B = 22"
proof -
  have "names_ok after_16" using after_16_ok by (simp add: builder_ok_def)
  moreover have "getBasicBlock (name_at ''BB_'' 16) after_16 = Some 2" using after_16_blocks by blast
  moreover have "hex_of_dec (unat (ucast (16 :: u64) :: u32)) = 22" by (simp add: hex_of_dec.simps)
  ultimately show ?thesis using built_block_address by fastforce
qed

end
